theory Spec2Isabelle
  imports Main "HOL-Library.Word" "HOL-Library.Signed_Division"
begin

unbundle bit_operations_syntax

section \<open>The MTBDD package\<close>

text \<open>
  Modelled from the spec: the BDD package (node allocation, apply, leaf search) is an
  external collaborator of the translator (spec, sections 1 and 3) and its code is not
  part of the sources.  A node is either one of the two constants, a terminal carrying an
  integer, or a decision node on a variable with a low and a high child.  The package
  shares equal nodes, so that equality of node identifiers is equality of the trees they
  denote: a node is modelled by the tree below it.  Variables are ordered by their index.
\<close>

datatype bdd =
    bddfalse
  | bddtrue
  | bdd_terminal int
  | bdd_node nat bdd bdd

text \<open>Modelled from the spec: the node constructor of a reduced diagram never builds a
  decision node whose two children are the same node.\<close>

definition bdd_makenode :: "nat \<Rightarrow> bdd \<Rightarrow> bdd \<Rightarrow> bdd" where
  "bdd_makenode x l h = (if l = h then l else bdd_node x l h)"

fun bdd_is_terminal :: "bdd \<Rightarrow> bool" where
  "bdd_is_terminal (bdd_terminal v) = True"
| "bdd_is_terminal b = False"

text \<open>The value of a terminal; the package gives no meaning to the call on another node
  (0 here).\<close>

fun bdd_get_terminal :: "bdd \<Rightarrow> int" where
  "bdd_get_terminal (bdd_terminal v) = v"
| "bdd_get_terminal b = 0"

text \<open>The leaves below a root, low branch first.\<close>

fun leaves_of :: "bdd \<Rightarrow> bdd list" where
  "leaves_of (bdd_node x l h) = leaves_of l @ leaves_of h"
| "leaves_of b = [b]"

text \<open>A diagram is reduced and ordered when no decision node has two equal children and
  the variables increase strictly along every path.\<close>

fun bdd_vars :: "bdd \<Rightarrow> nat set" where
  "bdd_vars (bdd_node x l h) = insert x (bdd_vars l \<union> bdd_vars h)"
| "bdd_vars b = {}"

fun bdd_reduced :: "bdd \<Rightarrow> bool" where
  "bdd_reduced (bdd_node x l h) = (l \<noteq> h \<and> bdd_reduced l \<and> bdd_reduced h)"
| "bdd_reduced b = True"

text \<open>Modelled from the spec (4.3 (b), unary apply): every terminal value is rewritten by
  the callback, and the two constants are replaced by the two given diagrams (the first
  one stands for the constant false, the second one for the constant true).\<close>

fun bdd_mt_apply1 :: "bdd \<Rightarrow> (int \<Rightarrow> int) \<Rightarrow> bdd \<Rightarrow> bdd \<Rightarrow> bdd" where
  "bdd_mt_apply1 bddfalse f rf rt = rf"
| "bdd_mt_apply1 bddtrue f rf rt = rt"
| "bdd_mt_apply1 (bdd_terminal v) f rf rt = bdd_terminal (f v)"
| "bdd_mt_apply1 (bdd_node x l h) f rf rt =
     bdd_makenode x (bdd_mt_apply1 l f rf rt) (bdd_mt_apply1 h f rf rt)"

text \<open>Modelled from the spec: the search for a leaf that a predicate accepts, over a
  vector of roots.  Every root of the vector is searched.\<close>

definition bdd_find_leaf :: "bdd list \<Rightarrow> (bdd \<Rightarrow> bool) \<Rightarrow> bool" where
  "bdd_find_leaf roots p = list_ex (\<lambda>r. list_ex p (leaves_of r)) roots"

text \<open>The leaf that a valuation of the variables reaches from a root.\<close>

fun bdd_eval :: "bdd \<Rightarrow> (nat \<Rightarrow> bool) \<Rightarrow> bdd" where
  "bdd_eval (bdd_node x l h) a = (if a x then bdd_eval h a else bdd_eval l a)"
| "bdd_eval b a = b"

section \<open>Formulas\<close>

text \<open>
  Modelled from the spec (section 3): a formula is an immutable expression tree over atoms
  and the operators of LTLf; conjunction and disjunction are n-ary.  The formula library
  itself is not part of the sources.  Hash-consing makes identity of formulas the
  equality of their trees.  The operators of regular expressions and of PSL, which the
  translator refuses, are gathered under one constructor.
\<close>

datatype sere_op =
    eword | AndNLM | AndRat | Closure | Concat | EConcat | EConcatMarked | first_match
  | FStar | Fusion | NegClosure | NegClosureMarked | OrRat | Star | UConcat

datatype formula =
    ff
  | tt
  | ap string
  | Not formula
  | X formula
  | strong_X formula
  | F formula
  | G formula
  | Xor formula formula
  | Implies formula formula
  | Equiv formula formula
  | U formula formula
  | R formula formula
  | W formula formula
  | M formula formula
  | And "formula list"
  | Or "formula list"
  | Sere sere_op "formula list"

section \<open>MTDFA\<close>

text \<open>The structure \<open>mtdfa\<close>: the roots of the states, the optional names of the states,
  the atomic propositions and the conjunction of the controllable variables.  The
  dictionary of the variables is the variable numbering itself.\<close>

record mtdfa =
  states :: "bdd list"
  names :: "formula list"
  aps :: "formula list"
  controllable_variables :: bdd

definition num_roots :: "mtdfa \<Rightarrow> nat" where
  "num_roots dfa = length (states dfa)"

subsection \<open>Emptiness\<close>

text \<open>\<open>leaf_is_accepting\<close>: the constant false is rejecting, the constant true is
  accepting, and a terminal is accepting when the low bit of its value is set.\<close>

fun leaf_is_accepting :: "bdd \<Rightarrow> bool" where
  "leaf_is_accepting bddfalse = False"
| "leaf_is_accepting bddtrue = True"
| "leaf_is_accepting b = (bdd_get_terminal b AND 1 \<noteq> 0)"

definition is_empty :: "mtdfa \<Rightarrow> bool" where
  "is_empty dfa = (\<not> bdd_find_leaf (states dfa) leaf_is_accepting)"

subsection \<open>Complement\<close>

definition complement_term :: "int \<Rightarrow> int" where
  "complement_term v = v XOR 1"

text \<open>Modelled from the spec: the constructor of a negation applies the trivial
  identities of the formula library.\<close>

fun formula_Not :: "formula \<Rightarrow> formula" where
  "formula_Not tt = ff"
| "formula_Not ff = tt"
| "formula_Not (Not f) = f"
| "formula_Not f = Not f"

definition complement_aux :: "mtdfa \<Rightarrow> mtdfa" where
  "complement_aux dfa =
     \<lparr> states = map (\<lambda>b. bdd_mt_apply1 b complement_term bddtrue bddfalse) (states dfa),
       names = map formula_Not (names dfa),
       aps = aps dfa,
       controllable_variables = bddtrue \<rparr>"

definition complement :: "mtdfa \<Rightarrow> mtdfa" where
  "complement dfa = complement_aux dfa"

subsection \<open>The language of an MTDFA\<close>

text \<open>
  A letter is a valuation of the variables.  A word is read from a state by following
  the root of the state down to a leaf, once per letter.  The constant true accepts the
  word whatever follows, the constant false rejects it; a terminal of value \<open>v\<close> leads to
  state \<open>v div 2\<close>, and the word is accepted if its last letter reaches a terminal whose low
  bit is set.  This is the reading of \<open>as_twa\<close>, which puts the acceptance mark on the
  transitions and sends the constant true to an accepting sink.  The traces of LTLf have
  at least one letter: no state accepts the empty word.
\<close>

fun mtdfa_accepts_from :: "bdd list \<Rightarrow> nat \<Rightarrow> (nat \<Rightarrow> bool) list \<Rightarrow> bool" where
  "mtdfa_accepts_from sts i [] = False"
| "mtdfa_accepts_from sts i (a # w) =
     (if i < length sts then
        (case bdd_eval (sts ! i) a of
           bddfalse \<Rightarrow> False
         | bddtrue \<Rightarrow> True
         | bdd_terminal v \<Rightarrow>
             (if w = [] then v AND 1 \<noteq> 0
              else 0 \<le> v \<and> mtdfa_accepts_from sts (nat (v div 2)) w)
         | bdd_node x l h \<Rightarrow> False)
      else False)"

definition mtdfa_accepts :: "mtdfa \<Rightarrow> (nat \<Rightarrow> bool) list \<Rightarrow> bool" where
  "mtdfa_accepts dfa w = mtdfa_accepts_from (states dfa) 0 w"

text \<open>Invariant (I3) of the data model: every terminal below a root denotes a state of
  the automaton.\<close>

definition leaf_in_range :: "nat \<Rightarrow> bdd \<Rightarrow> bool" where
  "leaf_in_range n b =
     (case b of bdd_terminal v \<Rightarrow> 0 \<le> v \<and> nat (v div 2) < n | _ \<Rightarrow> True)"

definition mtdfa_wf :: "mtdfa \<Rightarrow> bool" where
  "mtdfa_wf dfa =
     (states dfa \<noteq> [] \<and>
      list_all (\<lambda>r. list_all (leaf_in_range (length (states dfa))) (leaves_of r)) (states dfa))"

text \<open>The states that the initial state reaches through the terminals of the roots.\<close>

inductive mtdfa_reachable :: "bdd list \<Rightarrow> nat \<Rightarrow> bool" for sts :: "bdd list" where
  reach_init: "mtdfa_reachable sts 0"
| reach_step: "mtdfa_reachable sts i \<Longrightarrow> i < length sts \<Longrightarrow>
     bdd_terminal v \<in> set (leaves_of (sts ! i)) \<Longrightarrow> 0 \<le> v \<Longrightarrow>
     mtdfa_reachable sts (nat (v div 2))"

text \<open>The complement as the spec words it: the decision nodes stay, the two constants
  are swapped and the accepting bit of every terminal is flipped.\<close>

fun flip_leaf :: "bdd \<Rightarrow> bdd" where
  "flip_leaf bddfalse = bddtrue"
| "flip_leaf bddtrue = bddfalse"
| "flip_leaf (bdd_terminal v) = bdd_terminal (if even v then v + 1 else v - 1)"
| "flip_leaf b = b"

fun bdd_map_leaves :: "(bdd \<Rightarrow> bdd) \<Rightarrow> bdd \<Rightarrow> bdd" where
  "bdd_map_leaves f (bdd_node x l h) = bdd_node x (bdd_map_leaves f l) (bdd_map_leaves f h)"
| "bdd_map_leaves f b = f b"

text \<open>Two automata used as concrete inputs.  The first one has a rejecting loop on its
  initial state and a second state, which nothing reaches, with an accepting leaf.  The
  second one is the automaton of \<open>G a\<close> (scenario 1 of the spec).\<close>

definition unreachable_accepting_dfa :: mtdfa where
  "unreachable_accepting_dfa =
     \<lparr> states = [bdd_terminal 0, bdd_node 0 (bdd_terminal 0) bddtrue], names = [],
       aps = [ap ''a''], controllable_variables = bddtrue \<rparr>"

definition dfa_G_a :: mtdfa where
  "dfa_G_a =
     \<lparr> states = [bdd_node 0 bddfalse (bdd_terminal 1)], names = [G (ap ''a'')],
       aps = [ap ''a''], controllable_variables = bddtrue \<rparr>"

section \<open>Bits of terminal values\<close>

lemma and_one_odd: "((v::int) AND 1 \<noteq> 0) = odd v"
  by (simp add: and_one_eq odd_iff_mod_2_eq_one)

lemma xor_one_div2: "((v::int) XOR 1) div 2 = v div 2"
proof -
  have "drop_bit 1 (v XOR 1) = drop_bit 1 v XOR drop_bit 1 (1::int)"
    by (rule drop_bit_xor)
  then show ?thesis by (simp add: drop_bit_eq_div)
qed

lemma xor_one_odd: "odd ((v::int) XOR 1) = even v"
  by (simp add: even_xor_iff)

lemma xor_one_cases: "(v::int) XOR 1 = (if even v then v + 1 else v - 1)"
proof -
  have "(v XOR 1) div 2 = v div 2" by (rule xor_one_div2)
  moreover have "odd (v XOR 1) = even v" by (rule xor_one_odd)
  ultimately show ?thesis by presburger
qed

section \<open>Evaluation of diagrams\<close>

lemma bdd_eval_makenode:
  "bdd_eval (bdd_makenode x l h) a = (if a x then bdd_eval h a else bdd_eval l a)"
  by (simp add: bdd_makenode_def)

lemma bdd_eval_leaf: "bdd_eval b a \<noteq> bdd_node x l h"
  by (induction b) auto

lemma bdd_eval_in_leaves: "bdd_eval b a \<in> set (leaves_of b)"
  by (induction b) auto

lemma wf_leaf:
  assumes "mtdfa_wf dfa" "i < length (states dfa)" "bdd_eval (states dfa ! i) a = bdd_terminal v"
  shows "0 \<le> v \<and> nat (v div 2) < length (states dfa)"
proof -
  have "bdd_terminal v \<in> set (leaves_of (states dfa ! i))"
    using assms(3) bdd_eval_in_leaves [of "states dfa ! i" a] by simp
  moreover have "states dfa ! i \<in> set (states dfa)" using assms(2) by simp
  ultimately have "leaf_in_range (length (states dfa)) (bdd_terminal v)"
    using assms(1) unfolding mtdfa_wf_def list_all_iff by blast
  then show ?thesis by (simp add: leaf_in_range_def)
qed

section \<open>Emptiness check\<close>

lemma leaf_is_accepting_iff:
  "leaf_is_accepting b = (b = bddtrue \<or> (\<exists>v. b = bdd_terminal v \<and> odd v))"
  by (cases b) (auto simp: and_one_odd)

lemma bdd_find_leaf_iff:
  "bdd_find_leaf roots p = (\<exists>i<length roots. \<exists>l\<in>set (leaves_of (roots ! i)). p l)"
  unfolding bdd_find_leaf_def list_ex_iff by (metis in_set_conv_nth)

text \<open>
  Claim C10.  \<open>is_empty\<close> returns false if and only if some leaf of some entry of the
  vector of states is accepting, that is, is the constant true or a terminal with an odd
  value.  The entry is any index of the vector: no reachability from state 0 is asked
  for, so that an accepting leaf in a state that nothing reaches makes \<open>is_empty\<close> return
  false (the witness is such an automaton).
\<close>

theorem is_empty_iff_accepting_leaf:
  "(\<not> is_empty dfa) =
     (\<exists>i<length (states dfa). \<exists>l\<in>set (leaves_of (states dfa ! i)).
        l = bddtrue \<or> (\<exists>v. l = bdd_terminal v \<and> odd v))"
proof -
  have "(\<not> is_empty dfa) = bdd_find_leaf (states dfa) leaf_is_accepting"
    by (simp add: is_empty_def)
  also have "\<dots> = (\<exists>i<length (states dfa). \<exists>l\<in>set (leaves_of (states dfa ! i)).
        leaf_is_accepting l)"
    by (rule bdd_find_leaf_iff)
  finally show ?thesis by (simp add: leaf_is_accepting_iff)
qed

lemma unreachable_only_0:
  "mtdfa_reachable (states unreachable_accepting_dfa) i \<Longrightarrow> i = 0"
  by (induction rule: mtdfa_reachable.induct) (auto simp: unreachable_accepting_dfa_def)

theorem is_empty_iff_accepting_leaf_witness:
  "\<not> mtdfa_reachable (states unreachable_accepting_dfa) 1 \<and>
   \<not> is_empty unreachable_accepting_dfa"
proof
  show "\<not> mtdfa_reachable (states unreachable_accepting_dfa) 1"
    using unreachable_only_0 [of 1] by auto
  have "bddtrue \<in> set (leaves_of (states unreachable_accepting_dfa ! 1))"
    by (simp add: unreachable_accepting_dfa_def)
  moreover have "1 < length (states unreachable_accepting_dfa)"
    by (simp add: unreachable_accepting_dfa_def)
  ultimately show "\<not> is_empty unreachable_accepting_dfa"
    using is_empty_iff_accepting_leaf [of unreachable_accepting_dfa] by blast
qed

section \<open>Complement\<close>

lemma bdd_eval_complement:
  "bdd_eval (bdd_mt_apply1 b complement_term bddtrue bddfalse) a = flip_leaf (bdd_eval b a)"
  by (induction b) (auto simp: bdd_eval_makenode complement_term_def xor_one_cases)

lemma flip_leaf_inj: "flip_leaf b = flip_leaf c \<Longrightarrow> b = c"
  by (cases b; cases c) (auto split: if_splits)

lemma bdd_map_leaves_inj:
  "bdd_map_leaves flip_leaf b = bdd_map_leaves flip_leaf c \<Longrightarrow> b = c"
proof (induction b arbitrary: c)
  case (bdd_node x l h)
  then show ?case by (cases c) (auto split: if_splits)
next
  case bddfalse then show ?case by (cases c) (auto split: if_splits)
next
  case bddtrue then show ?case by (cases c) (auto split: if_splits)
next
  case (bdd_terminal v) then show ?case by (cases c) (auto split: if_splits)
qed

lemma complement_structure:
  "bdd_reduced b \<Longrightarrow>
   bdd_mt_apply1 b complement_term bddtrue bddfalse = bdd_map_leaves flip_leaf b"
proof (induction b)
  case (bdd_node x l h)
  then have "bdd_map_leaves flip_leaf l \<noteq> bdd_map_leaves flip_leaf h"
    using bdd_map_leaves_inj by auto
  with bdd_node show ?case by (simp add: bdd_makenode_def)
qed (simp_all add: complement_term_def xor_one_cases)

lemma complement_accepts_from:
  assumes wf: "mtdfa_wf dfa"
  shows "w \<noteq> [] \<Longrightarrow> i < length (states dfa) \<Longrightarrow>
    mtdfa_accepts_from (states (complement dfa)) i w = (\<not> mtdfa_accepts_from (states dfa) i w)"
proof (induction w arbitrary: i)
  case Nil
  then show ?case by simp
next
  case (Cons a w)
  let ?l = "bdd_eval (states dfa ! i) a"
  have cs: "states (complement dfa) ! i =
      bdd_mt_apply1 (states dfa ! i) complement_term bddtrue bddfalse"
    using Cons.prems by (simp add: complement_def complement_aux_def)
  have len: "length (states (complement dfa)) = length (states dfa)"
    by (simp add: complement_def complement_aux_def)
  show ?case
  proof (cases ?l)
    case bddfalse
    then show ?thesis using Cons.prems by (simp add: cs len bdd_eval_complement)
  next
    case bddtrue
    then show ?thesis using Cons.prems by (simp add: cs len bdd_eval_complement)
  next
    case (bdd_terminal v)
    then have rng: "0 \<le> v \<and> nat (v div 2) < length (states dfa)"
      using wf_leaf [OF wf] Cons.prems by blast
    show ?thesis
    proof (cases "w = []")
      case True
      then show ?thesis using Cons.prems bdd_terminal
        by (simp add: cs len bdd_eval_complement and_one_odd)
    next
      case False
      have "(if even v then v + 1 else v - 1) div 2 = v div 2" by presburger
      moreover have "0 \<le> (if even v then v + 1 else v - 1)" using rng by presburger
      ultimately show ?thesis
        using Cons.prems bdd_terminal False rng Cons.IH [OF False, of "nat (v div 2)"]
        by (simp add: cs len bdd_eval_complement)
    qed
  next
    case (bdd_node x l h)
    then show ?thesis using bdd_eval_leaf by blast
  qed
qed

text \<open>
  Claim C2, as stated, fails at the empty word.  An MTDFA reads at least one letter before
  it accepts: the empty word belongs neither to the language of the automaton of \<open>G a\<close>
  nor to the language of its complement, which is therefore not the set of all the finite
  words that the automaton refuses.
\<close>

theorem complement_empty_word_counterexample:
  "mtdfa_wf dfa_G_a \<and> \<not> mtdfa_accepts dfa_G_a [] \<and> \<not> mtdfa_accepts (complement dfa_G_a) []"
  by (simp add: mtdfa_wf_def dfa_G_a_def leaf_in_range_def mtdfa_accepts_def)

text \<open>
  Claim C2, amended.  The complement of an MTDFA has as many states as the automaton; the
  root of each state keeps its decision nodes (for a reduced diagram), with the two
  constants swapped and the accepting bit of every terminal flipped; and, for an automaton
  whose terminals denote states, the complement accepts exactly the words of at least one
  letter that the automaton does not accept.  The empty word is in neither language.
\<close>

theorem complement_correct:
  "length (states (complement dfa)) = length (states dfa) \<and>
   (\<forall>i<length (states dfa). bdd_reduced (states dfa ! i) \<longrightarrow>
      states (complement dfa) ! i = bdd_map_leaves flip_leaf (states dfa ! i)) \<and>
   (mtdfa_wf dfa \<longrightarrow>
      mtdfa_accepts (complement dfa) w = (w \<noteq> [] \<and> \<not> mtdfa_accepts dfa w))"
proof (intro conjI allI impI)
  show "length (states (complement dfa)) = length (states dfa)"
    by (simp add: complement_def complement_aux_def)
next
  fix i assume "i < length (states dfa)" "bdd_reduced (states dfa ! i)"
  then show "states (complement dfa) ! i = bdd_map_leaves flip_leaf (states dfa ! i)"
    by (simp add: complement_def complement_aux_def complement_structure)
next
  assume wf: "mtdfa_wf dfa"
  then have len: "0 < length (states dfa)" by (simp add: mtdfa_wf_def)
  show "mtdfa_accepts (complement dfa) w = (w \<noteq> [] \<and> \<not> mtdfa_accepts dfa w)"
  proof (cases "w = []")
    case True
    then show ?thesis by (simp add: mtdfa_accepts_def)
  next
    case False
    then show ?thesis
      unfolding mtdfa_accepts_def using complement_accepts_from [OF wf False len] by simp
  qed
qed

theorem complement_correct_witness:
  "mtdfa_wf dfa_G_a \<and> bdd_reduced (states dfa_G_a ! 0) \<and>
   length (states (complement dfa_G_a)) = 1 \<and>
   states (complement dfa_G_a) ! 0 = bdd_node 0 bddtrue (bdd_terminal 0) \<and>
   mtdfa_accepts dfa_G_a [\<lambda>x. True, \<lambda>x. True] \<and>
   \<not> mtdfa_accepts (complement dfa_G_a) [\<lambda>x. True, \<lambda>x. True]"
proof -
  have wf: "mtdfa_wf dfa_G_a"
    by (simp add: mtdfa_wf_def dfa_G_a_def leaf_in_range_def)
  have red: "bdd_reduced (states dfa_G_a ! 0)"
    by (simp add: dfa_G_a_def)
  have acc: "mtdfa_accepts dfa_G_a [\<lambda>x. True, \<lambda>x. True]"
    by (simp add: mtdfa_accepts_def dfa_G_a_def)
  have ne: "[\<lambda>x::nat. True, \<lambda>x. True] \<noteq> []" by simp
  have len: "0 < length (states dfa_G_a)" by (simp add: dfa_G_a_def)
  note c = complement_correct [of dfa_G_a "[\<lambda>x. True, \<lambda>x. True]"]
  from c have "length (states (complement dfa_G_a)) = 1"
    by (simp add: dfa_G_a_def)
  moreover from c len red have "states (complement dfa_G_a) ! 0 =
      bdd_map_leaves flip_leaf (states dfa_G_a ! 0)" by blast
  then have "states (complement dfa_G_a) ! 0 = bdd_node 0 bddtrue (bdd_terminal 0)"
    by (simp add: dfa_G_a_def)
  moreover from c wf ne acc have "\<not> mtdfa_accepts (complement dfa_G_a) [\<lambda>x. True, \<lambda>x. True]"
    by blast
  ultimately show ?thesis using wf red acc by blast
qed

section \<open>Errors and the apply engine\<close>

text \<open>The failures of the code are values: the exceptions that the sources raise, and
  the reads that the sources guard by an assertion.\<close>

datatype error =
    Unsupported_operator
  | Out_of_range
  | Frozen_state
  | Already_determined
  | Different_dictionaries

text \<open>Modelled from the spec: the Boolean operations of the BDD package on ordinary
  diagrams (the positive and the negative literal of a variable, negation and the binary
  apply).\<close>

definition bdd_ithvar :: "nat \<Rightarrow> bdd" where
  "bdd_ithvar v = bdd_node v bddfalse bddtrue"

definition bdd_nithvar :: "nat \<Rightarrow> bdd" where
  "bdd_nithvar v = bdd_node v bddtrue bddfalse"

fun bdd_of_bool :: "bool \<Rightarrow> bdd" where
  "bdd_of_bool True = bddtrue"
| "bdd_of_bool False = bddfalse"

fun bdd_apply :: "bdd \<Rightarrow> bdd \<Rightarrow> (bool \<Rightarrow> bool \<Rightarrow> bool) \<Rightarrow> bdd" where
  "bdd_apply (bdd_node x l h) (bdd_node y l' h') opr =
     (if x = y then bdd_makenode x (bdd_apply l l' opr) (bdd_apply h h' opr)
      else if x < y then
        bdd_makenode x (bdd_apply l (bdd_node y l' h') opr) (bdd_apply h (bdd_node y l' h') opr)
      else
        bdd_makenode y (bdd_apply (bdd_node x l h) l' opr) (bdd_apply (bdd_node x l h) h' opr))"
| "bdd_apply (bdd_node x l h) r opr =
     bdd_makenode x (bdd_apply l r opr) (bdd_apply h r opr)"
| "bdd_apply l (bdd_node y l' h') opr =
     bdd_makenode y (bdd_apply l l' opr) (bdd_apply l h' opr)"
| "bdd_apply l r opr = bdd_of_bool (opr (l = bddtrue) (r = bddtrue))"

fun bdd_not :: "bdd \<Rightarrow> bdd" where
  "bdd_not (bdd_node x l h) = bdd_makenode x (bdd_not l) (bdd_not h)"
| "bdd_not b = bdd_of_bool (b \<noteq> bddtrue)"

text \<open>Modelled from the spec (4.3 (a), binary apply by terminal callback): the operator
  is used to shortcut when either operand is a Boolean constant (0 and x is 0, 1 or x is
  1, 0 implies x is 1, x implies 1 is 1); otherwise the apply splits on the smallest
  variable, low branch first, and calls the leaf combiner on two leaves.  The callback
  may update a state (the translator, or the table of the pairs of a product) and may
  fail.  The operation cache of the package is not modelled: the callbacks return the
  same leaf when they are called again on the same leaves, so that memoization is not
  observable.\<close>

datatype bddop =
    bddop_and | bddop_or | bddop_imp | bddop_biimp | bddop_xor
  | bddop_and_zero | bddop_or_one | bddop_imp_one | bddop_none

fun apply_shortcut :: "bddop \<Rightarrow> bdd \<Rightarrow> bdd \<Rightarrow> bdd option" where
  "apply_shortcut bddop_and l r = (if l = bddfalse \<or> r = bddfalse then Some bddfalse else None)"
| "apply_shortcut bddop_and_zero l r =
     (if l = bddfalse \<or> r = bddfalse then Some bddfalse else None)"
| "apply_shortcut bddop_or l r = (if l = bddtrue \<or> r = bddtrue then Some bddtrue else None)"
| "apply_shortcut bddop_or_one l r = (if l = bddtrue \<or> r = bddtrue then Some bddtrue else None)"
| "apply_shortcut bddop_imp l r = (if l = bddfalse \<or> r = bddtrue then Some bddtrue else None)"
| "apply_shortcut bddop_imp_one l r =
     (if l = bddfalse \<or> r = bddtrue then Some bddtrue else None)"
| "apply_shortcut opr l r = None"

fun bdd_is_leaf :: "bdd \<Rightarrow> bool" where
  "bdd_is_leaf (bdd_node x l h) = False"
| "bdd_is_leaf b = True"

text \<open>The smallest variable at the top of two diagrams that are not both leaves, and the
  two cofactors of a diagram on a variable that is not below its top.\<close>

fun bdd_top :: "bdd \<Rightarrow> bdd \<Rightarrow> nat" where
  "bdd_top (bdd_node x l h) (bdd_node y l' h') = min x y"
| "bdd_top (bdd_node x l h) r = x"
| "bdd_top l (bdd_node y l' h') = y"
| "bdd_top l r = 0"

fun bdd_low_at :: "nat \<Rightarrow> bdd \<Rightarrow> bdd" where
  "bdd_low_at x (bdd_node y l h) = (if x = y then l else bdd_node y l h)"
| "bdd_low_at x b = b"

fun bdd_high_at :: "nat \<Rightarrow> bdd \<Rightarrow> bdd" where
  "bdd_high_at x (bdd_node y l h) = (if x = y then h else bdd_node y l h)"
| "bdd_high_at x b = b"

lemma bdd_cofactor_size:
  "\<not> (bdd_is_leaf l \<and> bdd_is_leaf r) \<Longrightarrow>
   size (bdd_low_at (bdd_top l r) l) + size (bdd_low_at (bdd_top l r) r) < size l + size r"
  "\<not> (bdd_is_leaf l \<and> bdd_is_leaf r) \<Longrightarrow>
   size (bdd_high_at (bdd_top l r) l) + size (bdd_high_at (bdd_top l r) r) < size l + size r"
  by (cases l; cases r; simp add: min_def)+

function bdd_mt_apply2_leaves ::
  "bdd \<Rightarrow> bdd \<Rightarrow> (bdd \<Rightarrow> bdd \<Rightarrow> 's \<Rightarrow> 'e + bdd \<times> 's) \<Rightarrow> bddop \<Rightarrow> 's \<Rightarrow> 'e + bdd \<times> 's"
where
  "bdd_mt_apply2_leaves l r comb opr s =
     (case apply_shortcut opr l r of
        Some c \<Rightarrow> Inr (c, s)
      | None \<Rightarrow>
         (if bdd_is_leaf l \<and> bdd_is_leaf r then comb l r s
          else
            (case bdd_mt_apply2_leaves (bdd_low_at (bdd_top l r) l) (bdd_low_at (bdd_top l r) r)
                    comb opr s of
               Inl e \<Rightarrow> Inl e
             | Inr (lo, s1) \<Rightarrow>
                (case bdd_mt_apply2_leaves (bdd_high_at (bdd_top l r) l)
                        (bdd_high_at (bdd_top l r) r) comb opr s1 of
                   Inl e \<Rightarrow> Inl e
                 | Inr (hi, s2) \<Rightarrow> Inr (bdd_makenode (bdd_top l r) lo hi, s2)))))"
  by pat_completeness auto
termination
  by (relation "measure (\<lambda>(l, r, comb, opr, s). size l + size r)")
     (auto simp: bdd_cofactor_size)

declare bdd_mt_apply2_leaves.simps [simp del]

text \<open>The unary apply with a callback that updates a state.\<close>

fun bdd_mt_apply1_st ::
  "bdd \<Rightarrow> (int \<Rightarrow> 's \<Rightarrow> 'e + int \<times> 's) \<Rightarrow> bdd \<Rightarrow> bdd \<Rightarrow> 's \<Rightarrow> 'e + bdd \<times> 's"
where
  "bdd_mt_apply1_st bddfalse f rf rt s = Inr (rf, s)"
| "bdd_mt_apply1_st bddtrue f rf rt s = Inr (rt, s)"
| "bdd_mt_apply1_st (bdd_terminal v) f rf rt s =
     (case f v s of Inl e \<Rightarrow> Inl e | Inr (v', s') \<Rightarrow> Inr (bdd_terminal v', s'))"
| "bdd_mt_apply1_st (bdd_node x l h) f rf rt s =
     (case bdd_mt_apply1_st l f rf rt s of
        Inl e \<Rightarrow> Inl e
      | Inr (lo, s1) \<Rightarrow>
         (case bdd_mt_apply1_st h f rf rt s1 of
            Inl e \<Rightarrow> Inl e
          | Inr (hi, s2) \<Rightarrow> Inr (bdd_makenode x lo hi, s2)))"

section \<open>The formula library and the variable dictionary\<close>

text \<open>
  Modelled from the spec: the constructors of the formula library apply trivial
  identities while they build a formula (the library is not part of the sources).  The
  n-ary constructors flatten nested operands of the same operator, drop the neutral
  constant and duplicates, return the absorbing constant if it is an operand, and return
  the operand itself when a single one is left.
\<close>

fun flatten_and :: "formula list \<Rightarrow> formula list" where
  "flatten_and [] = []"
| "flatten_and (And ys # xs) = ys @ flatten_and xs"
| "flatten_and (x # xs) = x # flatten_and xs"

fun flatten_or :: "formula list \<Rightarrow> formula list" where
  "flatten_or [] = []"
| "flatten_or (Or ys # xs) = ys @ flatten_or xs"
| "flatten_or (x # xs) = x # flatten_or xs"

definition formula_And :: "formula list \<Rightarrow> formula" where
  "formula_And xs =
     (let ys = remdups (filter (\<lambda>x. x \<noteq> tt) (flatten_and xs)) in
      if ff \<in> set ys then ff
      else (case ys of [] \<Rightarrow> tt | [x] \<Rightarrow> x | _ \<Rightarrow> And ys))"

definition formula_Or :: "formula list \<Rightarrow> formula" where
  "formula_Or xs =
     (let ys = remdups (filter (\<lambda>x. x \<noteq> ff) (flatten_or xs)) in
      if tt \<in> set ys then tt
      else (case ys of [] \<Rightarrow> ff | [x] \<Rightarrow> x | _ \<Rightarrow> Or ys))"

definition formula_Xor :: "formula \<Rightarrow> formula \<Rightarrow> formula" where
  "formula_Xor a b =
     (if a = b then ff
      else if a = ff then b else if b = ff then a
      else if a = tt then formula_Not b else if b = tt then formula_Not a
      else Xor a b)"

definition formula_Implies :: "formula \<Rightarrow> formula \<Rightarrow> formula" where
  "formula_Implies a b =
     (if a = b then tt
      else if a = tt then b else if a = ff then tt
      else if b = tt then tt else if b = ff then formula_Not a
      else Implies a b)"

definition formula_Equiv :: "formula \<Rightarrow> formula \<Rightarrow> formula" where
  "formula_Equiv a b =
     (if a = b then tt
      else if a = tt then b else if b = tt then a
      else if a = ff then formula_Not b else if b = ff then formula_Not a
      else Equiv a b)"

fun is_boolean :: "formula \<Rightarrow> bool" where
  "is_boolean ff = True"
| "is_boolean tt = True"
| "is_boolean (ap a) = True"
| "is_boolean (Not f) = is_boolean f"
| "is_boolean (Xor f g) = (is_boolean f \<and> is_boolean g)"
| "is_boolean (Implies f g) = (is_boolean f \<and> is_boolean g)"
| "is_boolean (Equiv f g) = (is_boolean f \<and> is_boolean g)"
| "is_boolean (And fs) = list_all is_boolean fs"
| "is_boolean (Or fs) = list_all is_boolean fs"
| "is_boolean f = False"

fun is_leaf :: "formula \<Rightarrow> bool" where
  "is_leaf ff = True"
| "is_leaf tt = True"
| "is_leaf (ap a) = True"
| "is_leaf (Sere eword fs) = True"
| "is_leaf f = False"

text \<open>Modelled from the spec: the dictionary gives every atomic proposition a BDD
  variable of its own, and hands out fresh anonymous variables.\<close>

record bdd_dict =
  var_map :: "formula \<rightharpoonup> nat"
  varnum :: nat

definition register_proposition :: "formula \<Rightarrow> bdd_dict \<Rightarrow> nat \<times> bdd_dict" where
  "register_proposition f d =
     (case var_map d f of
        Some v \<Rightarrow> (v, d)
      | None \<Rightarrow> (varnum d, d\<lparr>var_map := (var_map d)(f \<mapsto> varnum d), varnum := varnum d + 1\<rparr>))"

definition register_anonymous_variables :: "bdd_dict \<Rightarrow> nat \<times> bdd_dict" where
  "register_anonymous_variables d = (varnum d, d\<lparr>varnum := varnum d + 1\<rparr>)"

section \<open>The translator\<close>

text \<open>The state of \<open>ltlf_translator\<close>.  The members, whose names end with an
  underscore in the sources, end with \<open>_m\<close> here.\<close>

record ltlf_translator =
  dict_m :: bdd_dict
  simplify_terms_m :: bool
  int_to_formula_m :: "formula list"
  formula_to_int_m :: "formula \<rightharpoonup> int"
  propositional_equiv_m :: "bdd \<rightharpoonup> formula"
  formula_to_var_m :: "formula \<rightharpoonup> nat"
  formula_to_bdd_m :: "formula \<rightharpoonup> bdd"

definition new_ltlf_translator :: "bdd_dict \<Rightarrow> bool \<Rightarrow> ltlf_translator" where
  "new_ltlf_translator d simplify_terms =
     \<lparr> dict_m = d, simplify_terms_m = simplify_terms, int_to_formula_m = [],
       formula_to_int_m = Map.empty, propositional_equiv_m = Map.empty,
       formula_to_var_m = Map.empty, formula_to_bdd_m = Map.empty \<rparr>"

subsection \<open>Propositional equivalence\<close>

text \<open>\<open>propeq_representative\<close> starts with the light simplifications, which it repeats
  from the label \<open>again\<close> until nothing is removed.  \<open>propeq_again\<close> is this loop: it
  returns the simplified formula, and whether its top-level operator is Boolean (if it is
  not, \<open>propeq_representative\<close> returns the formula at once).\<close>

fun removable_and :: "formula list \<Rightarrow> formula list" where
  "removable_and [] = []"
| "removable_and (M a b # subs) = b # removable_and subs"
| "removable_and (R a b # subs) = b # removable_and subs"
| "removable_and (G a # subs) = a # removable_and subs"
| "removable_and (sub # subs) = removable_and subs"

fun removable_or :: "formula list \<Rightarrow> formula list" where
  "removable_or [] = []"
| "removable_or (U a b # subs) = b # removable_or subs"
| "removable_or (W a b # subs) = b # removable_or subs"
| "removable_or (F a # subs) = a # removable_or subs"
| "removable_or (sub # subs) = removable_or subs"

lemma size_list_filter_le: "size_list f (filter P xs) \<le> size_list f xs"
  by (induction xs) auto

lemma size_list_filter_less:
  "length (filter P xs) \<noteq> length xs \<Longrightarrow> size_list f (filter P xs) < size_list f xs"
proof (induction xs)
  case Nil then show ?case by simp
next
  case (Cons x xs)
  show ?case
  proof (cases "P x")
    case True
    with Cons show ?thesis by simp
  next
    case False
    then show ?thesis using size_list_filter_le [of f P xs] by simp
  qed
qed

lemma size_list_remdups_le: "size_list f (remdups xs) \<le> size_list f xs"
  by (induction xs) auto

lemma size_list_flatten_and: "size_list size (flatten_and xs) \<le> size_list size xs"
  by (induction xs rule: flatten_and.induct) (auto simp: size_list_append)

lemma size_list_flatten_or: "size_list size (flatten_or xs) \<le> size_list size xs"
  by (induction xs rule: flatten_or.induct) (auto simp: size_list_append)

lemma size_formula_And: "size (formula_And xs) \<le> Suc (size_list size xs)"
proof -
  let ?ys = "remdups (filter (\<lambda>x. x \<noteq> tt) (flatten_and xs))"
  have le: "size_list size ?ys \<le> size_list size xs"
    using size_list_remdups_le [of size "filter (\<lambda>x. x \<noteq> tt) (flatten_and xs)"]
      size_list_filter_le [of size "\<lambda>x. x \<noteq> tt" "flatten_and xs"]
      size_list_flatten_and [of xs] by linarith
  show ?thesis
  proof (cases ?ys)
    case Nil
    then show ?thesis by (simp add: formula_And_def)
  next
    case (Cons y ys)
    then show ?thesis using le by (cases ys) (auto simp: formula_And_def Let_def)
  qed
qed

lemma size_formula_Or: "size (formula_Or xs) \<le> Suc (size_list size xs)"
proof -
  let ?ys = "remdups (filter (\<lambda>x. x \<noteq> ff) (flatten_or xs))"
  have le: "size_list size ?ys \<le> size_list size xs"
    using size_list_remdups_le [of size "filter (\<lambda>x. x \<noteq> ff) (flatten_or xs)"]
      size_list_filter_le [of size "\<lambda>x. x \<noteq> ff" "flatten_or xs"]
      size_list_flatten_or [of xs] by linarith
  show ?thesis
  proof (cases ?ys)
    case Nil
    then show ?thesis by (simp add: formula_Or_def)
  next
    case (Cons y ys)
    then show ?thesis using le by (cases ys) (auto simp: formula_Or_def Let_def)
  qed
qed

function propeq_again :: "bool \<Rightarrow> formula \<Rightarrow> formula \<times> bool" where
  "propeq_again st (And subs) =
     (if \<not> st then (And subs, True)
      else if removable_and subs = [] then (And subs, True)
      else if length (filter (\<lambda>sub. sub \<notin> set (removable_and subs)) subs) = length subs
        then (And subs, True)
      else propeq_again st (formula_And (filter (\<lambda>sub. sub \<notin> set (removable_and subs)) subs)))"
| "propeq_again st (Or subs) =
     (if \<not> st then (Or subs, True)
      else if removable_or subs = [] then (Or subs, True)
      else if length (filter (\<lambda>sub. sub \<notin> set (removable_or subs)) subs) = length subs
        then (Or subs, True)
      else propeq_again st (formula_Or (filter (\<lambda>sub. sub \<notin> set (removable_or subs)) subs)))"
| "propeq_again st (Not f) = (Not f, True)"
| "propeq_again st (Xor f g) = (Xor f g, True)"
| "propeq_again st (Implies f g) = (Implies f g, True)"
| "propeq_again st (Equiv f g) = (Equiv f g, True)"
| "propeq_again st ff = (ff, False)"
| "propeq_again st tt = (tt, False)"
| "propeq_again st (ap a) = (ap a, False)"
| "propeq_again st (X f) = (X f, False)"
| "propeq_again st (strong_X f) = (strong_X f, False)"
| "propeq_again st (F f) = (F f, False)"
| "propeq_again st (G f) = (G f, False)"
| "propeq_again st (U f g) = (U f g, False)"
| "propeq_again st (R f g) = (R f g, False)"
| "propeq_again st (W f g) = (W f g, False)"
| "propeq_again st (M f g) = (M f g, False)"
| "propeq_again st (Sere k fs) = (Sere k fs, False)"
  by pat_completeness auto
termination
proof (relation "measure (\<lambda>(st, f). size f)")
  show "wf (measure (\<lambda>(st, f). size f))" by simp
next
  fix st subs
  assume "length (filter (\<lambda>sub. sub \<notin> set (removable_and subs)) subs) \<noteq> length subs"
  then have "size_list size (filter (\<lambda>sub. sub \<notin> set (removable_and subs)) subs)
      < size_list size subs" by (rule size_list_filter_less)
  then show "((st, formula_And (filter (\<lambda>sub. sub \<notin> set (removable_and subs)) subs)),
       st, And subs) \<in> measure (\<lambda>(st, f). size f)"
    using size_formula_And [of "filter (\<lambda>sub. sub \<notin> set (removable_and subs)) subs"] by simp
next
  fix st subs
  assume "length (filter (\<lambda>sub. sub \<notin> set (removable_or subs)) subs) \<noteq> length subs"
  then have "size_list size (filter (\<lambda>sub. sub \<notin> set (removable_or subs)) subs)
      < size_list size subs" by (rule size_list_filter_less)
  then show "((st, formula_Or (filter (\<lambda>sub. sub \<notin> set (removable_or subs)) subs)),
       st, Or subs) \<in> measure (\<lambda>(st, f). size f)"
    using size_formula_Or [of "filter (\<lambda>sub. sub \<notin> set (removable_or subs)) subs"] by simp
qed

text \<open>The encoding of a formula as an ordinary BDD, in which every subformula with a
  non-Boolean operator stands for a variable.\<close>

definition formula_to_bddvar :: "formula \<Rightarrow> ltlf_translator \<Rightarrow> nat \<times> ltlf_translator" where
  "formula_to_bddvar f t =
     (case formula_to_var_m t f of
        Some v \<Rightarrow> (v, t)
      | None \<Rightarrow>
         (case f of
            ap a \<Rightarrow>
              (let (v, d) = register_proposition f (dict_m t)
               in (v, t\<lparr>dict_m := d, formula_to_var_m := (formula_to_var_m t)(f \<mapsto> v)\<rparr>))
          | _ \<Rightarrow>
              (let (v, d) = register_anonymous_variables (dict_m t)
               in (v, t\<lparr>dict_m := d, formula_to_var_m := (formula_to_var_m t)(f \<mapsto> v)\<rparr>))))"

fun encode_rec :: "formula \<Rightarrow> ltlf_translator \<Rightarrow> bdd \<times> ltlf_translator"
  and encode_rec_and :: "formula list \<Rightarrow> bdd \<Rightarrow> ltlf_translator \<Rightarrow> bdd \<times> ltlf_translator"
  and encode_rec_or :: "formula list \<Rightarrow> bdd \<Rightarrow> ltlf_translator \<Rightarrow> bdd \<times> ltlf_translator"
where
  "encode_rec tt t = (bddtrue, t)"
| "encode_rec ff t = (bddfalse, t)"
| "encode_rec (ap a) t = (let (v, t1) = formula_to_bddvar (ap a) t in (bdd_ithvar v, t1))"
| "encode_rec (Not f) t =
     (if is_leaf f then
        (if f = tt then (bddfalse, t)
         else if f = ff then (bddtrue, t)
         else (let (v, t1) = formula_to_bddvar f t in (bdd_nithvar v, t1)))
      else (let (b, t1) = encode_rec f t in (bdd_not b, t1)))"
| "encode_rec (And fs) t = encode_rec_and fs bddtrue t"
| "encode_rec (Or fs) t = encode_rec_or fs bddfalse t"
| "encode_rec (Xor f g) t =
     (let (left, t1) = encode_rec f t; (right, t2) = encode_rec g t1
      in (bdd_apply left right (\<noteq>), t2))"
| "encode_rec (Implies f g) t =
     (let (left, t1) = encode_rec f t; (right, t2) = encode_rec g t1
      in (bdd_apply left right (\<longrightarrow>), t2))"
| "encode_rec (Equiv f g) t =
     (let (left, t1) = encode_rec f t; (right, t2) = encode_rec g t1
      in (bdd_apply left right (=), t2))"
| "encode_rec f t = (let (v, t1) = formula_to_bddvar f t in (bdd_ithvar v, t1))"
| "encode_rec_and [] res t = (res, t)"
| "encode_rec_and (sub # subs) res t =
     (let (b, t1) = encode_rec sub t in encode_rec_and subs (bdd_apply res b (\<and>)) t1)"
| "encode_rec_or [] res t = (res, t)"
| "encode_rec_or (sub # subs) res t =
     (let (b, t1) = encode_rec sub t in encode_rec_or subs (bdd_apply res b (\<or>)) t1)"

definition propeq_representative :: "formula \<Rightarrow> ltlf_translator \<Rightarrow> formula \<times> ltlf_translator" where
  "propeq_representative f0 t =
     (case propeq_again (simplify_terms_m t) f0 of
        (f, False) \<Rightarrow> (f, t)
      | (f, True) \<Rightarrow>
         (let (enc, t1) = encode_rec f t;
              f' = (if enc = bddtrue then tt else if enc = bddfalse then ff else f)
          in (case propositional_equiv_m t1 enc of
                Some g \<Rightarrow> (g, t1)
              | None \<Rightarrow> (f', t1\<lparr>propositional_equiv_m := (propositional_equiv_m t1)(enc \<mapsto> f')\<rparr>))))"

subsection \<open>Interning formulas as terminals\<close>

text \<open>The type \<open>int\<close> of the sources has 32 bits.  The size of a vector that is stored in
  an \<open>int\<close>, and the result of an arithmetic operation on \<open>int\<close>, are wrapped around when
  they do not fit (two's complement).\<close>

definition int32 :: "int \<Rightarrow> int" where
  "int32 k = signed_take_bit 31 k"

text \<open>The division of a terminal value by two is the division of C++, which truncates;
  the assertion on the index is a failure of the model.\<close>

definition terminal_to_formula :: "ltlf_translator \<Rightarrow> int \<Rightarrow> error + formula" where
  "terminal_to_formula t v =
     (let v' = v sdiv 2 in
      if 0 \<le> v' \<and> nat v' < length (int_to_formula_m t) then Inr (int_to_formula_m t ! nat v')
      else Inl Out_of_range)"

definition leaf_to_formula :: "ltlf_translator \<Rightarrow> bdd \<Rightarrow> error + formula \<times> bool" where
  "leaf_to_formula t b =
     (if b = bddfalse then Inr (ff, False)
      else if b = bddtrue then Inr (tt, True)
      else (case terminal_to_formula t (bdd_get_terminal b) of
              Inl e \<Rightarrow> Inl e
            | Inr f \<Rightarrow> Inr (f, bdd_get_terminal b AND 1 \<noteq> 0)))"

definition formula_to_int :: "formula \<Rightarrow> ltlf_translator \<Rightarrow> int \<times> ltlf_translator" where
  "formula_to_int f t =
     (case formula_to_int_m t f of
        Some v \<Rightarrow> (v, t)
      | None \<Rightarrow>
         (let (g, t1) = propeq_representative f t in
          if g \<noteq> f then
            (case formula_to_int_m t1 g of
               None \<Rightarrow>
                 (let v = int32 (int (length (int_to_formula_m t1)))
                  in (v, t1\<lparr>int_to_formula_m := int_to_formula_m t1 @ [g],
                            formula_to_int_m := (formula_to_int_m t1)(g \<mapsto> v, f \<mapsto> v)\<rparr>))
             | Some v \<Rightarrow> (v, t1\<lparr>formula_to_int_m := (formula_to_int_m t1)(f \<mapsto> v)\<rparr>))
          else
            (let v = int32 (int (length (int_to_formula_m t1)))
             in (v, t1\<lparr>int_to_formula_m := int_to_formula_m t1 @ [f],
                       formula_to_int_m := (formula_to_int_m t1)(f \<mapsto> v)\<rparr>))))"

definition formula_to_terminal :: "formula \<Rightarrow> bool \<Rightarrow> ltlf_translator \<Rightarrow> int \<times> ltlf_translator" where
  "formula_to_terminal f maystop t =
     (let (v, t1) = formula_to_int f t in (int32 (v * 2 + (if maystop then 1 else 0)), t1))"

definition formula_to_terminal_bdd_as_int ::
  "formula \<Rightarrow> bool \<Rightarrow> ltlf_translator \<Rightarrow> error + bdd \<times> ltlf_translator" where
  "formula_to_terminal_bdd_as_int f maystop t =
     (if f = ff \<and> \<not> maystop then Inr (bddfalse, t)
      else if f = tt \<and> maystop then Inr (bddtrue, t)
      else
        (let (v, t1) = formula_to_int f t in
         if 0 \<le> v \<and> nat v < length (int_to_formula_m t1) then
           (let f' = int_to_formula_m t1 ! nat v in
            if f' = ff \<and> \<not> maystop then Inr (bddfalse, t1)
            else if f' = tt \<and> maystop then Inr (bddtrue, t1)
            else Inr (bdd_terminal (int32 (v * 2 + (if maystop then 1 else 0))), t1))
         else Inl Out_of_range))"

definition formula_to_terminal_bdd ::
  "formula \<Rightarrow> bool \<Rightarrow> ltlf_translator \<Rightarrow> error + bdd \<times> ltlf_translator" where
  "formula_to_terminal_bdd f maystop t = formula_to_terminal_bdd_as_int f maystop t"

subsection \<open>Combining terminals\<close>

definition term_combine_and :: "bdd \<Rightarrow> bdd \<Rightarrow> ltlf_translator \<Rightarrow> error + bdd \<times> ltlf_translator" where
  "term_combine_and left right t =
     (case leaf_to_formula t left of
        Inl e \<Rightarrow> Inl e
      | Inr (lf, lb) \<Rightarrow>
         (case leaf_to_formula t right of
            Inl e \<Rightarrow> Inl e
          | Inr (rf, rb) \<Rightarrow>
              formula_to_terminal_bdd_as_int (formula_And [lf, rf]) (lb \<and> rb) t))"

definition term_combine_or :: "bdd \<Rightarrow> bdd \<Rightarrow> ltlf_translator \<Rightarrow> error + bdd \<times> ltlf_translator" where
  "term_combine_or left right t =
     (case leaf_to_formula t left of
        Inl e \<Rightarrow> Inl e
      | Inr (lf, lb) \<Rightarrow>
         (case leaf_to_formula t right of
            Inl e \<Rightarrow> Inl e
          | Inr (rf, rb) \<Rightarrow>
              formula_to_terminal_bdd_as_int (formula_Or [lf, rf]) (lb \<or> rb) t))"

definition term_combine_implies ::
  "bdd \<Rightarrow> bdd \<Rightarrow> ltlf_translator \<Rightarrow> error + bdd \<times> ltlf_translator" where
  "term_combine_implies left right t =
     (case leaf_to_formula t left of
        Inl e \<Rightarrow> Inl e
      | Inr (lf, lb) \<Rightarrow>
         (case leaf_to_formula t right of
            Inl e \<Rightarrow> Inl e
          | Inr (rf, rb) \<Rightarrow>
              formula_to_terminal_bdd_as_int (formula_Implies lf rf) (\<not> lb \<or> rb) t))"

definition term_combine_equiv ::
  "bdd \<Rightarrow> bdd \<Rightarrow> ltlf_translator \<Rightarrow> error + bdd \<times> ltlf_translator" where
  "term_combine_equiv left right t =
     (case leaf_to_formula t left of
        Inl e \<Rightarrow> Inl e
      | Inr (lf, lb) \<Rightarrow>
         (case leaf_to_formula t right of
            Inl e \<Rightarrow> Inl e
          | Inr (rf, rb) \<Rightarrow>
              formula_to_terminal_bdd_as_int (formula_Equiv lf rf) (lb = rb) t))"

definition term_combine_xor ::
  "bdd \<Rightarrow> bdd \<Rightarrow> ltlf_translator \<Rightarrow> error + bdd \<times> ltlf_translator" where
  "term_combine_xor left right t =
     (case leaf_to_formula t left of
        Inl e \<Rightarrow> Inl e
      | Inr (lf, lb) \<Rightarrow>
         (case leaf_to_formula t right of
            Inl e \<Rightarrow> Inl e
          | Inr (rf, rb) \<Rightarrow>
              formula_to_terminal_bdd_as_int (formula_Xor lf rf) (lb \<noteq> rb) t))"

definition term_combine_not :: "int \<Rightarrow> ltlf_translator \<Rightarrow> error + int \<times> ltlf_translator" where
  "term_combine_not left t =
     (case terminal_to_formula t left of
        Inl e \<Rightarrow> Inl e
      | Inr ll \<Rightarrow> Inr (formula_to_terminal (formula_Not ll) (\<not> (left AND 1 \<noteq> 0)) t))"

definition combine_and :: "bdd \<Rightarrow> bdd \<Rightarrow> ltlf_translator \<Rightarrow> error + bdd \<times> ltlf_translator" where
  "combine_and left right t = bdd_mt_apply2_leaves left right term_combine_and bddop_and t"

definition combine_or :: "bdd \<Rightarrow> bdd \<Rightarrow> ltlf_translator \<Rightarrow> error + bdd \<times> ltlf_translator" where
  "combine_or left right t = bdd_mt_apply2_leaves left right term_combine_or bddop_or t"

definition combine_implies :: "bdd \<Rightarrow> bdd \<Rightarrow> ltlf_translator \<Rightarrow> error + bdd \<times> ltlf_translator" where
  "combine_implies left right t =
     bdd_mt_apply2_leaves left right term_combine_implies bddop_imp t"

definition combine_equiv :: "bdd \<Rightarrow> bdd \<Rightarrow> ltlf_translator \<Rightarrow> error + bdd \<times> ltlf_translator" where
  "combine_equiv left right t =
     bdd_mt_apply2_leaves left right term_combine_equiv bddop_biimp t"

definition combine_xor :: "bdd \<Rightarrow> bdd \<Rightarrow> ltlf_translator \<Rightarrow> error + bdd \<times> ltlf_translator" where
  "combine_xor left right t = bdd_mt_apply2_leaves left right term_combine_xor bddop_xor t"

definition combine_not :: "bdd \<Rightarrow> ltlf_translator \<Rightarrow> error + bdd \<times> ltlf_translator" where
  "combine_not left t = bdd_mt_apply1_st left term_combine_not bddtrue bddfalse t"

subsection \<open>One step of a formula as an MTBDD\<close>

text \<open>\<open>ltlf_to_mtbdd\<close> returns the cached diagram of a formula if there is one;
  otherwise it computes the diagram by cases on the operator and stores it
  (\<open>ltlf_to_mtbdd_store\<close> is the assignment to the cache at the end of the function).
  The two loops over the operands of a conjunction and of a disjunction are
  \<open>ltlf_to_mtbdd_and\<close> and \<open>ltlf_to_mtbdd_or\<close>.\<close>

definition ltlf_to_mtbdd_store ::
  "formula \<Rightarrow> error + bdd \<times> ltlf_translator \<Rightarrow> error + bdd \<times> ltlf_translator" where
  "ltlf_to_mtbdd_store f r =
     (case r of
        Inl e \<Rightarrow> Inl e
      | Inr (res, t) \<Rightarrow> Inr (res, t\<lparr>formula_to_bdd_m := (formula_to_bdd_m t)(f \<mapsto> res)\<rparr>))"

fun ltlf_to_mtbdd :: "formula \<Rightarrow> ltlf_translator \<Rightarrow> error + bdd \<times> ltlf_translator"
  and ltlf_to_mtbdd_and ::
    "formula list \<Rightarrow> bdd \<Rightarrow> ltlf_translator \<Rightarrow> error + bdd \<times> ltlf_translator"
  and ltlf_to_mtbdd_or ::
    "formula list \<Rightarrow> bdd \<Rightarrow> ltlf_translator \<Rightarrow> error + bdd \<times> ltlf_translator"
where
  "ltlf_to_mtbdd tt t =
     (case formula_to_bdd_m t tt of
        Some b \<Rightarrow> Inr (b, t)
      | None \<Rightarrow> ltlf_to_mtbdd_store tt (Inr (bddtrue, t)))"
| "ltlf_to_mtbdd ff t =
     (case formula_to_bdd_m t ff of
        Some b \<Rightarrow> Inr (b, t)
      | None \<Rightarrow> ltlf_to_mtbdd_store ff (Inr (bddfalse, t)))"
| "ltlf_to_mtbdd (ap a) t =
     (case formula_to_bdd_m t (ap a) of
        Some b \<Rightarrow> Inr (b, t)
      | None \<Rightarrow>
          ltlf_to_mtbdd_store (ap a)
            (let (v, d) = register_proposition (ap a) (dict_m t)
             in Inr (bdd_ithvar v, t\<lparr>dict_m := d\<rparr>)))"
| "ltlf_to_mtbdd (Not f0) t =
     (case formula_to_bdd_m t (Not f0) of
        Some b \<Rightarrow> Inr (b, t)
      | None \<Rightarrow>
          ltlf_to_mtbdd_store (Not f0)
            (case ltlf_to_mtbdd f0 t of
               Inl e \<Rightarrow> Inl e
             | Inr (b, t1) \<Rightarrow>
                 if is_boolean (Not f0) then Inr (bdd_not b, t1) else combine_not b t1))"
| "ltlf_to_mtbdd (Xor f0 f1) t =
     (case formula_to_bdd_m t (Xor f0 f1) of
        Some b \<Rightarrow> Inr (b, t)
      | None \<Rightarrow>
          ltlf_to_mtbdd_store (Xor f0 f1)
            (case ltlf_to_mtbdd f0 t of
               Inl e \<Rightarrow> Inl e
             | Inr (left, t1) \<Rightarrow>
                (case ltlf_to_mtbdd f1 t1 of
                   Inl e \<Rightarrow> Inl e
                 | Inr (right, t2) \<Rightarrow>
                     if is_boolean (Xor f0 f1) then Inr (bdd_apply left right (\<noteq>), t2)
                     else combine_xor left right t2)))"
| "ltlf_to_mtbdd (Implies f0 f1) t =
     (case formula_to_bdd_m t (Implies f0 f1) of
        Some b \<Rightarrow> Inr (b, t)
      | None \<Rightarrow>
          ltlf_to_mtbdd_store (Implies f0 f1)
            (case ltlf_to_mtbdd f0 t of
               Inl e \<Rightarrow> Inl e
             | Inr (left, t1) \<Rightarrow>
                (case ltlf_to_mtbdd f1 t1 of
                   Inl e \<Rightarrow> Inl e
                 | Inr (right, t2) \<Rightarrow>
                     if is_boolean (Implies f0 f1) then Inr (bdd_apply left right (\<longrightarrow>), t2)
                     else combine_implies left right t2)))"
| "ltlf_to_mtbdd (Equiv f0 f1) t =
     (case formula_to_bdd_m t (Equiv f0 f1) of
        Some b \<Rightarrow> Inr (b, t)
      | None \<Rightarrow>
          ltlf_to_mtbdd_store (Equiv f0 f1)
            (case ltlf_to_mtbdd f0 t of
               Inl e \<Rightarrow> Inl e
             | Inr (left, t1) \<Rightarrow>
                (case ltlf_to_mtbdd f1 t1 of
                   Inl e \<Rightarrow> Inl e
                 | Inr (right, t2) \<Rightarrow>
                     if is_boolean (Equiv f0 f1) then Inr (bdd_apply left right (=), t2)
                     else combine_equiv left right t2)))"
| "ltlf_to_mtbdd (Sere k fs) t =
     (case formula_to_bdd_m t (Sere k fs) of
        Some b \<Rightarrow> Inr (b, t)
      | None \<Rightarrow> Inl Unsupported_operator)"
| "ltlf_to_mtbdd (And fs) t =
     (case formula_to_bdd_m t (And fs) of
        Some b \<Rightarrow> Inr (b, t)
      | None \<Rightarrow>
          ltlf_to_mtbdd_store (And fs)
            (case fs of
               [] \<Rightarrow> Inl Out_of_range
             | f0 # rest \<Rightarrow>
                (case ltlf_to_mtbdd f0 t of
                   Inl e \<Rightarrow> Inl e
                 | Inr (res, t1) \<Rightarrow> ltlf_to_mtbdd_and rest res t1)))"
| "ltlf_to_mtbdd (Or fs) t =
     (case formula_to_bdd_m t (Or fs) of
        Some b \<Rightarrow> Inr (b, t)
      | None \<Rightarrow>
          ltlf_to_mtbdd_store (Or fs)
            (case fs of
               [] \<Rightarrow> Inl Out_of_range
             | f0 # rest \<Rightarrow>
                (case ltlf_to_mtbdd f0 t of
                   Inl e \<Rightarrow> Inl e
                 | Inr (res, t1) \<Rightarrow> ltlf_to_mtbdd_or rest res t1)))"
| "ltlf_to_mtbdd (X f0) t =
     (case formula_to_bdd_m t (X f0) of
        Some b \<Rightarrow> Inr (b, t)
      | None \<Rightarrow> ltlf_to_mtbdd_store (X f0) (formula_to_terminal_bdd f0 True t))"
| "ltlf_to_mtbdd (strong_X f0) t =
     (case formula_to_bdd_m t (strong_X f0) of
        Some b \<Rightarrow> Inr (b, t)
      | None \<Rightarrow> ltlf_to_mtbdd_store (strong_X f0) (formula_to_terminal_bdd f0 False t))"
| "ltlf_to_mtbdd (U g h) t =
     (case formula_to_bdd_m t (U g h) of
        Some b \<Rightarrow> Inr (b, t)
      | None \<Rightarrow>
          ltlf_to_mtbdd_store (U g h)
            (case ltlf_to_mtbdd g t of
               Inl e \<Rightarrow> Inl e
             | Inr (f0, t1) \<Rightarrow>
                (case ltlf_to_mtbdd h t1 of
                   Inl e \<Rightarrow> Inl e
                 | Inr (f1, t2) \<Rightarrow>
                    (case formula_to_terminal_bdd (U g h) False t2 of
                       Inl e \<Rightarrow> Inl e
                     | Inr (term, t3) \<Rightarrow>
                        (case combine_and f0 term t3 of
                           Inl e \<Rightarrow> Inl e
                         | Inr (c, t4) \<Rightarrow> combine_or f1 c t4)))))"
| "ltlf_to_mtbdd (W g h) t =
     (case formula_to_bdd_m t (W g h) of
        Some b \<Rightarrow> Inr (b, t)
      | None \<Rightarrow>
          ltlf_to_mtbdd_store (W g h)
            (case ltlf_to_mtbdd g t of
               Inl e \<Rightarrow> Inl e
             | Inr (f0, t1) \<Rightarrow>
                (case ltlf_to_mtbdd h t1 of
                   Inl e \<Rightarrow> Inl e
                 | Inr (f1, t2) \<Rightarrow>
                    (case formula_to_terminal_bdd (W g h) True t2 of
                       Inl e \<Rightarrow> Inl e
                     | Inr (term, t3) \<Rightarrow>
                        (case combine_and f0 term t3 of
                           Inl e \<Rightarrow> Inl e
                         | Inr (c, t4) \<Rightarrow> combine_or f1 c t4)))))"
| "ltlf_to_mtbdd (R g h) t =
     (case formula_to_bdd_m t (R g h) of
        Some b \<Rightarrow> Inr (b, t)
      | None \<Rightarrow>
          ltlf_to_mtbdd_store (R g h)
            (case ltlf_to_mtbdd g t of
               Inl e \<Rightarrow> Inl e
             | Inr (f0, t1) \<Rightarrow>
                (case ltlf_to_mtbdd h t1 of
                   Inl e \<Rightarrow> Inl e
                 | Inr (f1, t2) \<Rightarrow>
                    (case formula_to_terminal_bdd (R g h) True t2 of
                       Inl e \<Rightarrow> Inl e
                     | Inr (term, t3) \<Rightarrow>
                        (case combine_or f0 term t3 of
                           Inl e \<Rightarrow> Inl e
                         | Inr (c, t4) \<Rightarrow> combine_and f1 c t4)))))"
| "ltlf_to_mtbdd (M g h) t =
     (case formula_to_bdd_m t (M g h) of
        Some b \<Rightarrow> Inr (b, t)
      | None \<Rightarrow>
          ltlf_to_mtbdd_store (M g h)
            (case ltlf_to_mtbdd g t of
               Inl e \<Rightarrow> Inl e
             | Inr (f0, t1) \<Rightarrow>
                (case ltlf_to_mtbdd h t1 of
                   Inl e \<Rightarrow> Inl e
                 | Inr (f1, t2) \<Rightarrow>
                    (case formula_to_terminal_bdd (M g h) False t2 of
                       Inl e \<Rightarrow> Inl e
                     | Inr (term, t3) \<Rightarrow>
                        (case combine_or f0 term t3 of
                           Inl e \<Rightarrow> Inl e
                         | Inr (c, t4) \<Rightarrow> combine_and f1 c t4)))))"
| "ltlf_to_mtbdd (G f0) t =
     (case formula_to_bdd_m t (G f0) of
        Some b \<Rightarrow> Inr (b, t)
      | None \<Rightarrow>
          ltlf_to_mtbdd_store (G f0)
            (case formula_to_terminal_bdd (G f0) True t of
               Inl e \<Rightarrow> Inl e
             | Inr (term, t1) \<Rightarrow>
                (case ltlf_to_mtbdd f0 t1 of
                   Inl e \<Rightarrow> Inl e
                 | Inr (b, t2) \<Rightarrow> combine_and b term t2)))"
| "ltlf_to_mtbdd (F f0) t =
     (case formula_to_bdd_m t (F f0) of
        Some b \<Rightarrow> Inr (b, t)
      | None \<Rightarrow>
          ltlf_to_mtbdd_store (F f0)
            (case formula_to_terminal_bdd (F f0) False t of
               Inl e \<Rightarrow> Inl e
             | Inr (term, t1) \<Rightarrow>
                (case ltlf_to_mtbdd f0 t1 of
                   Inl e \<Rightarrow> Inl e
                 | Inr (b, t2) \<Rightarrow> combine_or b term t2)))"
| "ltlf_to_mtbdd_and [] res t = Inr (res, t)"
| "ltlf_to_mtbdd_and (sub # subs) res t =
     (case ltlf_to_mtbdd sub t of
        Inl e \<Rightarrow> Inl e
      | Inr (b, t1) \<Rightarrow>
         (case combine_and res b t1 of
            Inl e \<Rightarrow> Inl e
          | Inr (res', t2) \<Rightarrow> ltlf_to_mtbdd_and subs res' t2))"
| "ltlf_to_mtbdd_or [] res t = Inr (res, t)"
| "ltlf_to_mtbdd_or (sub # subs) res t =
     (case ltlf_to_mtbdd sub t of
        Inl e \<Rightarrow> Inl e
      | Inr (b, t1) \<Rightarrow>
         (case combine_or res b t1 of
            Inl e \<Rightarrow> Inl e
          | Inr (res', t2) \<Rightarrow> ltlf_to_mtbdd_or subs res' t2))"

section \<open>The registry of formulas\<close>

text \<open>The operators that \<open>propeq_representative\<close> canonicalizes.\<close>

fun has_boolean_top :: "formula \<Rightarrow> bool" where
  "has_boolean_top (And fs) = True"
| "has_boolean_top (Or fs) = True"
| "has_boolean_top (Not f) = True"
| "has_boolean_top (Xor f g) = True"
| "has_boolean_top (Implies f g) = True"
| "has_boolean_top (Equiv f g) = True"
| "has_boolean_top f = False"

text \<open>The invariant of the two tables of the registry: an interned formula has an
  identifier below the size of the vector of formulas; the vector holds the formula
  itself when its operator is not Boolean; and every formula of the vector is interned
  under its own index.\<close>

definition registry_wf :: "ltlf_translator \<Rightarrow> bool" where
  "registry_wf t =
     ((\<forall>f v. formula_to_int_m t f = Some v \<longrightarrow>
         0 \<le> v \<and> nat v < length (int_to_formula_m t) \<and>
         (\<not> has_boolean_top f \<longrightarrow> int_to_formula_m t ! nat v = f)) \<and>
      (\<forall>i<length (int_to_formula_m t).
         formula_to_int_m t (int_to_formula_m t ! i) = Some (int i)))"

text \<open>The identifiers are values of type \<open>int\<close> and the terminal of an identifier
  \<open>n\<close> is \<open>2 n\<close> or \<open>2 n + 1\<close>: nothing wraps around as long as the registry holds at most
  \<open>2 ^ 30\<close> formulas.  \<open>registry_inv\<close> is the invariant of a registry within this bound.\<close>

definition registry_bounded :: "ltlf_translator \<Rightarrow> bool" where
  "registry_bounded t = (length (int_to_formula_m t) \<le> 2 ^ 30)"

definition registry_inv :: "ltlf_translator \<Rightarrow> bool" where
  "registry_inv t = (registry_bounded t \<longrightarrow> registry_wf t)"

definition same_registry :: "ltlf_translator \<Rightarrow> ltlf_translator \<Rightarrow> bool" where
  "same_registry t t' =
     (int_to_formula_m t' = int_to_formula_m t \<and> formula_to_int_m t' = formula_to_int_m t \<and>
      simplify_terms_m t' = simplify_terms_m t \<and> formula_to_bdd_m t' = formula_to_bdd_m t)"

lemma same_registry_refl [simp]: "same_registry t t"
  by (simp add: same_registry_def)

lemma same_registry_trans: "same_registry t t1 \<Longrightarrow> same_registry t1 t2 \<Longrightarrow> same_registry t t2"
  by (simp add: same_registry_def)

lemma formula_to_bddvar_registry: "same_registry t (snd (formula_to_bddvar f t))"
  by (auto simp: formula_to_bddvar_def same_registry_def split: option.splits formula.splits prod.splits)

lemma formula_to_bddvar_registryD:
  "formula_to_bddvar f t = (v, t') \<Longrightarrow> same_registry t t'"
  using formula_to_bddvar_registry [of t f] by simp

lemma encode_rec_registry:
  "same_registry t (snd (encode_rec f t))"
  "same_registry t (snd (encode_rec_and fs b t))"
  "same_registry t (snd (encode_rec_or fs b t))"
  by (induction f t and fs b t and fs b t rule: encode_rec_encode_rec_and_encode_rec_or.induct)
     (auto split: prod.splits dest!: formula_to_bddvar_registryD intro: same_registry_trans)

lemma encode_rec_registryD: "encode_rec f t = (b, t') \<Longrightarrow> same_registry t t'"
  using encode_rec_registry(1) [of t f] by simp

lemma propeq_representative_registry:
  "propeq_representative f t = (g, t') \<Longrightarrow> same_registry t t'"
  unfolding propeq_representative_def
  by (auto split: prod.splits bool.splits option.splits dest!: encode_rec_registryD
           simp: same_registry_def Let_def)

lemma propeq_no_boolean_top:
  "\<not> has_boolean_top f \<Longrightarrow> propeq_representative f t = (f, t)"
  by (cases f) (simp_all add: propeq_representative_def)

lemma registry_wfD1:
  "registry_wf t \<Longrightarrow> formula_to_int_m t f = Some v \<Longrightarrow>
   0 \<le> v \<and> nat v < length (int_to_formula_m t) \<and>
   (\<not> has_boolean_top f \<longrightarrow> int_to_formula_m t ! nat v = f)"
  unfolding registry_wf_def by blast

lemma registry_wfD2:
  "registry_wf t \<Longrightarrow> i < length (int_to_formula_m t) \<Longrightarrow>
   formula_to_int_m t (int_to_formula_m t ! i) = Some (int i)"
  unfolding registry_wf_def by blast

lemma registry_wf_push:
  assumes wf: "registry_wf t"
    and i2f: "int_to_formula_m t' = int_to_formula_m t @ [g]"
    and f2i: "formula_to_int_m t' = (formula_to_int_m t)(g \<mapsto> int (length (int_to_formula_m t)),
                 f \<mapsto> int (length (int_to_formula_m t)))"
    and gnew: "formula_to_int_m t g = None" and fnew: "formula_to_int_m t f = None"
    and gf: "\<not> has_boolean_top f \<Longrightarrow> g = f"
  shows "registry_wf t'"
proof -
  have A: "0 \<le> v \<and> nat v < length (int_to_formula_m t') \<and>
      (\<not> has_boolean_top h \<longrightarrow> int_to_formula_m t' ! nat v = h)"
    if h: "formula_to_int_m t' h = Some v" for h v
  proof (cases "h = f \<or> h = g")
    case True
    then have "v = int (length (int_to_formula_m t))" using h f2i by (auto split: if_splits)
    then show ?thesis using True i2f gf by auto
  next
    case False
    then have "formula_to_int_m t h = Some v" using h f2i by auto
    from registry_wfD1 [OF wf this] show ?thesis using i2f by (auto simp: nth_append)
  qed
  have B: "formula_to_int_m t' (int_to_formula_m t' ! i) = Some (int i)"
    if i: "i < length (int_to_formula_m t')" for i
  proof (cases "i < length (int_to_formula_m t)")
    case True
    from registry_wfD2 [OF wf True] have old: "formula_to_int_m t (int_to_formula_m t ! i) = Some (int i)" .
    then have "int_to_formula_m t ! i \<noteq> g" "int_to_formula_m t ! i \<noteq> f" using gnew fnew by auto
    then show ?thesis using old True i2f f2i by (simp add: nth_append)
  next
    case False
    then have "i = length (int_to_formula_m t)" using i i2f by simp
    then show ?thesis using i2f f2i fnew gnew by (auto simp: nth_append)
  qed
  show ?thesis unfolding registry_wf_def using A B by blast
qed

lemma registry_wf_alias:
  assumes wf: "registry_wf t"
    and i2f: "int_to_formula_m t' = int_to_formula_m t"
    and f2i: "formula_to_int_m t' = (formula_to_int_m t)(f \<mapsto> w)"
    and g: "formula_to_int_m t g = Some w" and fnew: "formula_to_int_m t f = None"
    and gf: "has_boolean_top f"
  shows "registry_wf t'"
proof -
  have A: "0 \<le> v \<and> nat v < length (int_to_formula_m t') \<and>
      (\<not> has_boolean_top h \<longrightarrow> int_to_formula_m t' ! nat v = h)"
    if h: "formula_to_int_m t' h = Some v" for h v
  proof (cases "h = f")
    case True
    then have "v = w" using h f2i by auto
    then show ?thesis using True i2f gf registry_wfD1 [OF wf g] by auto
  next
    case False
    then have "formula_to_int_m t h = Some v" using h f2i by auto
    from registry_wfD1 [OF wf this] show ?thesis using i2f by auto
  qed
  have B: "formula_to_int_m t' (int_to_formula_m t' ! i) = Some (int i)"
    if i: "i < length (int_to_formula_m t')" for i
  proof -
    have old: "formula_to_int_m t (int_to_formula_m t ! i) = Some (int i)"
      using registry_wfD2 [OF wf] i2f i by simp
    then have "int_to_formula_m t ! i \<noteq> f" using fnew by auto
    then show ?thesis using old i2f f2i by simp
  qed
  show ?thesis unfolding registry_wf_def using A B by blast
qed

lemma int32_id: "- (2 ^ 31) \<le> k \<Longrightarrow> k < 2 ^ 31 \<Longrightarrow> int32 k = k"
  unfolding int32_def by (rule signed_take_bit_int_eq_self) simp_all

lemma int32_size: "n < 2 ^ 30 \<Longrightarrow> int32 (int n) = int n"
  by (rule int32_id) simp_all

lemma int32_terminal:
  "0 \<le> v \<Longrightarrow> v < 2 ^ 30 \<Longrightarrow> int32 (v * 2 + (if b then 1 else 0)) = v * 2 + (if b then 1 else 0)"
  by (rule int32_id) (simp_all split: if_splits)

lemma formula_to_int_interned:
  "formula_to_int f t = (v, t') \<Longrightarrow> formula_to_int_m t' f = Some v"
  by (auto simp: formula_to_int_def Let_def split: option.splits prod.splits if_splits)

lemma formula_to_int_length:
  assumes "formula_to_int f t = (v, t')"
  shows "length (int_to_formula_m t) \<le> length (int_to_formula_m t')"
proof -
  obtain g t1 where pr: "propeq_representative f t = (g, t1)" by (cases "propeq_representative f t")
  then have "same_registry t t1" by (rule propeq_representative_registry)
  then have "int_to_formula_m t1 = int_to_formula_m t" by (simp add: same_registry_def)
  with assms pr show ?thesis
    by (auto simp: formula_to_int_def Let_def split: option.splits if_splits)
qed

lemma formula_to_int_wf_bounded:
  assumes wf: "registry_wf t" and r: "formula_to_int f t = (v, t')"
    and bd: "registry_bounded t'"
  shows "registry_wf t' \<and> formula_to_int_m t' f = Some v"
proof (cases "formula_to_int_m t f")
  case (Some w)
  with r wf show ?thesis by (simp add: formula_to_int_def)
next
  case None
  obtain g t1 where pr: "propeq_representative f t = (g, t1)" by (cases "propeq_representative f t")
  then have sr: "same_registry t t1" by (rule propeq_representative_registry)
  then have i2f: "int_to_formula_m t1 = int_to_formula_m t"
    and f2i: "formula_to_int_m t1 = formula_to_int_m t" by (simp_all add: same_registry_def)
  have gf: "\<not> has_boolean_top f \<Longrightarrow> g = f" using pr propeq_no_boolean_top [of f t] by simp
  let ?n = "length (int_to_formula_m t)"
  show ?thesis
  proof (cases "g = f")
    case True
    with r None pr i2f f2i have t': "t' = t1\<lparr>int_to_formula_m := int_to_formula_m t @ [f],
        formula_to_int_m := (formula_to_int_m t)(f \<mapsto> int32 (int ?n))\<rparr>" and v: "v = int32 (int ?n)"
      by (auto simp: formula_to_int_def Let_def)
    from bd have "?n < 2 ^ 30" by (simp add: t' registry_bounded_def)
    then have n: "int32 (int ?n) = int ?n" by (rule int32_size)
    have "registry_wf t'"
      by (rule registry_wf_push [OF wf, where g = f and f = f]) (simp_all add: t' None n)
    then show ?thesis by (simp add: t' v)
  next
    case False
    show ?thesis
    proof (cases "formula_to_int_m t g")
      case gNone: None
      with r None pr i2f f2i False have t': "t' = t1\<lparr>int_to_formula_m := int_to_formula_m t @ [g],
          formula_to_int_m := (formula_to_int_m t)(g \<mapsto> int32 (int ?n), f \<mapsto> int32 (int ?n))\<rparr>"
        and v: "v = int32 (int ?n)"
        by (auto simp: formula_to_int_def Let_def)
      from bd have "?n < 2 ^ 30" by (simp add: t' registry_bounded_def)
      then have n: "int32 (int ?n) = int ?n" by (rule int32_size)
      have "registry_wf t'"
        by (rule registry_wf_push [OF wf, where g = g and f = f]) (simp_all add: t' None gNone gf n)
      then show ?thesis by (simp add: t' v)
    next
      case (Some w)
      with r None pr i2f f2i False have t': "t' = t1\<lparr>formula_to_int_m := (formula_to_int_m t)(f \<mapsto> w)\<rparr>"
        and v: "v = w"
        by (auto simp: formula_to_int_def Let_def)
      have "has_boolean_top f" using gf False by blast
      then have "registry_wf t'"
        by (intro registry_wf_alias [OF wf, where g = g and f = f and w = w]) (simp_all add: t' None Some i2f)
      then show ?thesis by (simp add: t' v)
    qed
  qed
qed

lemma registry_inv_wf: "registry_inv t \<Longrightarrow> registry_bounded t \<Longrightarrow> registry_wf t"
  by (simp add: registry_inv_def)

lemma registry_bounded_mono:
  "length (int_to_formula_m t) \<le> length (int_to_formula_m t') \<Longrightarrow> registry_bounded t' \<Longrightarrow>
   registry_bounded t"
  by (simp add: registry_bounded_def)

lemma formula_to_int_wf:
  assumes inv: "registry_inv t" and r: "formula_to_int f t = (v, t')"
  shows "registry_inv t'"
  unfolding registry_inv_def
proof
  assume bd: "registry_bounded t'"
  from registry_bounded_mono [OF formula_to_int_length [OF r] bd] inv
  have "registry_wf t" by (simp add: registry_inv_def)
  from formula_to_int_wf_bounded [OF this r bd] show "registry_wf t'" by simp
qed


section \<open>The terminal of a formula and back\<close>

text \<open>A translator that has interned nothing yet, and the formula \<open>a \<and> G a\<close>.\<close>

definition translator0 :: ltlf_translator where
  "translator0 = new_ltlf_translator \<lparr>var_map = Map.empty, varnum = 0\<rparr> True"

definition formula_a_and_Ga :: formula where
  "formula_a_and_Ga = And [ap ''a'', G (ap ''a'')]"

lemma sdiv2_nonneg: "0 \<le> (x::int) \<Longrightarrow> x sdiv 2 = x div 2"
  by (simp add: signed_divide_int_def sgn_if)

lemma registry_wf_new: "registry_wf (new_ltlf_translator d s)"
  by (simp add: registry_wf_def new_ltlf_translator_def)

lemma formula_to_int_length_upper:
  assumes "formula_to_int f t = (v, t')"
  shows "length (int_to_formula_m t') \<le> Suc (length (int_to_formula_m t))"
proof -
  obtain g t1 where pr: "propeq_representative f t = (g, t1)" by (cases "propeq_representative f t")
  then have "same_registry t t1" by (rule propeq_representative_registry)
  then have "int_to_formula_m t1 = int_to_formula_m t" by (simp add: same_registry_def)
  with assms pr show ?thesis
    by (auto simp: formula_to_int_def Let_def split: option.splits if_splits)
qed

text \<open>The formula that the registry holds for the identifier of \<open>f\<close> once \<open>f\<close> is
  interned: the formula it held already if \<open>f\<close> was interned; otherwise the representative
  of \<open>f\<close>, or the formula held for the identifier of this representative if the
  representative was interned.\<close>

lemma formula_to_int_stored:
  assumes wf: "registry_wf t" and bd: "length (int_to_formula_m t) < 2 ^ 30"
    and r: "formula_to_int f t = (v, t')"
  shows "int_to_formula_m t' ! nat v =
     (case formula_to_int_m t f of
        Some i \<Rightarrow> int_to_formula_m t ! nat i
      | None \<Rightarrow>
         (case formula_to_int_m t (fst (propeq_representative f t)) of
            None \<Rightarrow> fst (propeq_representative f t)
          | Some w \<Rightarrow> int_to_formula_m t ! nat w))"
proof (cases "formula_to_int_m t f")
  case (Some w)
  with r show ?thesis by (simp add: formula_to_int_def)
next
  case None
  obtain g t1 where pr: "propeq_representative f t = (g, t1)" by (cases "propeq_representative f t")
  then have sr: "same_registry t t1" by (rule propeq_representative_registry)
  then have i2f: "int_to_formula_m t1 = int_to_formula_m t"
    and f2i: "formula_to_int_m t1 = formula_to_int_m t" by (simp_all add: same_registry_def)
  let ?n = "length (int_to_formula_m t)"
  from bd have n: "int32 (int ?n) = int ?n" by (rule int32_size)
  show ?thesis
  proof (cases "g = f")
    case True
    with r None pr i2f f2i have "int_to_formula_m t' = int_to_formula_m t @ [f]" "v = int32 (int ?n)"
      by (auto simp: formula_to_int_def Let_def)
    with None pr True n show ?thesis by simp
  next
    case False
    show ?thesis
    proof (cases "formula_to_int_m t g")
      case gNone: None
      with r None pr i2f f2i False have "int_to_formula_m t' = int_to_formula_m t @ [g]"
        "v = int32 (int ?n)"
        by (auto simp: formula_to_int_def Let_def)
      with None pr gNone n show ?thesis by simp
    next
      case (Some w)
      with r None pr i2f f2i False have "int_to_formula_m t' = int_to_formula_m t" "v = w"
        by (auto simp: formula_to_int_def Let_def)
      with None pr Some show ?thesis by simp
    qed
  qed
qed

text \<open>
  Claim C4, as stated, fails.  A translator with term simplification interns
  \<open>a \<and> G a\<close> under the identifier of its representative \<open>G a\<close>, and
  \<open>terminal_to_formula\<close> returns \<open>G a\<close>, not the formula that was interned.
\<close>

theorem terminal_to_formula_counterexample:
  "terminal_to_formula (snd (formula_to_terminal formula_a_and_Ga True translator0))
     (fst (formula_to_terminal formula_a_and_Ga True translator0)) = Inr (G (ap ''a'')) \<and>
   Inr (G (ap ''a'')) \<noteq> (Inr formula_a_and_Ga :: error + formula)"
  by (simp add: formula_a_and_Ga_def translator0_def new_ltlf_translator_def
      formula_to_terminal_def formula_to_int_def propeq_representative_def formula_And_def
      terminal_to_formula_def Let_def signed_divide_int_def int32_def)

text \<open>
  Claim C4, amended.  In a registry that satisfies its invariant and holds fewer than
  \<open>2 ^ 30\<close> formulas, after \<open>v = formula_to_terminal(f, b)\<close> the value \<open>v\<close> is \<open>2 id + b\<close>
  for the identifier \<open>id\<close> that \<open>f\<close> is interned under, and \<open>terminal_to_formula(v)\<close>
  returns the formula that the registry holds for \<open>id\<close>.  If \<open>f\<close> was interned before the
  call, this is the formula that the registry held for it.  Otherwise it is the
  representative \<open>g\<close> that \<open>propeq_representative\<close> gives for \<open>f\<close> (or the formula held for
  the identifier of \<open>g\<close>, if \<open>g\<close> was interned before the call).  So \<open>f\<close> itself comes back
  when its top-level operator is not Boolean, and when \<open>f\<close> is new and is its own
  representative.  In every case the formula that comes back is interned under \<open>id\<close>:
  \<open>formula_to_terminal\<close> maps it to \<open>v\<close> again and leaves the registry as it is.
\<close>

theorem formula_to_terminal_roundtrip:
  assumes wf: "registry_wf t" and bd: "length (int_to_formula_m t) < 2 ^ 30"
    and r: "formula_to_terminal f b t = (v, t')"
  shows "\<exists>id. formula_to_int f t = (id, t') \<and> v = id * 2 + (if b then 1 else 0) \<and>
     registry_wf t' \<and>
     formula_to_int_m t' f = Some id \<and>
     terminal_to_formula t' v =
       Inr (case formula_to_int_m t f of
              Some i \<Rightarrow> int_to_formula_m t ! nat i
            | None \<Rightarrow>
               (case formula_to_int_m t (fst (propeq_representative f t)) of
                  None \<Rightarrow> fst (propeq_representative f t)
                | Some w \<Rightarrow> int_to_formula_m t ! nat w)) \<and>
     (\<not> has_boolean_top f \<longrightarrow> terminal_to_formula t' v = Inr f) \<and>
     (formula_to_int_m t f = None \<and> fst (propeq_representative f t) = f \<longrightarrow>
        terminal_to_formula t' v = Inr f) \<and>
     (\<exists>g. terminal_to_formula t' v = Inr g \<and> formula_to_int_m t' g = Some id \<and>
          formula_to_terminal g b t' = (v, t'))"
proof -
  obtain id where fi: "formula_to_int f t = (id, t')"
    and v0: "v = int32 (id * 2 + (if b then 1 else 0))"
    using r by (auto simp: formula_to_terminal_def split: prod.splits)
  from formula_to_int_length_upper [OF fi] bd have bd': "registry_bounded t'"
    by (simp add: registry_bounded_def)
  from formula_to_int_wf_bounded [OF wf fi bd'] have wf': "registry_wf t'"
    and f2i: "formula_to_int_m t' f = Some id" by simp_all
  from registry_wfD1 [OF wf' f2i] have id0: "0 \<le> id" and idn: "nat id < length (int_to_formula_m t')"
    and self: "\<not> has_boolean_top f \<longrightarrow> int_to_formula_m t' ! nat id = f" by simp_all
  from idn bd' id0 have id30: "id < 2 ^ 30" by (simp add: registry_bounded_def)
  have v: "v = id * 2 + (if b then 1 else 0)"
    unfolding v0 by (rule int32_terminal [OF id0 id30])
  let ?g = "int_to_formula_m t' ! nat id"
  have half: "v sdiv 2 = id" using id0 v by (simp add: sdiv2_nonneg)
  have t2f: "terminal_to_formula t' v = Inr ?g"
    using id0 idn half by (simp add: terminal_to_formula_def)
  note st = formula_to_int_stored [OF wf bd fi]
  have g2i: "formula_to_int_m t' ?g = Some id"
    using registry_wfD2 [OF wf' idn] id0 by simp
  then have "formula_to_int ?g t' = (id, t')" by (simp add: formula_to_int_def)
  then have rt: "formula_to_terminal ?g b t' = (v, t')"
    by (simp add: formula_to_terminal_def v0)
  have a: "terminal_to_formula t' v =
       Inr (case formula_to_int_m t f of
              Some i \<Rightarrow> int_to_formula_m t ! nat i
            | None \<Rightarrow>
               (case formula_to_int_m t (fst (propeq_representative f t)) of
                  None \<Rightarrow> fst (propeq_representative f t)
                | Some w \<Rightarrow> int_to_formula_m t ! nat w))"
    using t2f st by simp
  have b: "\<not> has_boolean_top f \<longrightarrow> terminal_to_formula t' v = Inr f"
    using t2f self by simp
  have c: "formula_to_int_m t f = None \<and> fst (propeq_representative f t) = f \<longrightarrow>
        terminal_to_formula t' v = Inr f"
    using a by auto
  have d: "\<exists>g. terminal_to_formula t' v = Inr g \<and> formula_to_int_m t' g = Some id \<and>
          formula_to_terminal g b t' = (v, t')"
    using t2f g2i rt by blast
  show ?thesis using fi v wf' f2i a b c d by blast
qed

definition formula_a_or_b :: formula where
  "formula_a_or_b = Or [ap ''a'', ap ''b'']"

theorem formula_to_terminal_roundtrip_witness:
  "registry_wf translator0 \<and> length (int_to_formula_m translator0) < 2 ^ 30 \<and>
   formula_to_int_m translator0 formula_a_and_Ga = None \<and>
   fst (propeq_representative formula_a_and_Ga translator0) = G (ap ''a'') \<and>
   terminal_to_formula (snd (formula_to_terminal formula_a_and_Ga True translator0))
     (fst (formula_to_terminal formula_a_and_Ga True translator0)) = Inr (G (ap ''a'')) \<and>
   formula_to_int_m translator0 formula_a_or_b = None \<and>
   fst (propeq_representative formula_a_or_b translator0) = formula_a_or_b \<and>
   terminal_to_formula (snd (formula_to_terminal formula_a_or_b False translator0))
     (fst (formula_to_terminal formula_a_or_b False translator0)) = Inr formula_a_or_b"
proof -
  have wf: "registry_wf translator0" by (simp add: translator0_def registry_wf_new)
  have bd: "length (int_to_formula_m translator0) < 2 ^ 30"
    by (simp add: translator0_def new_ltlf_translator_def)
  have n1: "formula_to_int_m translator0 formula_a_and_Ga = None"
    and n2: "formula_to_int_m translator0 formula_a_or_b = None"
    and n3: "formula_to_int_m translator0 (G (ap ''a'')) = None"
    by (simp_all add: translator0_def new_ltlf_translator_def)
  have p1: "fst (propeq_representative formula_a_and_Ga translator0) = G (ap ''a'')"
    by (simp add: formula_a_and_Ga_def translator0_def new_ltlf_translator_def
        propeq_representative_def formula_And_def)
  have p2: "fst (propeq_representative formula_a_or_b translator0) = formula_a_or_b"
    by code_simp
  have r1: "formula_to_terminal formula_a_and_Ga True translator0 =
      (fst (formula_to_terminal formula_a_and_Ga True translator0),
       snd (formula_to_terminal formula_a_and_Ga True translator0))" by simp
  have r2: "formula_to_terminal formula_a_or_b False translator0 =
      (fst (formula_to_terminal formula_a_or_b False translator0),
       snd (formula_to_terminal formula_a_or_b False translator0))" by simp
  from formula_to_terminal_roundtrip [OF wf bd r1] n1 n3 p1
  have a: "terminal_to_formula (snd (formula_to_terminal formula_a_and_Ga True translator0))
     (fst (formula_to_terminal formula_a_and_Ga True translator0)) = Inr (G (ap ''a''))"
    by auto
  from formula_to_terminal_roundtrip [OF wf bd r2] n2 p2
  have b: "terminal_to_formula (snd (formula_to_terminal formula_a_or_b False translator0))
     (fst (formula_to_terminal formula_a_or_b False translator0)) = Inr formula_a_or_b"
    by auto
  show ?thesis using wf bd n1 p1 a n2 p2 b by blast
qed


section \<open>The registry through the translation of a formula\<close>


lemma formula_to_terminal_bdd_as_int_wf:
  assumes "registry_inv t" "formula_to_terminal_bdd_as_int f b t = Inr (r, t')"
  shows "registry_inv t'"
  using assms formula_to_int_wf [of t f]
  by (auto simp: formula_to_terminal_bdd_as_int_def Let_def split: if_splits prod.splits)

lemma term_combine_wf:
  assumes "registry_inv t"
  shows "term_combine_and l r t = Inr (b, t') \<Longrightarrow> registry_inv t'"
    and "term_combine_or l r t = Inr (b, t') \<Longrightarrow> registry_inv t'"
    and "term_combine_implies l r t = Inr (b, t') \<Longrightarrow> registry_inv t'"
    and "term_combine_equiv l r t = Inr (b, t') \<Longrightarrow> registry_inv t'"
    and "term_combine_xor l r t = Inr (b, t') \<Longrightarrow> registry_inv t'"
  using assms formula_to_terminal_bdd_as_int_wf
  by (auto simp: term_combine_and_def term_combine_or_def term_combine_implies_def
      term_combine_equiv_def term_combine_xor_def split: sum.splits prod.splits)

lemma term_combine_not_wf:
  assumes "registry_inv t" "term_combine_not v t = Inr (v', t')"
  shows "registry_inv t'"
  using assms formula_to_int_wf [of t]
  by (auto simp: term_combine_not_def formula_to_terminal_def split: sum.splits prod.splits)

lemma bdd_mt_apply2_leaves_invariant:
  assumes "\<And>l r s b s'. P s \<Longrightarrow> comb l r s = Inr (b, s') \<Longrightarrow> P s'"
    and "P s" and "bdd_mt_apply2_leaves l r comb opr s = Inr (b, s')"
  shows "P s'"
  using assms
proof (induction l r comb opr s arbitrary: b s' rule: bdd_mt_apply2_leaves.induct)
  case (1 l r comb opr s)
  note comb = "1.prems"(1) and Ps = "1.prems"(2) and res = "1.prems"(3)
  show ?case
  proof (cases "apply_shortcut opr l r")
    case (Some c)
    with Ps res show ?thesis by (simp add: bdd_mt_apply2_leaves.simps)
  next
    case None
    show ?thesis
    proof (cases "bdd_is_leaf l \<and> bdd_is_leaf r")
      case True
      with None res have "comb l r s = Inr (b, s')"
        by (simp add: bdd_mt_apply2_leaves.simps)
      with Ps show ?thesis by (rule comb)
    next
      case False
      let ?x = "bdd_top l r"
      from None False res obtain lo s1 hi where
        lo: "bdd_mt_apply2_leaves (bdd_low_at ?x l) (bdd_low_at ?x r) comb opr s = Inr (lo, s1)"
        and hi: "bdd_mt_apply2_leaves (bdd_high_at ?x l) (bdd_high_at ?x r) comb opr s1 = Inr (hi, s')"
        by (subst (asm) bdd_mt_apply2_leaves.simps) (auto split: sum.splits)
      have "P s1" using "1.IH"(1) [OF None False comb Ps lo] .
      then show ?thesis using "1.IH"(2) [OF None False lo refl comb _ hi] by simp
    qed
  qed
qed

lemma bdd_mt_apply1_st_invariant:
  assumes "\<And>v s v' s'. P s \<Longrightarrow> f v s = Inr (v', s') \<Longrightarrow> P s'"
    and "P s" and "bdd_mt_apply1_st b f rf rt s = Inr (r, s')"
  shows "P s'"
  using assms
proof (induction b arbitrary: s r s')
  case (bdd_node x l h)
  from bdd_node.prems(3) obtain lo s1 hi where
    lo: "bdd_mt_apply1_st l f rf rt s = Inr (lo, s1)"
    and hi: "bdd_mt_apply1_st h f rf rt s1 = Inr (hi, s')"
    by (auto split: sum.splits)
  have "P s1" using bdd_node.IH(1) [OF bdd_node.prems(1,2) lo] .
  then show ?case using bdd_node.IH(2) [OF bdd_node.prems(1) _ hi] by simp
qed (auto split: sum.splits)

lemma combine_wf:
  assumes wf: "registry_inv t"
  shows "combine_and l r t = Inr (b, t') \<Longrightarrow> registry_inv t'"
    and "combine_or l r t = Inr (b, t') \<Longrightarrow> registry_inv t'"
    and "combine_implies l r t = Inr (b, t') \<Longrightarrow> registry_inv t'"
    and "combine_equiv l r t = Inr (b, t') \<Longrightarrow> registry_inv t'"
    and "combine_xor l r t = Inr (b, t') \<Longrightarrow> registry_inv t'"
    and "combine_not l t = Inr (b, t') \<Longrightarrow> registry_inv t'"
proof -
  show "combine_and l r t = Inr (b, t') \<Longrightarrow> registry_inv t'"
    unfolding combine_and_def
    by (rule bdd_mt_apply2_leaves_invariant [where P = registry_inv and comb = term_combine_and, OF _ wf])
       (auto intro: term_combine_wf)
  show "combine_or l r t = Inr (b, t') \<Longrightarrow> registry_inv t'"
    unfolding combine_or_def
    by (rule bdd_mt_apply2_leaves_invariant [where P = registry_inv and comb = term_combine_or, OF _ wf])
       (auto intro: term_combine_wf)
  show "combine_implies l r t = Inr (b, t') \<Longrightarrow> registry_inv t'"
    unfolding combine_implies_def
    by (rule bdd_mt_apply2_leaves_invariant [where P = registry_inv and comb = term_combine_implies, OF _ wf])
       (auto intro: term_combine_wf)
  show "combine_equiv l r t = Inr (b, t') \<Longrightarrow> registry_inv t'"
    unfolding combine_equiv_def
    by (rule bdd_mt_apply2_leaves_invariant [where P = registry_inv and comb = term_combine_equiv, OF _ wf])
       (auto intro: term_combine_wf)
  show "combine_xor l r t = Inr (b, t') \<Longrightarrow> registry_inv t'"
    unfolding combine_xor_def
    by (rule bdd_mt_apply2_leaves_invariant [where P = registry_inv and comb = term_combine_xor, OF _ wf])
       (auto intro: term_combine_wf)
  show "combine_not l t = Inr (b, t') \<Longrightarrow> registry_inv t'"
    unfolding combine_not_def
    by (rule bdd_mt_apply1_st_invariant [where P = registry_inv and f = term_combine_not, OF _ wf])
       (auto intro: term_combine_not_wf)
qed


lemma registry_wf_cache [simp]: "registry_wf (t\<lparr>formula_to_bdd_m := m\<rparr>) = registry_wf t"
  by (simp add: registry_wf_def)

lemma registry_inv_cache [simp]: "registry_inv (t\<lparr>formula_to_bdd_m := m\<rparr>) = registry_inv t"
  by (simp add: registry_inv_def registry_bounded_def)

lemma registry_wf_dict [simp]: "registry_wf (t\<lparr>dict_m := d\<rparr>) = registry_wf t"
  by (simp add: registry_wf_def)

lemma registry_inv_dict [simp]: "registry_inv (t\<lparr>dict_m := d\<rparr>) = registry_inv t"
  by (simp add: registry_inv_def registry_bounded_def)

lemma ltlf_to_mtbdd_storeD:
  "ltlf_to_mtbdd_store f r = Inr (b, t') \<Longrightarrow>
   \<exists>t''. r = Inr (b, t'') \<and> t' = t''\<lparr>formula_to_bdd_m := (formula_to_bdd_m t'')(f \<mapsto> b)\<rparr>"
  by (auto simp: ltlf_to_mtbdd_store_def split: sum.splits)

lemma formula_to_terminal_bdd_wf:
  "registry_inv t \<Longrightarrow> formula_to_terminal_bdd f b t = Inr (r, t') \<Longrightarrow> registry_inv t'"
  unfolding formula_to_terminal_bdd_def by (rule formula_to_terminal_bdd_as_int_wf)

lemma if_combine_wf:
  "registry_inv t1 \<Longrightarrow> (if c then Inr (x, t1) else m) = Inr (b, t5) \<Longrightarrow>
   (m = Inr (b, t5) \<Longrightarrow> registry_inv t5) \<Longrightarrow> registry_inv t5"
  by (auto split: if_splits)

lemma ltlf_to_mtbdd_wf:
  "registry_inv t \<Longrightarrow> ltlf_to_mtbdd f t = Inr (b, t') \<Longrightarrow> registry_inv t'"
  "registry_inv t \<Longrightarrow> ltlf_to_mtbdd_and fs res t = Inr (b, t') \<Longrightarrow> registry_inv t'"
  "registry_inv t \<Longrightarrow> ltlf_to_mtbdd_or fs res t = Inr (b, t') \<Longrightarrow> registry_inv t'"
proof (induction f t and fs res t and fs res t arbitrary: b t' and b t' and b t'
    rule: ltlf_to_mtbdd_ltlf_to_mtbdd_and_ltlf_to_mtbdd_or.induct)
  case (1 t)
  then show ?case
    by (auto dest!: ltlf_to_mtbdd_storeD split: option.splits prod.splits
          dest: formula_to_terminal_bdd_wf)
next
  case (2 t)
  then show ?case
    by (auto dest!: ltlf_to_mtbdd_storeD split: option.splits prod.splits
          dest: formula_to_terminal_bdd_wf)
next
  case (3 a t)
  then show ?case
    by (auto dest!: ltlf_to_mtbdd_storeD split: option.splits prod.splits
          dest: formula_to_terminal_bdd_wf)
next
  case (4 f0 t)
  show ?case
  proof (cases "formula_to_bdd_m t (Not f0)")
    case (Some c)
    with "4.prems" show ?thesis by simp
  next
    case None
    from "4.prems"(2) None obtain c t1 t5 where
      a: "ltlf_to_mtbdd f0 t = Inr (c, t1)"
      and e: "(if is_boolean (Not f0) then Inr (bdd_not c, t1) else combine_not c t1) = Inr (b, t5)"
      and t': "t' = t5\<lparr>formula_to_bdd_m := (formula_to_bdd_m t5)(Not f0 \<mapsto> b)\<rparr>"
      by (auto dest!: ltlf_to_mtbdd_storeD split: sum.splits)
    have w1: "registry_inv t1" by (rule "4.IH" [OF None "4.prems"(1) a])
    have w5: "registry_inv t5" by (rule if_combine_wf [OF w1 e]) (rule combine_wf(6) [OF w1])
    then show ?thesis by (simp add: t')
  qed
next
  case (5 f0 f1 t)
  show ?case
  proof (cases "formula_to_bdd_m t (Xor f0 f1)")
    case (Some c)
    with "5.prems" show ?thesis by simp
  next
    case None
    from "5.prems"(2) None obtain left t1 right t2 t5 where
      a: "ltlf_to_mtbdd f0 t = Inr (left, t1)" and b: "ltlf_to_mtbdd f1 t1 = Inr (right, t2)"
      and e: "(if is_boolean (Xor f0 f1) then Inr (bdd_apply left right (\<noteq>), t2)
                else combine_xor left right t2) = Inr (b, t5)"
      and t': "t' = t5\<lparr>formula_to_bdd_m := (formula_to_bdd_m t5)(Xor f0 f1 \<mapsto> b)\<rparr>"
      by (auto dest!: ltlf_to_mtbdd_storeD split: sum.splits)
    have w1: "registry_inv t1" by (rule "5.IH"(1) [OF None "5.prems"(1) a])
    have w2: "registry_inv t2" by (rule "5.IH"(2) [OF None a refl w1 b])
    have w5: "registry_inv t5" by (rule if_combine_wf [OF w2 e]) (rule combine_wf(5) [OF w2])
    then show ?thesis by (simp add: t')
  qed
next
  case (6 f0 f1 t)
  show ?case
  proof (cases "formula_to_bdd_m t (Implies f0 f1)")
    case (Some c)
    with "6.prems" show ?thesis by simp
  next
    case None
    from "6.prems"(2) None obtain left t1 right t2 t5 where
      a: "ltlf_to_mtbdd f0 t = Inr (left, t1)" and b: "ltlf_to_mtbdd f1 t1 = Inr (right, t2)"
      and e: "(if is_boolean (Implies f0 f1) then Inr (bdd_apply left right (\<longrightarrow>), t2)
                else combine_implies left right t2) = Inr (b, t5)"
      and t': "t' = t5\<lparr>formula_to_bdd_m := (formula_to_bdd_m t5)(Implies f0 f1 \<mapsto> b)\<rparr>"
      by (auto dest!: ltlf_to_mtbdd_storeD split: sum.splits)
    have w1: "registry_inv t1" by (rule "6.IH"(1) [OF None "6.prems"(1) a])
    have w2: "registry_inv t2" by (rule "6.IH"(2) [OF None a refl w1 b])
    have w5: "registry_inv t5" by (rule if_combine_wf [OF w2 e]) (rule combine_wf(3) [OF w2])
    then show ?thesis by (simp add: t')
  qed
next
  case (7 f0 f1 t)
  show ?case
  proof (cases "formula_to_bdd_m t (Equiv f0 f1)")
    case (Some c)
    with "7.prems" show ?thesis by simp
  next
    case None
    from "7.prems"(2) None obtain left t1 right t2 t5 where
      a: "ltlf_to_mtbdd f0 t = Inr (left, t1)" and b: "ltlf_to_mtbdd f1 t1 = Inr (right, t2)"
      and e: "(if is_boolean (Equiv f0 f1) then Inr (bdd_apply left right (=), t2)
                else combine_equiv left right t2) = Inr (b, t5)"
      and t': "t' = t5\<lparr>formula_to_bdd_m := (formula_to_bdd_m t5)(Equiv f0 f1 \<mapsto> b)\<rparr>"
      by (auto dest!: ltlf_to_mtbdd_storeD split: sum.splits)
    have w1: "registry_inv t1" by (rule "7.IH"(1) [OF None "7.prems"(1) a])
    have w2: "registry_inv t2" by (rule "7.IH"(2) [OF None a refl w1 b])
    have w5: "registry_inv t5" by (rule if_combine_wf [OF w2 e]) (rule combine_wf(4) [OF w2])
    then show ?thesis by (simp add: t')
  qed
next
  case (8 k fs t)
  then show ?case
    by (auto dest!: ltlf_to_mtbdd_storeD split: option.splits prod.splits
          dest: formula_to_terminal_bdd_wf)
next
  case (9 fs t)
  show ?case
  proof (cases "formula_to_bdd_m t (And fs)")
    case (Some c)
    with "9.prems" show ?thesis by simp
  next
    case None
    from "9.prems"(2) None obtain f0 rest res t1 t5 where
      fs: "fs = f0 # rest"
      and a: "ltlf_to_mtbdd f0 t = Inr (res, t1)" and b: "ltlf_to_mtbdd_and rest res t1 = Inr (b, t5)"
      and t': "t' = t5\<lparr>formula_to_bdd_m := (formula_to_bdd_m t5)(And fs \<mapsto> b)\<rparr>"
      by (auto dest!: ltlf_to_mtbdd_storeD split: sum.splits list.splits)
    have w1: "registry_inv t1" by (rule "9.IH"(1) [OF None fs "9.prems"(1) a])
    have w5: "registry_inv t5" by (rule "9.IH"(2) [OF None fs a refl w1 b])
    then show ?thesis by (simp add: t')
  qed
next
  case (10 fs t)
  show ?case
  proof (cases "formula_to_bdd_m t (Or fs)")
    case (Some c)
    with "10.prems" show ?thesis by simp
  next
    case None
    from "10.prems"(2) None obtain f0 rest res t1 t5 where
      fs: "fs = f0 # rest"
      and a: "ltlf_to_mtbdd f0 t = Inr (res, t1)" and b: "ltlf_to_mtbdd_or rest res t1 = Inr (b, t5)"
      and t': "t' = t5\<lparr>formula_to_bdd_m := (formula_to_bdd_m t5)(Or fs \<mapsto> b)\<rparr>"
      by (auto dest!: ltlf_to_mtbdd_storeD split: sum.splits list.splits)
    have w1: "registry_inv t1" by (rule "10.IH"(1) [OF None fs "10.prems"(1) a])
    have w5: "registry_inv t5" by (rule "10.IH"(2) [OF None fs a refl w1 b])
    then show ?thesis by (simp add: t')
  qed
next
  case (11 f0 t)
  then show ?case
    by (auto dest!: ltlf_to_mtbdd_storeD split: option.splits prod.splits
          dest: formula_to_terminal_bdd_wf)
next
  case (12 f0 t)
  then show ?case
    by (auto dest!: ltlf_to_mtbdd_storeD split: option.splits prod.splits
          dest: formula_to_terminal_bdd_wf)
next
  case (13 g h t)
  show ?case
  proof (cases "formula_to_bdd_m t (U g h)")
    case (Some c)
    with "13.prems" show ?thesis by simp
  next
    case None
    from "13.prems"(2) None obtain f0 t1 f1 t2 tm t3 c t4 t5 where
      a: "ltlf_to_mtbdd g t = Inr (f0, t1)" and b: "ltlf_to_mtbdd h t1 = Inr (f1, t2)"
      and c: "formula_to_terminal_bdd (U g h) False t2 = Inr (tm, t3)"
      and d: "combine_and f0 tm t3 = Inr (c, t4)" and e: "combine_or f1 c t4 = Inr (b, t5)"
      and t': "t' = t5\<lparr>formula_to_bdd_m := (formula_to_bdd_m t5)(U g h \<mapsto> b)\<rparr>"
      by (auto dest!: ltlf_to_mtbdd_storeD split: sum.splits)
    have w1: "registry_inv t1" by (rule "13.IH"(1) [OF None "13.prems"(1) a])
    have w2: "registry_inv t2" by (rule "13.IH"(2) [OF None a refl w1 b])
    have w3: "registry_inv t3" by (rule formula_to_terminal_bdd_wf [OF w2 c])
    have w4: "registry_inv t4" by (rule combine_wf(1) [OF w3 d])
    have w5: "registry_inv t5" by (rule combine_wf(2) [OF w4 e])
    then show ?thesis by (simp add: t')
  qed
next
  case (14 g h t)
  show ?case
  proof (cases "formula_to_bdd_m t (W g h)")
    case (Some c)
    with "14.prems" show ?thesis by simp
  next
    case None
    from "14.prems"(2) None obtain f0 t1 f1 t2 tm t3 c t4 t5 where
      a: "ltlf_to_mtbdd g t = Inr (f0, t1)" and b: "ltlf_to_mtbdd h t1 = Inr (f1, t2)"
      and c: "formula_to_terminal_bdd (W g h) True t2 = Inr (tm, t3)"
      and d: "combine_and f0 tm t3 = Inr (c, t4)" and e: "combine_or f1 c t4 = Inr (b, t5)"
      and t': "t' = t5\<lparr>formula_to_bdd_m := (formula_to_bdd_m t5)(W g h \<mapsto> b)\<rparr>"
      by (auto dest!: ltlf_to_mtbdd_storeD split: sum.splits)
    have w1: "registry_inv t1" by (rule "14.IH"(1) [OF None "14.prems"(1) a])
    have w2: "registry_inv t2" by (rule "14.IH"(2) [OF None a refl w1 b])
    have w3: "registry_inv t3" by (rule formula_to_terminal_bdd_wf [OF w2 c])
    have w4: "registry_inv t4" by (rule combine_wf(1) [OF w3 d])
    have w5: "registry_inv t5" by (rule combine_wf(2) [OF w4 e])
    then show ?thesis by (simp add: t')
  qed
next
  case (15 g h t)
  show ?case
  proof (cases "formula_to_bdd_m t (R g h)")
    case (Some c)
    with "15.prems" show ?thesis by simp
  next
    case None
    from "15.prems"(2) None obtain f0 t1 f1 t2 tm t3 c t4 t5 where
      a: "ltlf_to_mtbdd g t = Inr (f0, t1)" and b: "ltlf_to_mtbdd h t1 = Inr (f1, t2)"
      and c: "formula_to_terminal_bdd (R g h) True t2 = Inr (tm, t3)"
      and d: "combine_or f0 tm t3 = Inr (c, t4)" and e: "combine_and f1 c t4 = Inr (b, t5)"
      and t': "t' = t5\<lparr>formula_to_bdd_m := (formula_to_bdd_m t5)(R g h \<mapsto> b)\<rparr>"
      by (auto dest!: ltlf_to_mtbdd_storeD split: sum.splits)
    have w1: "registry_inv t1" by (rule "15.IH"(1) [OF None "15.prems"(1) a])
    have w2: "registry_inv t2" by (rule "15.IH"(2) [OF None a refl w1 b])
    have w3: "registry_inv t3" by (rule formula_to_terminal_bdd_wf [OF w2 c])
    have w4: "registry_inv t4" by (rule combine_wf(2) [OF w3 d])
    have w5: "registry_inv t5" by (rule combine_wf(1) [OF w4 e])
    then show ?thesis by (simp add: t')
  qed
next
  case (16 g h t)
  show ?case
  proof (cases "formula_to_bdd_m t (M g h)")
    case (Some c)
    with "16.prems" show ?thesis by simp
  next
    case None
    from "16.prems"(2) None obtain f0 t1 f1 t2 tm t3 c t4 t5 where
      a: "ltlf_to_mtbdd g t = Inr (f0, t1)" and b: "ltlf_to_mtbdd h t1 = Inr (f1, t2)"
      and c: "formula_to_terminal_bdd (M g h) False t2 = Inr (tm, t3)"
      and d: "combine_or f0 tm t3 = Inr (c, t4)" and e: "combine_and f1 c t4 = Inr (b, t5)"
      and t': "t' = t5\<lparr>formula_to_bdd_m := (formula_to_bdd_m t5)(M g h \<mapsto> b)\<rparr>"
      by (auto dest!: ltlf_to_mtbdd_storeD split: sum.splits)
    have w1: "registry_inv t1" by (rule "16.IH"(1) [OF None "16.prems"(1) a])
    have w2: "registry_inv t2" by (rule "16.IH"(2) [OF None a refl w1 b])
    have w3: "registry_inv t3" by (rule formula_to_terminal_bdd_wf [OF w2 c])
    have w4: "registry_inv t4" by (rule combine_wf(2) [OF w3 d])
    have w5: "registry_inv t5" by (rule combine_wf(1) [OF w4 e])
    then show ?thesis by (simp add: t')
  qed
next
  case (17 f0 t)
  show ?case
  proof (cases "formula_to_bdd_m t (G f0)")
    case (Some c)
    with "17.prems" show ?thesis by simp
  next
    case None
    from "17.prems"(2) None obtain tm t1 c t2 t5 where
      a: "formula_to_terminal_bdd (G f0) True t = Inr (tm, t1)"
      and b: "ltlf_to_mtbdd f0 t1 = Inr (c, t2)"
      and e: "combine_and c tm t2 = Inr (b, t5)"
      and t': "t' = t5\<lparr>formula_to_bdd_m := (formula_to_bdd_m t5)(G f0 \<mapsto> b)\<rparr>"
      by (auto dest!: ltlf_to_mtbdd_storeD split: sum.splits)
    have w1: "registry_inv t1" by (rule formula_to_terminal_bdd_wf [OF "17.prems"(1) a])
    have w2: "registry_inv t2" by (rule "17.IH" [OF None a refl w1 b])
    have w5: "registry_inv t5" by (rule combine_wf(1) [OF w2 e])
    then show ?thesis by (simp add: t')
  qed
next
  case (18 f0 t)
  show ?case
  proof (cases "formula_to_bdd_m t (F f0)")
    case (Some c)
    with "18.prems" show ?thesis by simp
  next
    case None
    from "18.prems"(2) None obtain tm t1 c t2 t5 where
      a: "formula_to_terminal_bdd (F f0) False t = Inr (tm, t1)"
      and b: "ltlf_to_mtbdd f0 t1 = Inr (c, t2)"
      and e: "combine_or c tm t2 = Inr (b, t5)"
      and t': "t' = t5\<lparr>formula_to_bdd_m := (formula_to_bdd_m t5)(F f0 \<mapsto> b)\<rparr>"
      by (auto dest!: ltlf_to_mtbdd_storeD split: sum.splits)
    have w1: "registry_inv t1" by (rule formula_to_terminal_bdd_wf [OF "18.prems"(1) a])
    have w2: "registry_inv t2" by (rule "18.IH" [OF None a refl w1 b])
    have w5: "registry_inv t5" by (rule combine_wf(2) [OF w2 e])
    then show ?thesis by (simp add: t')
  qed
next
  case (19 res t)
  then show ?case
    by (auto dest!: ltlf_to_mtbdd_storeD split: option.splits prod.splits
          dest: formula_to_terminal_bdd_wf)
next
  case (20 sub subs res t)
  from "20.prems"(2) obtain c t1 res' t2 where
    a: "ltlf_to_mtbdd sub t = Inr (c, t1)" and b: "combine_and res c t1 = Inr (res', t2)"
    and e: "ltlf_to_mtbdd_and subs res' t2 = Inr (b, t')"
    by (auto split: sum.splits)
  have w1: "registry_inv t1" by (rule "20.IH"(1) [OF "20.prems"(1) a])
  have w2: "registry_inv t2" by (rule combine_wf(1) [OF w1 b])
  show ?case by (rule "20.IH"(2) [OF a refl b refl w2 e])
next
  case (21 res t)
  then show ?case
    by (auto dest!: ltlf_to_mtbdd_storeD split: option.splits prod.splits
          dest: formula_to_terminal_bdd_wf)
next
  case (22 sub subs res t)
  from "22.prems"(2) obtain c t1 res' t2 where
    a: "ltlf_to_mtbdd sub t = Inr (c, t1)" and b: "combine_or res c t1 = Inr (res', t2)"
    and e: "ltlf_to_mtbdd_or subs res' t2 = Inr (b, t')"
    by (auto split: sum.splits)
  have w1: "registry_inv t1" by (rule "22.IH"(1) [OF "22.prems"(1) a])
  have w2: "registry_inv t2" by (rule combine_wf(2) [OF w1 b])
  show ?case by (rule "22.IH"(2) [OF a refl b refl w2 e])
qed

section \<open>Until and weak until\<close>

subsection \<open>The terminals and their combinations, as the spec words them\<close>

text \<open>
  \<open>terminal_of\<close> is the terminal of a formula that is interned, as the spec words it
  (section 4.1): the constant true for a formula that is true and may stop, the constant
  false for a formula that is false and may not stop, and otherwise the terminal
  \<open>2 id + may_stop\<close>.  It reads the registry and does not change it.
\<close>

definition terminal_of :: "ltlf_translator \<Rightarrow> formula \<Rightarrow> bool \<Rightarrow> bdd option" where
  "terminal_of t f maystop =
     (if f = ff \<and> \<not> maystop then Some bddfalse
      else if f = tt \<and> maystop then Some bddtrue
      else
        (case formula_to_int_m t f of
           None \<Rightarrow> None
         | Some n \<Rightarrow>
            (let f' = int_to_formula_m t ! nat n in
             if f' = ff \<and> \<not> maystop then Some bddfalse
             else if f' = tt \<and> maystop then Some bddtrue
             else Some (bdd_terminal (2 * n + (if maystop then 1 else 0))))))"

text \<open>
  The conjunction and the disjunction of two leaves, as the spec words them (sections 4.3
  and 4.4): a constant that decides the operation is the result; otherwise the result is
  the terminal whose formula is the conjunction (the disjunction) of the formulas of the
  two leaves, and whose accepting bit is the conjunction (the disjunction) of their
  accepting bits.
\<close>

definition leaf_and :: "ltlf_translator \<Rightarrow> bdd \<Rightarrow> bdd \<Rightarrow> bdd option" where
  "leaf_and t x y =
     (if x = bddfalse \<or> y = bddfalse then Some bddfalse
      else
        (case leaf_to_formula t x of
           Inl e \<Rightarrow> None
         | Inr (fx, bx) \<Rightarrow>
            (case leaf_to_formula t y of
               Inl e \<Rightarrow> None
             | Inr (fy, by) \<Rightarrow> terminal_of t (formula_And [fx, fy]) (bx \<and> by))))"

definition leaf_or :: "ltlf_translator \<Rightarrow> bdd \<Rightarrow> bdd \<Rightarrow> bdd option" where
  "leaf_or t x y =
     (if x = bddtrue \<or> y = bddtrue then Some bddtrue
      else
        (case leaf_to_formula t x of
           Inl e \<Rightarrow> None
         | Inr (fx, bx) \<Rightarrow>
            (case leaf_to_formula t y of
               Inl e \<Rightarrow> None
             | Inr (fy, by) \<Rightarrow> terminal_of t (formula_Or [fx, fy]) (bx \<or> by))))"

text \<open>A registry extends another one when it holds the same formulas under the same
  identifiers, and possibly more.\<close>

definition reg_le :: "ltlf_translator \<Rightarrow> ltlf_translator \<Rightarrow> bool" where
  "reg_le t t' =
     ((\<exists>xs. int_to_formula_m t' = int_to_formula_m t @ xs) \<and>
      formula_to_int_m t \<subseteq>\<^sub>m formula_to_int_m t')"

lemma reg_le_refl [simp]: "reg_le t t"
  by (simp add: reg_le_def)

lemma reg_le_trans: "reg_le t t1 \<Longrightarrow> reg_le t1 t2 \<Longrightarrow> reg_le t t2"
  unfolding reg_le_def by (auto intro: map_le_trans)

lemma reg_le_length: "reg_le t t' \<Longrightarrow> length (int_to_formula_m t) \<le> length (int_to_formula_m t')"
  unfolding reg_le_def by auto

lemma reg_le_bounded: "reg_le t t' \<Longrightarrow> registry_bounded t' \<Longrightarrow> registry_bounded t"
  using reg_le_length registry_bounded_mono by blast

lemma reg_le_nth:
  "reg_le t t' \<Longrightarrow> i < length (int_to_formula_m t) \<Longrightarrow>
   int_to_formula_m t' ! i = int_to_formula_m t ! i"
  unfolding reg_le_def by (auto simp: nth_append)

lemma reg_le_map:
  "reg_le t t' \<Longrightarrow> formula_to_int_m t f = Some v \<Longrightarrow> formula_to_int_m t' f = Some v"
  unfolding reg_le_def map_le_def by (metis domI)

lemma reg_le_cache [simp]:
  "reg_le t (t'\<lparr>formula_to_bdd_m := m\<rparr>) = reg_le t t'"
  by (simp add: reg_le_def)

lemma same_registry_reg_le: "same_registry t t' \<Longrightarrow> reg_le t t'"
  by (simp add: same_registry_def reg_le_def)

lemma formula_to_int_reg_le:
  assumes "formula_to_int f t = (v, t')"
  shows "reg_le t t'"
proof (cases "formula_to_int_m t f")
  case (Some w)
  with assms show ?thesis by (simp add: formula_to_int_def)
next
  case None
  obtain g t1 where pr: "propeq_representative f t = (g, t1)" by (cases "propeq_representative f t")
  then have sr: "same_registry t t1" by (rule propeq_representative_registry)
  then have i2f: "int_to_formula_m t1 = int_to_formula_m t"
    and f2i: "formula_to_int_m t1 = formula_to_int_m t" by (simp_all add: same_registry_def)
  show ?thesis
  proof (cases "g = f")
    case True
    with assms None pr i2f f2i show ?thesis
      by (auto simp: formula_to_int_def Let_def reg_le_def map_le_def)
  next
    case False
    show ?thesis
    proof (cases "formula_to_int_m t g")
      case gNone: None
      with assms None pr i2f f2i False show ?thesis
        by (auto simp: formula_to_int_def Let_def reg_le_def map_le_def)
    next
      case (Some w)
      with assms None pr i2f f2i False show ?thesis
        by (auto simp: formula_to_int_def Let_def reg_le_def map_le_def)
    qed
  qed
qed

lemma leaf_to_formula_stable:
  "leaf_to_formula t x = Inr p \<Longrightarrow> reg_le t t' \<Longrightarrow> leaf_to_formula t' x = Inr p"
  unfolding leaf_to_formula_def terminal_to_formula_def Let_def
  by (auto split: if_splits dest: reg_le_length simp: reg_le_nth)

lemma terminal_of_stable:
  assumes "terminal_of t f b = Some z" and wf: "registry_wf t" and le: "reg_le t t'"
  shows "terminal_of t' f b = Some z"
proof (cases "(f = ff \<and> \<not> b) \<or> (f = tt \<and> b)")
  case True
  with assms(1) show ?thesis by (auto simp: terminal_of_def)
next
  case False
  with assms(1) obtain n where n: "formula_to_int_m t f = Some n"
    by (auto simp: terminal_of_def split: option.splits)
  from registry_wfD1 [OF wf n] have "nat n < length (int_to_formula_m t)" by simp
  from reg_le_nth [OF le this] reg_le_map [OF le n] assms(1) n False show ?thesis
    by (auto simp: terminal_of_def Let_def split: if_splits)
qed

lemma leaf_and_stable:
  assumes "leaf_and t x y = Some z" and wf: "registry_wf t" and le: "reg_le t t'"
  shows "leaf_and t' x y = Some z"
proof (cases "x = bddfalse \<or> y = bddfalse")
  case True
  with assms(1) show ?thesis by (simp add: leaf_and_def)
next
  case False
  with assms(1) obtain fx bx fy "by" where
    x: "leaf_to_formula t x = Inr (fx, bx)" and y: "leaf_to_formula t y = Inr (fy, by)"
    and z: "terminal_of t (formula_And [fx, fy]) (bx \<and> by) = Some z"
    by (auto simp: leaf_and_def split: sum.splits)
  from leaf_to_formula_stable [OF x le] leaf_to_formula_stable [OF y le]
    terminal_of_stable [OF z wf le] False
  show ?thesis by (simp add: leaf_and_def)
qed

lemma leaf_or_stable:
  assumes "leaf_or t x y = Some z" and wf: "registry_wf t" and le: "reg_le t t'"
  shows "leaf_or t' x y = Some z"
proof (cases "x = bddtrue \<or> y = bddtrue")
  case True
  with assms(1) show ?thesis by (simp add: leaf_or_def)
next
  case False
  with assms(1) obtain fx bx fy "by" where
    x: "leaf_to_formula t x = Inr (fx, bx)" and y: "leaf_to_formula t y = Inr (fy, by)"
    and z: "terminal_of t (formula_Or [fx, fy]) (bx \<or> by) = Some z"
    by (auto simp: leaf_or_def split: sum.splits)
  from leaf_to_formula_stable [OF x le] leaf_to_formula_stable [OF y le]
    terminal_of_stable [OF z wf le] False
  show ?thesis by (simp add: leaf_or_def)
qed


subsection \<open>The binary apply, leaf by leaf\<close>

lemma bdd_eval_low_at: "\<not> a x \<Longrightarrow> bdd_eval (bdd_low_at x l) a = bdd_eval l a"
  by (cases l) auto

lemma bdd_eval_high_at: "a x \<Longrightarrow> bdd_eval (bdd_high_at x l) a = bdd_eval l a"
  by (cases l) auto

lemma bdd_eval_is_leaf: "bdd_is_leaf l \<Longrightarrow> bdd_eval l a = l"
  by (cases l) auto

lemma bdd_mt_apply2_leaves_pointwise:
  assumes stable: "\<And>s s' x y z. S s x y z \<Longrightarrow> registry_wf s \<Longrightarrow> reg_le s s' \<Longrightarrow> S s' x y z"
    and comb: "\<And>x y s z s'. registry_inv s \<Longrightarrow> comb x y s = Inr (z, s') \<Longrightarrow>
       registry_inv s' \<and> reg_le s s' \<and> bdd_is_leaf z \<and> (registry_bounded s' \<longrightarrow> S s' x y z)"
    and short: "\<And>l r c s a. apply_shortcut opr l r = Some c \<Longrightarrow>
       S s (bdd_eval l a) (bdd_eval r a) (bdd_eval c a)"
    and inv: "registry_inv s"
    and run: "bdd_mt_apply2_leaves l r comb opr s = Inr (b, s')"
  shows "registry_inv s' \<and> reg_le s s' \<and>
     (registry_bounded s' \<longrightarrow> (\<forall>a. S s' (bdd_eval l a) (bdd_eval r a) (bdd_eval b a)))"
  using comb short inv run
proof (induction l r comb opr s arbitrary: b s' rule: bdd_mt_apply2_leaves.induct)
  case (1 l r cmb opr s)
  note cmb = "1.prems"(1) and short = "1.prems"(2) and inv = "1.prems"(3) and res = "1.prems"(4)
  show ?case
  proof (cases "apply_shortcut opr l r")
    case (Some c)
    with res have "b = c" "s' = s" by (simp_all add: bdd_mt_apply2_leaves.simps)
    with inv short [OF Some] show ?thesis by simp
  next
    case None
    show ?thesis
    proof (cases "bdd_is_leaf l \<and> bdd_is_leaf r")
      case True
      with None res have c: "cmb l r s = Inr (b, s')"
        by (simp add: bdd_mt_apply2_leaves.simps)
      from cmb [OF inv c] True show ?thesis by (simp add: bdd_eval_is_leaf)
    next
      case False
      let ?x = "bdd_top l r"
      from None False res obtain lo s1 hi where
        lo: "bdd_mt_apply2_leaves (bdd_low_at ?x l) (bdd_low_at ?x r) cmb opr s = Inr (lo, s1)"
        and hi: "bdd_mt_apply2_leaves (bdd_high_at ?x l) (bdd_high_at ?x r) cmb opr s1 = Inr (hi, s')"
        and b: "b = bdd_makenode ?x lo hi"
        by (subst (asm) bdd_mt_apply2_leaves.simps) (auto split: sum.splits)
      note L = "1.IH"(1) [OF None False cmb short inv lo]
      then have i1: "registry_inv s1" and le1: "reg_le s s1" by simp_all
      note H = "1.IH"(2) [OF None False lo refl cmb short i1 hi]
      then have i2: "registry_inv s'" and le2: "reg_le s1 s'" by simp_all
      have "S s' (bdd_eval l a) (bdd_eval r a) (bdd_eval b a)" if bd: "registry_bounded s'" for a
      proof (cases "a ?x")
        case True
        from H bd have "S s' (bdd_eval (bdd_high_at ?x l) a) (bdd_eval (bdd_high_at ?x r) a)
            (bdd_eval hi a)" by blast
        with True show ?thesis by (simp add: b bdd_eval_makenode bdd_eval_high_at)
      next
        case na: False
        from reg_le_bounded [OF le2 bd] have bd1: "registry_bounded s1" .
        with i1 have wf1: "registry_wf s1" by (rule registry_inv_wf)
        from L bd1 have "S s1 (bdd_eval (bdd_low_at ?x l) a) (bdd_eval (bdd_low_at ?x r) a)
            (bdd_eval lo a)" by blast
        with na have "S s1 (bdd_eval l a) (bdd_eval r a) (bdd_eval lo a)"
          by (simp add: bdd_eval_low_at)
        from stable [OF this wf1 le2] na show ?thesis by (simp add: b bdd_eval_makenode)
      qed
      with i2 reg_le_trans [OF le1 le2] show ?thesis by blast
    qed
  qed
qed

subsection \<open>The combiners of the translator\<close>

lemma formula_to_terminal_bdd_as_int_spec:
  assumes inv: "registry_inv t" and r: "formula_to_terminal_bdd_as_int f b t = Inr (z, t')"
  shows "registry_inv t' \<and> reg_le t t' \<and> bdd_is_leaf z \<and>
     (registry_bounded t' \<longrightarrow> terminal_of t' f b = Some z)"
proof (cases "(f = ff \<and> \<not> b) \<or> (f = tt \<and> b)")
  case True
  with r have "t' = t" "z = (if f = ff \<and> \<not> b then bddfalse else bddtrue)"
    by (auto simp: formula_to_terminal_bdd_as_int_def)
  with inv True show ?thesis by (auto simp: terminal_of_def)
next
  case False
  obtain v t1 where fi: "formula_to_int f t = (v, t1)" by (cases "formula_to_int f t")
  with r False have t1: "t1 = t'" and rng: "0 \<le> v" "nat v < length (int_to_formula_m t')"
    and z: "z = (let f' = int_to_formula_m t' ! nat v in
                 if f' = ff \<and> \<not> b then bddfalse else if f' = tt \<and> b then bddtrue
                 else bdd_terminal (int32 (v * 2 + (if b then 1 else 0))))"
    by (auto simp: formula_to_terminal_bdd_as_int_def Let_def split: if_splits)
  from fi t1 have fi': "formula_to_int f t = (v, t')" by simp
  have i': "registry_inv t'" by (rule formula_to_int_wf [OF inv fi'])
  have le: "reg_le t t'" by (rule formula_to_int_reg_le [OF fi'])
  have lf: "bdd_is_leaf z" by (simp add: z Let_def)
  have "terminal_of t' f b = Some z" if bd: "registry_bounded t'"
  proof -
    from rng(2) bd have "v < 2 ^ 30" using rng(1) by (simp add: registry_bounded_def)
    from int32_terminal [OF rng(1) this, of b]
    have "int32 (v * 2 + (if b then 1 else 0)) = 2 * v + (if b then 1 else 0)" by simp
    with formula_to_int_interned [OF fi'] False z show ?thesis
      by (auto simp: terminal_of_def Let_def)
  qed
  with i' le lf show ?thesis by blast
qed

lemma formula_And_ff: "ff \<in> set xs \<Longrightarrow> formula_And xs = ff"
proof -
  assume m: "ff \<in> set xs"
  have "ff \<in> set (flatten_and xs)" using m
    by (induction xs rule: flatten_and.induct) auto
  then show ?thesis by (simp add: formula_And_def)
qed

lemma formula_Or_tt: "tt \<in> set xs \<Longrightarrow> formula_Or xs = tt"
proof -
  assume m: "tt \<in> set xs"
  have "tt \<in> set (flatten_or xs)" using m
    by (induction xs rule: flatten_or.induct) auto
  then show ?thesis by (simp add: formula_Or_def)
qed

lemma leaf_to_formula_false: "leaf_to_formula t bddfalse = Inr (ff, False)"
  by (simp add: leaf_to_formula_def)

lemma leaf_to_formula_true: "leaf_to_formula t bddtrue = Inr (tt, True)"
  by (simp add: leaf_to_formula_def)

lemma leaf_to_formula_false_bit:
  "leaf_to_formula t x = Inr (f, b) \<Longrightarrow> x = bddfalse \<Longrightarrow> f = ff \<and> \<not> b"
  by (simp add: leaf_to_formula_def)

lemma term_combine_and_spec:
  assumes inv: "registry_inv t" and r: "term_combine_and x y t = Inr (z, t')"
  shows "registry_inv t' \<and> reg_le t t' \<and> bdd_is_leaf z \<and>
     (registry_bounded t' \<longrightarrow> leaf_and t' x y = Some z)"
proof -
  from r obtain fx bx fy "by" where
    x: "leaf_to_formula t x = Inr (fx, bx)" and y: "leaf_to_formula t y = Inr (fy, by)"
    and f: "formula_to_terminal_bdd_as_int (formula_And [fx, fy]) (bx \<and> by) t = Inr (z, t')"
    by (auto simp: term_combine_and_def split: sum.splits)
  note sp = formula_to_terminal_bdd_as_int_spec [OF inv f]
  then have le: "reg_le t t'" by simp
  have "leaf_and t' x y = Some z" if bd: "registry_bounded t'"
  proof (cases "x = bddfalse \<or> y = bddfalse")
    case True
    with x y have "ff \<in> set [fx, fy]" "\<not> (bx \<and> by)"
      by (auto simp: leaf_to_formula_def)
    then have "formula_And [fx, fy] = ff" "\<not> (bx \<and> by)" by (simp_all add: formula_And_ff)
    with f have "z = bddfalse" by (simp add: formula_to_terminal_bdd_as_int_def)
    with True show ?thesis by (simp add: leaf_and_def)
  next
    case False
    from sp bd have "terminal_of t' (formula_And [fx, fy]) (bx \<and> by) = Some z" by simp
    with leaf_to_formula_stable [OF x le] leaf_to_formula_stable [OF y le] False
    show ?thesis by (simp add: leaf_and_def)
  qed
  with sp show ?thesis by blast
qed

lemma term_combine_or_spec:
  assumes inv: "registry_inv t" and r: "term_combine_or x y t = Inr (z, t')"
  shows "registry_inv t' \<and> reg_le t t' \<and> bdd_is_leaf z \<and>
     (registry_bounded t' \<longrightarrow> leaf_or t' x y = Some z)"
proof -
  from r obtain fx bx fy "by" where
    x: "leaf_to_formula t x = Inr (fx, bx)" and y: "leaf_to_formula t y = Inr (fy, by)"
    and f: "formula_to_terminal_bdd_as_int (formula_Or [fx, fy]) (bx \<or> by) t = Inr (z, t')"
    by (auto simp: term_combine_or_def split: sum.splits)
  note sp = formula_to_terminal_bdd_as_int_spec [OF inv f]
  then have le: "reg_le t t'" by simp
  have "leaf_or t' x y = Some z" if bd: "registry_bounded t'"
  proof (cases "x = bddtrue \<or> y = bddtrue")
    case True
    with x y have "tt \<in> set [fx, fy]" "bx \<or> by"
      by (auto simp: leaf_to_formula_def)
    then have "formula_Or [fx, fy] = tt" "bx \<or> by" by (simp_all add: formula_Or_tt)
    with f have "z = bddtrue" by (simp add: formula_to_terminal_bdd_as_int_def)
    with True show ?thesis by (simp add: leaf_or_def)
  next
    case False
    from sp bd have "terminal_of t' (formula_Or [fx, fy]) (bx \<or> by) = Some z" by simp
    with leaf_to_formula_stable [OF x le] leaf_to_formula_stable [OF y le] False
    show ?thesis by (simp add: leaf_or_def)
  qed
  with sp show ?thesis by blast
qed

lemma combine_and_spec:
  assumes inv: "registry_inv t" and r: "combine_and l r t = Inr (b, t')"
  shows "registry_inv t' \<and> reg_le t t' \<and>
     (registry_bounded t' \<longrightarrow>
        (\<forall>a. leaf_and t' (bdd_eval l a) (bdd_eval r a) = Some (bdd_eval b a)))"
proof (rule bdd_mt_apply2_leaves_pointwise
    [where S = "\<lambda>s x y z. leaf_and s x y = Some z" and comb = term_combine_and
       and opr = bddop_and, OF _ _ _ inv r [unfolded combine_and_def]])
  fix s s' x y z
  assume "leaf_and s x y = Some z" "registry_wf s" "reg_le s s'"
  then show "leaf_and s' x y = Some z" by (rule leaf_and_stable)
next
  fix x y s z s'
  assume "registry_inv s" "term_combine_and x y s = Inr (z, s')"
  then show "registry_inv s' \<and> reg_le s s' \<and> bdd_is_leaf z \<and>
     (registry_bounded s' \<longrightarrow> leaf_and s' x y = Some z)" by (rule term_combine_and_spec)
next
  fix l r c s a
  assume "apply_shortcut bddop_and l r = Some c"
  then have "c = bddfalse" "l = bddfalse \<or> r = bddfalse" by (auto split: if_splits)
  then show "leaf_and s (bdd_eval l a) (bdd_eval r a) = Some (bdd_eval c a)"
    by (auto simp: leaf_and_def)
qed

lemma combine_or_spec:
  assumes inv: "registry_inv t" and r: "combine_or l r t = Inr (b, t')"
  shows "registry_inv t' \<and> reg_le t t' \<and>
     (registry_bounded t' \<longrightarrow>
        (\<forall>a. leaf_or t' (bdd_eval l a) (bdd_eval r a) = Some (bdd_eval b a)))"
proof (rule bdd_mt_apply2_leaves_pointwise
    [where S = "\<lambda>s x y z. leaf_or s x y = Some z" and comb = term_combine_or
       and opr = bddop_or, OF _ _ _ inv r [unfolded combine_or_def]])
  fix s s' x y z
  assume "leaf_or s x y = Some z" "registry_wf s" "reg_le s s'"
  then show "leaf_or s' x y = Some z" by (rule leaf_or_stable)
next
  fix x y s z s'
  assume "registry_inv s" "term_combine_or x y s = Inr (z, s')"
  then show "registry_inv s' \<and> reg_le s s' \<and> bdd_is_leaf z \<and>
     (registry_bounded s' \<longrightarrow> leaf_or s' x y = Some z)" by (rule term_combine_or_spec)
next
  fix l r c s a
  assume "apply_shortcut bddop_or l r = Some c"
  then have "c = bddtrue" "l = bddtrue \<or> r = bddtrue" by (auto split: if_splits)
  then show "leaf_or s (bdd_eval l a) (bdd_eval r a) = Some (bdd_eval c a)"
    by (auto simp: leaf_or_def)
qed


subsection \<open>The translation of until and weak until\<close>

lemma terminal_to_formula_cache [simp]:
  "terminal_to_formula (t\<lparr>formula_to_bdd_m := m\<rparr>) v = terminal_to_formula t v"
  by (simp add: terminal_to_formula_def Let_def)

lemma leaf_to_formula_cache [simp]:
  "leaf_to_formula (t\<lparr>formula_to_bdd_m := m\<rparr>) x = leaf_to_formula t x"
  by (simp add: leaf_to_formula_def)

lemma terminal_of_cache [simp]:
  "terminal_of (t\<lparr>formula_to_bdd_m := m\<rparr>) f b = terminal_of t f b"
  by (cases "formula_to_int_m t f") (simp_all add: terminal_of_def Let_def)

lemma leaf_and_cache [simp]:
  "leaf_and (t\<lparr>formula_to_bdd_m := m\<rparr>) x y = leaf_and t x y"
  by (auto simp: leaf_and_def split: sum.splits)

lemma leaf_or_cache [simp]:
  "leaf_or (t\<lparr>formula_to_bdd_m := m\<rparr>) x y = leaf_or t x y"
  by (auto simp: leaf_or_def split: sum.splits)

lemma registry_bounded_cache [simp]:
  "registry_bounded (t\<lparr>formula_to_bdd_m := m\<rparr>) = registry_bounded t"
  by (simp add: registry_bounded_def)

lemma until_chain:
  assumes wf: "registry_wf t"
    and nb: "\<not> has_boolean_top p" "p \<noteq> tt" "p \<noteq> ff"
    and Bg: "ltlf_to_mtbdd g t = Inr (Bg, t1)" and Bh: "ltlf_to_mtbdd h t1 = Inr (Bh, t2)"
    and tm: "formula_to_terminal_bdd p ms t2 = Inr (tm, t3)"
    and ca: "combine_and Bg tm t3 = Inr (c, t4)"
    and co: "combine_or Bh c t4 = Inr (b, t5)"
    and bd: "registry_bounded t5"
  shows "\<exists>n. formula_to_int_m t5 p = Some n \<and>
     tm = bdd_terminal (2 * n + (if ms then 1 else 0)) \<and>
     terminal_to_formula t5 (2 * n + (if ms then 1 else 0)) = Inr p \<and>
     terminal_of t5 p ms = Some tm \<and>
     (\<forall>a. \<exists>z. leaf_and t5 (bdd_eval Bg a) tm = Some z \<and>
            leaf_or t5 (bdd_eval Bh a) z = Some (bdd_eval b a))"
proof -
  from wf have i0: "registry_inv t" by (simp add: registry_inv_def)
  have i1: "registry_inv t1" by (rule ltlf_to_mtbdd_wf(1) [OF i0 Bg])
  have i2: "registry_inv t2" by (rule ltlf_to_mtbdd_wf(1) [OF i1 Bh])
  note st = formula_to_terminal_bdd_as_int_spec [OF i2 tm [unfolded formula_to_terminal_bdd_def]]
  then have i3: "registry_inv t3" and lf: "bdd_is_leaf tm" by simp_all
  note sa = combine_and_spec [OF i3 ca]
  then have i4: "registry_inv t4" and le34: "reg_le t3 t4" by simp_all
  note so = combine_or_spec [OF i4 co]
  then have i5: "registry_inv t5" and le45: "reg_le t4 t5" by simp_all
  have bd4: "registry_bounded t4" by (rule reg_le_bounded [OF le45 bd])
  have bd3: "registry_bounded t3" by (rule reg_le_bounded [OF le34 bd4])
  have wf3: "registry_wf t3" by (rule registry_inv_wf [OF i3 bd3])
  have wf4: "registry_wf t4" by (rule registry_inv_wf [OF i4 bd4])
  have le35: "reg_le t3 t5" by (rule reg_le_trans [OF le34 le45])
  from st bd3 have to3: "terminal_of t3 p ms = Some tm" by simp
  with nb obtain n where n3: "formula_to_int_m t3 p = Some n"
    by (auto simp: terminal_of_def split: option.splits)
  from registry_wfD1 [OF wf3 n3] nb(1) have n0: "0 \<le> n"
    and nn: "nat n < length (int_to_formula_m t3)" and self: "int_to_formula_m t3 ! nat n = p"
    by simp_all
  from to3 n3 self nb have tmv: "tm = bdd_terminal (2 * n + (if ms then 1 else 0))"
    by (simp add: terminal_of_def)
  have n5: "formula_to_int_m t5 p = Some n" by (rule reg_le_map [OF le35 n3])
  have to5: "terminal_of t5 p ms = Some tm" by (rule terminal_of_stable [OF to3 wf3 le35])
  have self5: "int_to_formula_m t5 ! nat n = p" using reg_le_nth [OF le35 nn] self by simp
  have nn5: "nat n < length (int_to_formula_m t5)" using reg_le_length [OF le35] nn by simp
  have "(2 * n + (if ms then 1 else 0)) sdiv 2 = n" using n0 by (simp add: sdiv2_nonneg)
  then have t2f: "terminal_to_formula t5 (2 * n + (if ms then 1 else 0)) = Inr p"
    using n0 nn5 self5 by (simp add: terminal_to_formula_def)
  have pw: "\<exists>z. leaf_and t5 (bdd_eval Bg a) tm = Some z \<and>
            leaf_or t5 (bdd_eval Bh a) z = Some (bdd_eval b a)" for a
  proof -
    from sa bd4 have "leaf_and t4 (bdd_eval Bg a) (bdd_eval tm a) = Some (bdd_eval c a)" by blast
    then have "leaf_and t4 (bdd_eval Bg a) tm = Some (bdd_eval c a)"
      using lf by (simp add: bdd_eval_is_leaf)
    from leaf_and_stable [OF this wf4 le45]
    have a: "leaf_and t5 (bdd_eval Bg a) tm = Some (bdd_eval c a)" .
    from so bd have "leaf_or t5 (bdd_eval Bh a) (bdd_eval c a) = Some (bdd_eval b a)" by blast
    with a show ?thesis by blast
  qed
  show ?thesis using n5 tmv t2f to5 pw by blast
qed

text \<open>
  Claim C3.  Let the diagram of \<open>g U h\<close> be computed (it is not cached yet) in a registry
  that satisfies its invariant, and let the registry hold at most \<open>2 ^ 30\<close> formulas
  afterwards.  Then \<open>B(g)\<close> and \<open>B(h)\<close> are computed in this order, \<open>g U h\<close> itself is
  interned under an identifier \<open>n\<close>, its terminal with the accepting bit unset is \<open>2 n\<close>,
  and under every valuation of the variables the leaf of \<open>B(g U h)\<close> is the disjunction
  of the leaf of \<open>B(h)\<close> with the conjunction of the leaf of \<open>B(g)\<close> and this terminal:
  the conjunction and the disjunction of two leaves are those of the spec, on the
  formulas and on the accepting bits of the leaves.  The same holds for \<open>g W h\<close> with the
  terminal \<open>2 n + 1\<close> of \<open>g W h\<close> itself, whose accepting bit is set: the two translations
  differ in the bit of the self-referential terminal only.
\<close>

theorem ltlf_to_mtbdd_until_weak_until:
  assumes wf: "registry_wf t"
  shows
    "(formula_to_bdd_m t (U g h) = None \<longrightarrow> ltlf_to_mtbdd (U g h) t = Inr (b, t') \<longrightarrow>
      registry_bounded t' \<longrightarrow>
        (\<exists>Bg t1 Bh t2 n. ltlf_to_mtbdd g t = Inr (Bg, t1) \<and> ltlf_to_mtbdd h t1 = Inr (Bh, t2) \<and>
           formula_to_int_m t' (U g h) = Some n \<and>
           terminal_to_formula t' (2 * n) = Inr (U g h) \<and>
           terminal_of t' (U g h) False = Some (bdd_terminal (2 * n)) \<and>
           (\<forall>a. \<exists>c. leaf_and t' (bdd_eval Bg a) (bdd_terminal (2 * n)) = Some c \<and>
                  leaf_or t' (bdd_eval Bh a) c = Some (bdd_eval b a)))) \<and>
     (formula_to_bdd_m t (W g h) = None \<longrightarrow> ltlf_to_mtbdd (W g h) t = Inr (b, t') \<longrightarrow>
      registry_bounded t' \<longrightarrow>
        (\<exists>Bg t1 Bh t2 n. ltlf_to_mtbdd g t = Inr (Bg, t1) \<and> ltlf_to_mtbdd h t1 = Inr (Bh, t2) \<and>
           formula_to_int_m t' (W g h) = Some n \<and>
           terminal_to_formula t' (2 * n + 1) = Inr (W g h) \<and>
           terminal_of t' (W g h) True = Some (bdd_terminal (2 * n + 1)) \<and>
           (\<forall>a. \<exists>c. leaf_and t' (bdd_eval Bg a) (bdd_terminal (2 * n + 1)) = Some c \<and>
                  leaf_or t' (bdd_eval Bh a) c = Some (bdd_eval b a))))"
proof (intro conjI impI)
  assume nc: "formula_to_bdd_m t (U g h) = None"
    and run: "ltlf_to_mtbdd (U g h) t = Inr (b, t')" and bd: "registry_bounded t'"
  from run nc obtain Bg t1 Bh t2 tm t3 c t4 t5 where
    Bg: "ltlf_to_mtbdd g t = Inr (Bg, t1)" and Bh: "ltlf_to_mtbdd h t1 = Inr (Bh, t2)"
    and tm: "formula_to_terminal_bdd (U g h) False t2 = Inr (tm, t3)"
    and ca: "combine_and Bg tm t3 = Inr (c, t4)" and co: "combine_or Bh c t4 = Inr (b, t5)"
    and t': "t' = t5\<lparr>formula_to_bdd_m := (formula_to_bdd_m t5)(U g h \<mapsto> b)\<rparr>"
    by (auto dest!: ltlf_to_mtbdd_storeD split: sum.splits)
  from bd have bd5: "registry_bounded t5" by (simp add: t')
  from until_chain [OF wf _ _ _ Bg Bh tm ca co bd5]
  obtain n where "formula_to_int_m t5 (U g h) = Some n" "tm = bdd_terminal (2 * n)"
    "terminal_to_formula t5 (2 * n) = Inr (U g h)" "terminal_of t5 (U g h) False = Some tm"
    "\<forall>a. \<exists>z. leaf_and t5 (bdd_eval Bg a) tm = Some z \<and>
            leaf_or t5 (bdd_eval Bh a) z = Some (bdd_eval b a)"
    by auto
  with Bg Bh show "\<exists>Bg t1 Bh t2 n. ltlf_to_mtbdd g t = Inr (Bg, t1) \<and>
           ltlf_to_mtbdd h t1 = Inr (Bh, t2) \<and>
           formula_to_int_m t' (U g h) = Some n \<and>
           terminal_to_formula t' (2 * n) = Inr (U g h) \<and>
           terminal_of t' (U g h) False = Some (bdd_terminal (2 * n)) \<and>
           (\<forall>a. \<exists>c. leaf_and t' (bdd_eval Bg a) (bdd_terminal (2 * n)) = Some c \<and>
                  leaf_or t' (bdd_eval Bh a) c = Some (bdd_eval b a))"
    unfolding t' by (intro exI [of _ Bg] exI [of _ t1] exI [of _ Bh] exI [of _ t2] exI [of _ n]) simp
next
  assume nc: "formula_to_bdd_m t (W g h) = None"
    and run: "ltlf_to_mtbdd (W g h) t = Inr (b, t')" and bd: "registry_bounded t'"
  from run nc obtain Bg t1 Bh t2 tm t3 c t4 t5 where
    Bg: "ltlf_to_mtbdd g t = Inr (Bg, t1)" and Bh: "ltlf_to_mtbdd h t1 = Inr (Bh, t2)"
    and tm: "formula_to_terminal_bdd (W g h) True t2 = Inr (tm, t3)"
    and ca: "combine_and Bg tm t3 = Inr (c, t4)" and co: "combine_or Bh c t4 = Inr (b, t5)"
    and t': "t' = t5\<lparr>formula_to_bdd_m := (formula_to_bdd_m t5)(W g h \<mapsto> b)\<rparr>"
    by (auto dest!: ltlf_to_mtbdd_storeD split: sum.splits)
  from bd have bd5: "registry_bounded t5" by (simp add: t')
  from until_chain [OF wf _ _ _ Bg Bh tm ca co bd5]
  obtain n where "formula_to_int_m t5 (W g h) = Some n" "tm = bdd_terminal (2 * n + 1)"
    "terminal_to_formula t5 (2 * n + 1) = Inr (W g h)" "terminal_of t5 (W g h) True = Some tm"
    "\<forall>a. \<exists>z. leaf_and t5 (bdd_eval Bg a) tm = Some z \<and>
            leaf_or t5 (bdd_eval Bh a) z = Some (bdd_eval b a)"
    by auto
  with Bg Bh show "\<exists>Bg t1 Bh t2 n. ltlf_to_mtbdd g t = Inr (Bg, t1) \<and>
           ltlf_to_mtbdd h t1 = Inr (Bh, t2) \<and>
           formula_to_int_m t' (W g h) = Some n \<and>
           terminal_to_formula t' (2 * n + 1) = Inr (W g h) \<and>
           terminal_of t' (W g h) True = Some (bdd_terminal (2 * n + 1)) \<and>
           (\<forall>a. \<exists>c. leaf_and t' (bdd_eval Bg a) (bdd_terminal (2 * n + 1)) = Some c \<and>
                  leaf_or t' (bdd_eval Bh a) c = Some (bdd_eval b a))"
    unfolding t' by (intro exI [of _ Bg] exI [of _ t1] exI [of _ Bh] exI [of _ t2] exI [of _ n]) simp
qed

definition formula_Xa_U_b :: formula where
  "formula_Xa_U_b = U (X (ap ''a'')) (ap ''b'')"

definition formula_Xa_W_b :: formula where
  "formula_Xa_W_b = W (X (ap ''a'')) (ap ''b'')"

lemma sum_resultE:
  assumes "map_sum id fst r = Inr x" "map_sum id (\<lambda>p. length (int_to_formula_m (snd p))) r = Inr k"
  obtains t' where "r = Inr (x, t')" "length (int_to_formula_m t') = k"
  using assms by (cases r) auto

theorem ltlf_to_mtbdd_until_weak_until_witness:
  "registry_wf translator0 \<and>
   formula_to_bdd_m translator0 formula_Xa_U_b = None \<and>
   formula_to_bdd_m translator0 formula_Xa_W_b = None \<and>
   (\<exists>t'. ltlf_to_mtbdd formula_Xa_U_b translator0 = Inr (bdd_node 0 (bdd_terminal 4) bddtrue, t') \<and>
      registry_bounded t' \<and>
      (\<exists>Bg t1 Bh t2 n. ltlf_to_mtbdd (X (ap ''a'')) translator0 = Inr (Bg, t1) \<and>
         ltlf_to_mtbdd (ap ''b'') t1 = Inr (Bh, t2) \<and>
         formula_to_int_m t' formula_Xa_U_b = Some n \<and>
         terminal_to_formula t' (2 * n) = Inr formula_Xa_U_b \<and>
         (\<forall>a. \<exists>c. leaf_and t' (bdd_eval Bg a) (bdd_terminal (2 * n)) = Some c \<and>
            leaf_or t' (bdd_eval Bh a) c =
              Some (bdd_eval (bdd_node 0 (bdd_terminal 4) bddtrue) a)))) \<and>
   (\<exists>t'. ltlf_to_mtbdd formula_Xa_W_b translator0 = Inr (bdd_node 0 (bdd_terminal 5) bddtrue, t') \<and>
      registry_bounded t' \<and>
      (\<exists>Bg t1 Bh t2 n. ltlf_to_mtbdd (X (ap ''a'')) translator0 = Inr (Bg, t1) \<and>
         ltlf_to_mtbdd (ap ''b'') t1 = Inr (Bh, t2) \<and>
         formula_to_int_m t' formula_Xa_W_b = Some n \<and>
         terminal_to_formula t' (2 * n + 1) = Inr formula_Xa_W_b \<and>
         (\<forall>a. \<exists>c. leaf_and t' (bdd_eval Bg a) (bdd_terminal (2 * n + 1)) = Some c \<and>
            leaf_or t' (bdd_eval Bh a) c =
              Some (bdd_eval (bdd_node 0 (bdd_terminal 5) bddtrue) a))))"
proof -
  have wf: "registry_wf translator0" by (simp add: translator0_def registry_wf_new)
  have nu: "formula_to_bdd_m translator0 formula_Xa_U_b = None"
    and nw: "formula_to_bdd_m translator0 formula_Xa_W_b = None"
    by (simp_all add: translator0_def new_ltlf_translator_def)
  have "map_sum id fst (ltlf_to_mtbdd formula_Xa_U_b translator0) =
      Inr (bdd_node 0 (bdd_terminal 4) bddtrue)" by code_simp
  moreover have "map_sum id (\<lambda>p. length (int_to_formula_m (snd p)))
      (ltlf_to_mtbdd formula_Xa_U_b translator0) = Inr 3" by code_simp
  ultimately obtain tu where
    ru: "ltlf_to_mtbdd formula_Xa_U_b translator0 = Inr (bdd_node 0 (bdd_terminal 4) bddtrue, tu)"
    and lu: "length (int_to_formula_m tu) = 3" by (rule sum_resultE)
  have "map_sum id fst (ltlf_to_mtbdd formula_Xa_W_b translator0) =
      Inr (bdd_node 0 (bdd_terminal 5) bddtrue)" by code_simp
  moreover have "map_sum id (\<lambda>p. length (int_to_formula_m (snd p)))
      (ltlf_to_mtbdd formula_Xa_W_b translator0) = Inr 3" by code_simp
  ultimately obtain tw where
    rw: "ltlf_to_mtbdd formula_Xa_W_b translator0 = Inr (bdd_node 0 (bdd_terminal 5) bddtrue, tw)"
    and lw: "length (int_to_formula_m tw) = 3" by (rule sum_resultE)
  have bu: "registry_bounded tu" and bw: "registry_bounded tw"
    by (simp_all add: registry_bounded_def lu lw)
  note u = conjunct1 [OF ltlf_to_mtbdd_until_weak_until [OF wf,
        of "X (ap ''a'')" "ap ''b''" "bdd_node 0 (bdd_terminal 4) bddtrue" tu]]
  note w = conjunct2 [OF ltlf_to_mtbdd_until_weak_until [OF wf,
        of "X (ap ''a'')" "ap ''b''" "bdd_node 0 (bdd_terminal 5) bddtrue" tw]]
  from u nu ru bu have U: "\<exists>Bg t1 Bh t2 n. ltlf_to_mtbdd (X (ap ''a'')) translator0 = Inr (Bg, t1) \<and>
         ltlf_to_mtbdd (ap ''b'') t1 = Inr (Bh, t2) \<and>
         formula_to_int_m tu formula_Xa_U_b = Some n \<and>
         terminal_to_formula tu (2 * n) = Inr formula_Xa_U_b \<and>
         (\<forall>a. \<exists>c. leaf_and tu (bdd_eval Bg a) (bdd_terminal (2 * n)) = Some c \<and>
            leaf_or tu (bdd_eval Bh a) c =
              Some (bdd_eval (bdd_node 0 (bdd_terminal 4) bddtrue) a))"
    unfolding formula_Xa_U_b_def by blast
  from w nw rw bw have W: "\<exists>Bg t1 Bh t2 n. ltlf_to_mtbdd (X (ap ''a'')) translator0 = Inr (Bg, t1) \<and>
         ltlf_to_mtbdd (ap ''b'') t1 = Inr (Bh, t2) \<and>
         formula_to_int_m tw formula_Xa_W_b = Some n \<and>
         terminal_to_formula tw (2 * n + 1) = Inr formula_Xa_W_b \<and>
         (\<forall>a. \<exists>c. leaf_and tw (bdd_eval Bg a) (bdd_terminal (2 * n + 1)) = Some c \<and>
            leaf_or tw (bdd_eval Bh a) c =
              Some (bdd_eval (bdd_node 0 (bdd_terminal 5) bddtrue) a))"
    unfolding formula_Xa_W_b_def by blast
  from wf nu nw ru bu U rw bw W show ?thesis by blast
qed


section \<open>The back-propagation graph\<close>

text \<open>
  The vertices of \<open>backprop_graph\<close>.  The counter is an \<open>unsigned\<close> of 32 bits: the
  increment and the decrement wrap around.  The class keeps, beside the vertices, the
  reverse adjacency lists and the flag \<open>stop_asap_\<close>.  Modelled from the spec (section 3,
  back-propagation graph): the declaration of the class is not part of the sources; a new
  vertex is undetermined, not frozen, and has no edge, and the successors of a vertex of
  the reverse graph are enumerated in the order in which they were declared.
\<close>

record backprop_state =
  owner :: bool
  frozen :: bool
  determined :: bool
  winner :: bool
  choice :: nat
  counter :: nat

record backprop_graph =
  vertices :: "backprop_state list"
  reverse_m :: "nat list list"
  stop_asap_m :: bool

definition new_backprop_graph :: "bool \<Rightarrow> backprop_graph" where
  "new_backprop_graph stop_asap = \<lparr> vertices = [], reverse_m = [], stop_asap_m = stop_asap \<rparr>"

definition new_state :: "bool \<Rightarrow> backprop_graph \<Rightarrow> nat \<times> backprop_graph" where
  "new_state own g =
     (length (vertices g),
      g\<lparr>vertices := vertices g @
           [\<lparr>owner = own, frozen = False, determined = False, winner = False, choice = 0,
             counter = 0\<rparr>],
        reverse_m := reverse_m g @ [[]]\<rparr>)"

definition in_graph :: "backprop_graph \<Rightarrow> nat \<Rightarrow> bool" where
  "in_graph g v = (v < length (vertices g) \<and> v < length (reverse_m g))"

definition is_determined :: "backprop_graph \<Rightarrow> nat \<Rightarrow> bool" where
  "is_determined g v = determined (vertices g ! v)"

definition is_frozen :: "backprop_graph \<Rightarrow> nat \<Rightarrow> bool" where
  "is_frozen g v = frozen (vertices g ! v)"

text \<open>The result of the loop over the predecessors of a vertex in \<open>set_winner\<close>: either
  the function returns true at once, or the loop ends with the graph, the queue and the
  result so far.\<close>

datatype propagation = Return_true backprop_graph | Continue backprop_graph "nat list" bool

fun set_winner_preds ::
  "bool \<Rightarrow> nat \<Rightarrow> nat list \<Rightarrow> backprop_graph \<Rightarrow> nat list \<Rightarrow> bool \<Rightarrow> error + propagation"
where
  "set_winner_preds w s [] g todo result = Inr (Continue g todo result)"
| "set_winner_preds w s (p # ps) g todo result =
     (if \<not> in_graph g p then Inl Out_of_range
      else
        (let prev = vertices g ! p in
         if determined prev then set_winner_preds w s ps g todo result
         else
           (let exist_choice = (owner prev = w);
                prev1 = (if exist_choice then prev
                         else prev\<lparr>counter := (counter prev + 2 ^ 32 - 1) mod 2 ^ 32\<rparr>)
            in if exist_choice \<or> (counter prev1 = 0 \<and> frozen prev1) then
                 (let prev2 = prev1\<lparr>determined := True, winner := w,
                                    choice := (if exist_choice then s else choice prev1)\<rparr>;
                      g2 = g\<lparr>vertices := (vertices g)[p := prev2]\<rparr>
                  in if p = 0 then
                       (if stop_asap_m g then Inr (Return_true g2)
                        else set_winner_preds w s ps g2 (todo @ [p]) True)
                     else set_winner_preds w s ps g2 (todo @ [p]) result)
               else
                 set_winner_preds w s ps (g\<lparr>vertices := (vertices g)[p := prev1]\<rparr>)
                   todo result)))"

definition undetermined_count :: "backprop_graph \<Rightarrow> nat" where
  "undetermined_count g = length (filter (\<lambda>v. \<not> determined v) (vertices g))"

lemma undetermined_count_update:
  "p < length (vertices g) \<Longrightarrow> \<not> determined (vertices g ! p) \<Longrightarrow> determined v \<Longrightarrow>
   Suc (undetermined_count (g\<lparr>vertices := (vertices g)[p := v]\<rparr>)) = undetermined_count g"
proof -
  assume p: "p < length (vertices g)" and u: "\<not> determined (vertices g ! p)" and d: "determined v"
  let ?xs = "vertices g"
  have xs: "?xs = take p ?xs @ ?xs ! p # drop (Suc p) ?xs" using p by (simp add: id_take_nth_drop)
  have up: "?xs[p := v] = take p ?xs @ v # drop (Suc p) ?xs" using p by (simp add: upd_conv_take_nth_drop)
  have "length (filter (\<lambda>v. \<not> determined v) ?xs) =
     length (filter (\<lambda>v. \<not> determined v) (take p ?xs)) + 1 +
     length (filter (\<lambda>v. \<not> determined v) (drop (Suc p) ?xs))"
    by (subst xs) (simp add: u)
  moreover have "length (filter (\<lambda>v. \<not> determined v) (?xs[p := v])) =
     length (filter (\<lambda>v. \<not> determined v) (take p ?xs)) +
     length (filter (\<lambda>v. \<not> determined v) (drop (Suc p) ?xs))"
    by (subst up) (simp add: d)
  ultimately show ?thesis by (simp add: undetermined_count_def)
qed

lemma undetermined_count_same:
  "p < length (vertices g) \<Longrightarrow> determined v = determined (vertices g ! p) \<Longrightarrow>
   undetermined_count (g\<lparr>vertices := (vertices g)[p := v]\<rparr>) = undetermined_count g"
proof -
  assume p: "p < length (vertices g)" and u: "determined v = determined (vertices g ! p)"
  let ?xs = "vertices g"
  have xs: "?xs = take p ?xs @ ?xs ! p # drop (Suc p) ?xs" using p by (simp add: id_take_nth_drop)
  have up: "?xs[p := v] = take p ?xs @ v # drop (Suc p) ?xs" using p by (simp add: upd_conv_take_nth_drop)
  have "filter (\<lambda>v. \<not> determined v) ?xs =
     filter (\<lambda>v. \<not> determined v) (take p ?xs) @ filter (\<lambda>v. \<not> determined v) [?xs ! p] @
     filter (\<lambda>v. \<not> determined v) (drop (Suc p) ?xs)"
    by (subst xs) simp
  moreover have "filter (\<lambda>v. \<not> determined v) (?xs[p := v]) =
     filter (\<lambda>v. \<not> determined v) (take p ?xs) @ filter (\<lambda>v. \<not> determined v) [v] @
     filter (\<lambda>v. \<not> determined v) (drop (Suc p) ?xs)"
    by (subst up) simp
  ultimately show ?thesis using u by (simp add: undetermined_count_def)
qed

lemma set_winner_preds_measure:
  "set_winner_preds w s ps g todo result = Inr (Continue g' todo' result') \<Longrightarrow>
   2 * undetermined_count g' + length todo' \<le> 2 * undetermined_count g + length todo \<and>
   reverse_m g' = reverse_m g"
proof (induction ps arbitrary: g todo result)
  case Nil
  then show ?case by simp
next
  case (Cons p ps)
  from Cons.prems have ig: "in_graph g p" by (auto split: if_splits)
  then have p: "p < length (vertices g)" by (simp add: in_graph_def)
  let ?prev = "vertices g ! p"
  show ?case
  proof (cases "determined ?prev")
    case True
    with Cons.prems ig have "set_winner_preds w s ps g todo result = Inr (Continue g' todo' result')"
      by (simp add: Let_def)
    from Cons.IH [OF this] show ?thesis .
  next
    case False
    let ?prev1 = "if owner ?prev = w then ?prev
                  else ?prev\<lparr>counter := (counter ?prev + 2 ^ 32 - 1) mod 2 ^ 32\<rparr>"
    show ?thesis
    proof (cases "owner ?prev = w \<or> (counter ?prev1 = 0 \<and> frozen ?prev1)")
      case det: True
      let ?prev2 = "?prev1\<lparr>determined := True, winner := w,
                      choice := (if owner ?prev = w then s else choice ?prev1)\<rparr>"
      let ?g2 = "g\<lparr>vertices := (vertices g)[p := ?prev2]\<rparr>"
      from Cons.prems ig False det obtain r where
        rec: "set_winner_preds w s ps ?g2 (todo @ [p]) r = Inr (Continue g' todo' result')"
        by (auto simp: Let_def split: if_splits)
      have "Suc (undetermined_count ?g2) = undetermined_count g"
        by (rule undetermined_count_update [OF p False]) simp
      with Cons.IH [OF rec] show ?thesis by simp
    next
      case nodet: False
      let ?g1 = "g\<lparr>vertices := (vertices g)[p := ?prev1]\<rparr>"
      from Cons.prems ig False nodet have
        rec: "set_winner_preds w s ps ?g1 todo result = Inr (Continue g' todo' result')"
        by (auto simp: Let_def split: if_splits)
      have "undetermined_count ?g1 = undetermined_count g"
        by (rule undetermined_count_same [OF p]) simp
      with Cons.IH [OF rec] show ?thesis by simp
    qed
  qed
qed

function set_winner_loop :: "bool \<Rightarrow> nat list \<Rightarrow> bool \<Rightarrow> backprop_graph \<Rightarrow> error + bool \<times> backprop_graph"
where
  "set_winner_loop w [] result g = Inr (result, g)"
| "set_winner_loop w (s # todo) result g =
     (if \<not> in_graph g s then Inl Out_of_range
      else
        (case set_winner_preds w s (reverse_m g ! s) g todo result of
           Inl e \<Rightarrow> Inl e
         | Inr (Return_true g') \<Rightarrow> Inr (True, g')
         | Inr (Continue g' todo' result') \<Rightarrow> set_winner_loop w todo' result' g'))"
  by pat_completeness auto
termination
proof (relation "measure (\<lambda>(w, todo, result, g). 2 * undetermined_count g + length todo)")
  show "wf (measure (\<lambda>(w, todo, result, g). 2 * undetermined_count g + length todo))" by simp
next
  fix w s todo result g x2 g' todo' result'
  assume "set_winner_preds w s (reverse_m g ! s) g todo result = Inr x2"
    and "x2 = Continue g' todo' result'"
  then have "2 * undetermined_count g' + length todo' \<le> 2 * undetermined_count g + length todo"
    using set_winner_preds_measure by blast
  then show "((w, todo', result', g'), w, s # todo, result, g)
       \<in> measure (\<lambda>(w, todo, result, g). 2 * undetermined_count g + length todo)"
    by simp
qed

definition set_winner :: "nat \<Rightarrow> bool \<Rightarrow> nat \<Rightarrow> backprop_graph \<Rightarrow> error + bool \<times> backprop_graph" where
  "set_winner state w choice_state g =
     (if \<not> in_graph g state then Inl Out_of_range
      else if determined (vertices g ! state) then Inl Already_determined
      else
        set_winner_loop w [state] False
          (g\<lparr>vertices := (vertices g)[state := (vertices g ! state)
                \<lparr>determined := True, winner := w, choice := choice_state\<rparr>]\<rparr>))"

definition new_edge :: "nat \<Rightarrow> nat \<Rightarrow> backprop_graph \<Rightarrow> error + bool \<times> backprop_graph" where
  "new_edge src dst g =
     (if \<not> in_graph g src then Inl Out_of_range
      else
        (let ss = vertices g ! src in
         if frozen ss then Inl Frozen_state
         else if determined ss then Inr (False, g)
         else if \<not> in_graph g dst then Inl Out_of_range
         else
           (let ds = vertices g ! dst in
            if \<not> determined ds then
              Inr (False,
                   g\<lparr>reverse_m := (reverse_m g)[dst := reverse_m g ! dst @ [src]],
                     vertices := (vertices g)[src := ss\<lparr>counter := (counter ss + 1) mod 2 ^ 32\<rparr>]\<rparr>)
            else if owner ss = winner ds then set_winner src (owner ss) dst g
            else Inr (False, g))))"

definition freeze_state :: "nat \<Rightarrow> backprop_graph \<Rightarrow> error + bool \<times> backprop_graph" where
  "freeze_state state g =
     (if \<not> in_graph g state then Inl Out_of_range
      else
        (let g1 = g\<lparr>vertices := (vertices g)[state := (vertices g ! state)\<lparr>frozen := True\<rparr>]\<rparr>;
             ss = vertices g1 ! state
         in if \<not> determined ss \<and> counter ss = 0 then set_winner state (\<not> owner ss) 0 g1
            else Inr (False, g1)))"

section \<open>Invariants of the back-propagation\<close>

definition own :: "backprop_graph \<Rightarrow> nat \<Rightarrow> bool" where
  "own g v = owner (vertices g ! v)"

definition win :: "backprop_graph \<Rightarrow> nat \<Rightarrow> bool" where
  "win g v = winner (vertices g ! v)"

definition cnt :: "backprop_graph \<Rightarrow> nat \<Rightarrow> nat" where
  "cnt g v = counter (vertices g ! v)"

text \<open>The number of declared edges of a vertex that lead to a vertex that is undetermined,
  or determined and still in the queue of \<open>set_winner\<close>.\<close>

definition pend :: "backprop_graph \<Rightarrow> nat set \<Rightarrow> (nat \<times> nat) list \<Rightarrow> nat \<Rightarrow> nat" where
  "pend g T E v =
     length (filter (\<lambda>e. fst e = v \<and> (\<not> is_determined g (snd e) \<or> snd e \<in> T)) E)"

definition shape_inv :: "backprop_graph \<Rightarrow> (nat \<times> nat) list \<Rightarrow> nat set \<Rightarrow> nat set \<Rightarrow> bool" where
  "shape_inv g E Z T =
     (length (reverse_m g) = length (vertices g) \<and>
      (\<forall>e\<in>set E. fst e < length (vertices g) \<and> snd e < length (vertices g)) \<and>
      (\<forall>d<length (vertices g). \<forall>p\<in>set (reverse_m g ! d). p < length (vertices g)) \<and>
      (\<forall>x\<in>Z. x < length (vertices g) \<and> is_determined g x) \<and>
      (\<forall>t\<in>T. t < length (vertices g) \<and> is_determined g t))"

definition counter_ok ::
  "backprop_graph \<Rightarrow> (nat \<times> nat) list \<Rightarrow> nat set \<Rightarrow> nat list \<Rightarrow> nat \<Rightarrow> bool" where
  "counter_ok g E T ps v =
     (cnt g v = pend g T E v + count_list ps v \<and> cnt g v < 2 ^ 32 \<and>
      (is_frozen g v \<longrightarrow> cnt g v \<noteq> 0))"

definition counter_inv :: "backprop_graph \<Rightarrow> (nat \<times> nat) list \<Rightarrow> nat set \<Rightarrow> nat list \<Rightarrow> bool" where
  "counter_inv g E T ps =
     (\<forall>v<length (vertices g). \<not> is_determined g v \<longrightarrow> counter_ok g E T ps v)"

definition edge_inv ::
  "backprop_graph \<Rightarrow> (nat \<times> nat) list \<Rightarrow> nat set \<Rightarrow> nat \<Rightarrow> nat list \<Rightarrow> bool" where
  "edge_inv g E T s ps =
     (\<forall>e\<in>set E. \<not> is_determined g (fst e) \<and> is_determined g (snd e) \<and> snd e \<notin> T \<longrightarrow>
        win g (snd e) \<noteq> own g (fst e) \<or> (snd e = s \<and> fst e \<in> set ps))"

definition reverse_inv :: "backprop_graph \<Rightarrow> (nat \<times> nat) list \<Rightarrow> nat set \<Rightarrow> bool" where
  "reverse_inv g E T =
     (\<forall>v<length (vertices g). \<forall>d<length (vertices g).
        \<not> is_determined g v \<and> (\<not> is_determined g d \<or> d \<in> T) \<longrightarrow>
        count_list (reverse_m g ! d) v = count_list E (v, d))"

definition just_ok :: "backprop_graph \<Rightarrow> (nat \<times> nat) list \<Rightarrow> nat \<Rightarrow> bool" where
  "just_ok g E v =
     (if win g v = own g v
      then \<exists>d. (v, d) \<in> set E \<and> is_determined g d \<and> win g d = own g v
      else is_frozen g v \<and>
           (\<forall>d. (v, d) \<in> set E \<longrightarrow> is_determined g d \<and> win g d \<noteq> own g v))"

definition justified :: "backprop_graph \<Rightarrow> (nat \<times> nat) list \<Rightarrow> nat set \<Rightarrow> bool" where
  "justified g E Z =
     (\<forall>v<length (vertices g). is_determined g v \<and> v \<notin> Z \<longrightarrow> just_ok g E v)"

text \<open>The invariant inside the loop over the predecessors \<open>ps\<close> that remain for the vertex
  \<open>s\<close>, the queue holding the set \<open>T\<close>.\<close>

definition preds_inv ::
  "backprop_graph \<Rightarrow> (nat \<times> nat) list \<Rightarrow> nat set \<Rightarrow> nat set \<Rightarrow> bool \<Rightarrow> nat \<Rightarrow> nat list \<Rightarrow> bool"
where
  "preds_inv g E Z T w s ps =
     (shape_inv g E Z T \<and> counter_inv g E T ps \<and> edge_inv g E T s ps \<and>
      reverse_inv g E T \<and> justified g E Z \<and>
      s < length (vertices g) \<and> is_determined g s \<and> win g s = w \<and> s \<notin> T \<and>
      (\<forall>t\<in>T. win g t = w) \<and>
      (\<forall>q\<in>set ps. q < length (vertices g) \<and> (\<not> is_determined g q \<longrightarrow> (q, s) \<in> set E)))"

definition queue_inv ::
  "backprop_graph \<Rightarrow> (nat \<times> nat) list \<Rightarrow> nat set \<Rightarrow> nat list \<Rightarrow> bool \<Rightarrow> bool" where
  "queue_inv g E Z todo w =
     (shape_inv g E Z (set todo) \<and> counter_inv g E (set todo) [] \<and>
      edge_inv g E (set todo) 0 [] \<and> reverse_inv g E (set todo) \<and> justified g E Z \<and>
      distinct todo \<and> (\<forall>t\<in>set todo. win g t = w))"

definition arena_inv :: "backprop_graph \<Rightarrow> (nat \<times> nat) list \<Rightarrow> nat set \<Rightarrow> bool" where
  "arena_inv g E Z = queue_inv g E Z [] False"

text \<open>Updating one vertex.\<close>

definition upd :: "backprop_graph \<Rightarrow> nat \<Rightarrow> backprop_state \<Rightarrow> backprop_graph" where
  "upd g p x = g\<lparr>vertices := (vertices g)[p := x]\<rparr>"

lemma upd_simps [simp]:
  "length (vertices (upd g p x)) = length (vertices g)"
  "reverse_m (upd g p x) = reverse_m g"
  "stop_asap_m (upd g p x) = stop_asap_m g"
  by (simp_all add: upd_def)

lemma upd_same [simp]:
  "p < length (vertices g) \<Longrightarrow> vertices (upd g p x) ! p = x"
  by (simp add: upd_def)

lemma upd_other [simp]:
  "v \<noteq> p \<Longrightarrow> vertices (upd g p x) ! v = vertices g ! v"
  by (simp add: upd_def)

lemma pend_cong:
  assumes "\<And>e. e \<in> set E \<Longrightarrow> fst e = v \<Longrightarrow>
     (\<not> is_determined g' (snd e) \<or> snd e \<in> T') = (\<not> is_determined g (snd e) \<or> snd e \<in> T)"
  shows "pend g' T' E v = pend g T E v"
  unfolding pend_def
  by (rule arg_cong [where f = length]) (rule filter_cong, simp, use assms in blast)

lemma pend_zero:
  "pend g T E v = 0 \<Longrightarrow> (v, d) \<in> set E \<Longrightarrow> is_determined g d \<and> d \<notin> T"
  unfolding pend_def by (auto simp: filter_empty_conv)

lemma pend_le: "pend g T E v \<le> length E"
  unfolding pend_def by simp

lemma pend_split:
  assumes "is_determined g s" "s \<in> T"
  shows "pend g T E v = pend g (T - {s}) E v + count_list E (v, s)"
  using assms unfolding pend_def
proof (induction E)
  case Nil
  then show ?case by simp
next
  case (Cons e E)
  then show ?case by (cases e) auto
qed

lemma counter_ok_cong:
  "counter_ok g E T ps v \<Longrightarrow> cnt g' v = cnt g v \<Longrightarrow> pend g' T' E' v = pend g T E v \<Longrightarrow>
   count_list ps' v = count_list ps v \<Longrightarrow> is_frozen g' v = is_frozen g v \<Longrightarrow>
   counter_ok g' E' T' ps' v"
  by (auto simp: counter_ok_def)

lemma counter_invD:
  "counter_inv g E T ps \<Longrightarrow> v < length (vertices g) \<Longrightarrow> \<not> is_determined g v \<Longrightarrow>
   counter_ok g E T ps v"
  unfolding counter_inv_def by blast

lemma justifiedD:
  "justified g E Z \<Longrightarrow> v < length (vertices g) \<Longrightarrow> is_determined g v \<Longrightarrow> v \<notin> Z \<Longrightarrow>
   just_ok g E v"
  unfolding justified_def by blast

lemma edge_invD:
  "edge_inv g E T s ps \<Longrightarrow> (v, d) \<in> set E \<Longrightarrow> \<not> is_determined g v \<Longrightarrow>
   is_determined g d \<Longrightarrow> d \<notin> T \<Longrightarrow> win g d \<noteq> own g v \<or> (d = s \<and> v \<in> set ps)"
  unfolding edge_inv_def by force

lemma just_ok_mono:
  assumes j: "just_ok g E v"
    and d: "\<And>d. (v, d) \<in> set E \<Longrightarrow> is_determined g d \<Longrightarrow>
              is_determined g' d \<and> win g' d = win g d"
    and v: "win g' v = win g v" "own g' v = own g v" "is_frozen g v \<Longrightarrow> is_frozen g' v"
    and E: "\<And>d. ((v, d) \<in> set E') = ((v, d) \<in> set E)"
  shows "just_ok g' E' v"
proof (cases "win g v = own g v")
  case True
  with j obtain d where "(v, d) \<in> set E" "is_determined g d" "win g d = own g v"
    by (auto simp: just_ok_def)
  with d [of d] have "(v, d) \<in> set E' \<and> is_determined g' d \<and> win g' d = own g' v"
    using v E by simp
  then show ?thesis using True v by (auto simp: just_ok_def)
next
  case False
  with j have fr: "is_frozen g v"
    and al: "\<And>d. (v, d) \<in> set E \<Longrightarrow> is_determined g d \<and> win g d \<noteq> own g v"
    by (auto simp: just_ok_def)
  have "is_determined g' d \<and> win g' d \<noteq> own g' v" if "(v, d) \<in> set E'" for d
  proof -
    from that have e: "(v, d) \<in> set E" by (simp add: E)
    show ?thesis using al [OF e] d [OF e] v by simp
  qed
  then show ?thesis using False v fr by (simp add: just_ok_def)
qed

lemma preds_inv_skip:
  assumes inv: "preds_inv g E Z T w s (p # ps)" and d: "is_determined g p"
  shows "preds_inv g E Z T w s ps"
proof -
  from inv have ci: "counter_inv g E T (p # ps)" and ei: "edge_inv g E T s (p # ps)"
    unfolding preds_inv_def by simp_all
  have c: "counter_inv g E T ps"
    unfolding counter_inv_def
  proof (intro allI impI)
    fix v assume v: "v < length (vertices g)" and nd: "\<not> is_determined g v"
    then have "v \<noteq> p" using d by auto
    then show "counter_ok g E T ps v"
      using counter_invD [OF ci v nd] by (auto simp: counter_ok_def)
  qed
  have e: "edge_inv g E T s ps"
    unfolding edge_inv_def
  proof (intro ballI impI)
    fix e assume e: "e \<in> set E"
      and h: "\<not> is_determined g (fst e) \<and> is_determined g (snd e) \<and> snd e \<notin> T"
    then have "fst e \<noteq> p" using d by auto
    moreover from ei e h have "win g (snd e) \<noteq> own g (fst e) \<or>
        (snd e = s \<and> fst e \<in> set (p # ps))"
      unfolding edge_inv_def by blast
    ultimately show "win g (snd e) \<noteq> own g (fst e) \<or> (snd e = s \<and> fst e \<in> set ps)"
      by auto
  qed
  show ?thesis using inv c e unfolding preds_inv_def by simp
qed

lemma preds_inv_determine:
  assumes inv: "preds_inv g E Z T w s (p # ps)" and u: "\<not> is_determined g p"
    and x: "determined x" "winner x = w" "owner x = own g p" "frozen x = is_frozen g p"
    and why: "own g p = w \<or> (is_frozen g p \<and> pend g T E p = 0)"
  shows "preds_inv (upd g p x) E Z (insert p T) w s ps"
proof -
  let ?g = "upd g p x"
  from inv have sh: "shape_inv g E Z T" and ci: "counter_inv g E T (p # ps)"
    and ei: "edge_inv g E T s (p # ps)" and ri: "reverse_inv g E T" and ju: "justified g E Z"
    and s: "s < length (vertices g)" "is_determined g s" "win g s = w" "s \<notin> T"
    and tw: "\<forall>t\<in>T. win g t = w"
    and qs: "\<forall>q\<in>set (p # ps). q < length (vertices g) \<and> (\<not> is_determined g q \<longrightarrow> (q, s) \<in> set E)"
    unfolding preds_inv_def by simp_all
  from qs have p: "p < length (vertices g)" and ps: "(p, s) \<in> set E" using u by simp_all
  have pT: "p \<notin> T" and pZ: "p \<notin> Z" and pns: "p \<noteq> s"
    using sh u s(2) unfolding shape_inv_def by auto
  have D: "is_determined ?g v = (v = p \<or> is_determined g v)" for v
    using p x(1) by (cases "v = p") (simp_all add: is_determined_def)
  have W: "win ?g v = (if v = p then w else win g v)" for v
    using p x(2) by (cases "v = p") (simp_all add: win_def)
  have O: "own ?g v = own g v" for v
    using p x(3) by (cases "v = p") (simp_all add: own_def)
  have Fz: "is_frozen ?g v = is_frozen g v" for v
    using p x(4) by (cases "v = p") (simp_all add: is_frozen_def)
  have C: "v \<noteq> p \<Longrightarrow> cnt ?g v = cnt g v" for v
    by (simp add: cnt_def)
  have P: "pend ?g (insert p T) E v = pend g T E v" for v
    by (rule pend_cong) (use D u in auto)
  have 1: "shape_inv ?g E Z (insert p T)"
    using sh p unfolding shape_inv_def by (simp add: D)
  have 2: "counter_inv ?g E (insert p T) ps"
    unfolding counter_inv_def
  proof (intro allI impI)
    fix v assume "v < length (vertices ?g)" and nd: "\<not> is_determined ?g v"
    then have v: "v < length (vertices g)" and vp: "v \<noteq> p" and ndg: "\<not> is_determined g v"
      by (simp_all add: D)
    show "counter_ok ?g E (insert p T) ps v"
      by (rule counter_ok_cong [OF counter_invD [OF ci v ndg]]) (use vp in \<open>simp_all add: C P Fz\<close>)
  qed
  have 3: "edge_inv ?g E (insert p T) s ps"
    unfolding edge_inv_def
  proof (intro ballI impI)
    fix e assume e: "e \<in> set E"
      and h: "\<not> is_determined ?g (fst e) \<and> is_determined ?g (snd e) \<and> snd e \<notin> insert p T"
    then have a: "fst e \<noteq> p" "\<not> is_determined g (fst e)" "snd e \<noteq> p" "is_determined g (snd e)"
      "snd e \<notin> T" by (auto simp: D)
    with ei e have "win g (snd e) \<noteq> own g (fst e) \<or> (snd e = s \<and> fst e \<in> set (p # ps))"
      unfolding edge_inv_def by blast
    then show "win ?g (snd e) \<noteq> own ?g (fst e) \<or> (snd e = s \<and> fst e \<in> set ps)"
      using a by (auto simp: W O)
  qed
  have 4: "reverse_inv ?g E (insert p T)"
    using ri u unfolding reverse_inv_def by (auto simp: D)
  have 5: "justified ?g E Z"
    unfolding justified_def
  proof (intro allI impI)
    fix v assume "v < length (vertices ?g)" and h: "is_determined ?g v \<and> v \<notin> Z"
    then have v: "v < length (vertices g)" by simp
    show "just_ok ?g E v"
    proof (cases "v = p")
      case True
      show ?thesis
      proof (cases "own g p = w")
        case ow: True
        have "(p, s) \<in> set E \<and> is_determined ?g s \<and> win ?g s = own ?g p"
          using ps s pns ow by (simp add: D W O)
        then show ?thesis using True ow by (auto simp: W O just_ok_def)
      next
        case ow: False
        with why have fr: "is_frozen g p" and z: "pend g T E p = 0" by simp_all
        have "is_determined ?g d \<and> win ?g d \<noteq> own ?g p" if d: "(p, d) \<in> set E" for d
        proof -
          from pend_zero [OF z d] have dd: "is_determined g d" "d \<notin> T" by simp_all
          then have dp: "d \<noteq> p" using u by auto
          from edge_invD [OF ei d u dd] have "win g d \<noteq> own g p \<or> d = s" by blast
          then have "win g d \<noteq> own g p" using s(3) ow by auto
          then show ?thesis using dd dp by (simp add: D W O)
        qed
        then show ?thesis using True ow fr by (simp add: W O Fz just_ok_def)
      qed
    next
      case False
      with h have hv: "is_determined g v" "v \<notin> Z" by (simp_all add: D)
      show ?thesis
      proof (rule just_ok_mono [OF justifiedD [OF ju v hv]])
        fix d assume "(v, d) \<in> set E" "is_determined g d"
        then show "is_determined ?g d \<and> win ?g d = win g d" using u by (auto simp: D W)
      qed (use False in \<open>simp_all add: W O Fz\<close>)
    qed
  qed
  have 6: "s < length (vertices ?g) \<and> is_determined ?g s \<and> win ?g s = w \<and> s \<notin> insert p T \<and>
      (\<forall>t\<in>insert p T. win ?g t = w)"
    using s tw pns by (auto simp: D W)
  have 7: "\<forall>q\<in>set ps. q < length (vertices ?g) \<and> (\<not> is_determined ?g q \<longrightarrow> (q, s) \<in> set E)"
    using qs by (auto simp: D)
  show ?thesis unfolding preds_inv_def using 1 2 3 4 5 6 7 by blast
qed

lemma preds_inv_decrement:
  assumes inv: "preds_inv g E Z T w s (p # ps)" and u: "\<not> is_determined g p"
    and ow: "own g p \<noteq> w"
    and x: "x = (vertices g ! p)\<lparr>counter := cnt g p - 1\<rparr>"
    and nz: "\<not> (cnt g p - 1 = 0 \<and> is_frozen g p)"
  shows "preds_inv (upd g p x) E Z T w s ps"
proof -
  let ?g = "upd g p x"
  from inv have sh: "shape_inv g E Z T" and ci: "counter_inv g E T (p # ps)"
    and ei: "edge_inv g E T s (p # ps)" and ri: "reverse_inv g E T" and ju: "justified g E Z"
    and s: "s < length (vertices g)" "is_determined g s" "win g s = w" "s \<notin> T"
    and tw: "\<forall>t\<in>T. win g t = w"
    and qs: "\<forall>q\<in>set (p # ps). q < length (vertices g) \<and> (\<not> is_determined g q \<longrightarrow> (q, s) \<in> set E)"
    unfolding preds_inv_def by simp_all
  from qs have p: "p < length (vertices g)" by simp
  have D: "is_determined ?g v = is_determined g v" for v
    using p x by (cases "v = p") (simp_all add: is_determined_def)
  have W: "win ?g v = win g v" for v
    using p x by (cases "v = p") (simp_all add: win_def)
  have O: "own ?g v = own g v" for v
    using p x by (cases "v = p") (simp_all add: own_def)
  have Fz: "is_frozen ?g v = is_frozen g v" for v
    using p x by (cases "v = p") (simp_all add: is_frozen_def)
  have C: "cnt ?g v = (if v = p then cnt g p - 1 else cnt g v)" for v
    using p x by (cases "v = p") (simp_all add: cnt_def)
  have P: "pend ?g T E v = pend g T E v" for v
    by (rule pend_cong) (simp add: D)
  have 1: "shape_inv ?g E Z T"
    using sh unfolding shape_inv_def by (simp add: D)
  have 2: "counter_inv ?g E T ps"
    unfolding counter_inv_def
  proof (intro allI impI)
    fix v assume "v < length (vertices ?g)" and nd: "\<not> is_determined ?g v"
    then have v: "v < length (vertices g)" and ndg: "\<not> is_determined g v"
      by (simp_all add: D)
    from counter_invD [OF ci v ndg] show "counter_ok ?g E T ps v"
      using nz by (auto simp: counter_ok_def C P Fz)
  qed
  have 3: "edge_inv ?g E T s ps"
    unfolding edge_inv_def
  proof (intro ballI impI)
    fix e assume e: "e \<in> set E"
      and h: "\<not> is_determined ?g (fst e) \<and> is_determined ?g (snd e) \<and> snd e \<notin> T"
    with ei have "win g (snd e) \<noteq> own g (fst e) \<or> (snd e = s \<and> fst e \<in> set (p # ps))"
      unfolding edge_inv_def by (simp add: D)
    then show "win ?g (snd e) \<noteq> own ?g (fst e) \<or> (snd e = s \<and> fst e \<in> set ps)"
      using ow s(3) by (auto simp: W O)
  qed
  have 4: "reverse_inv ?g E T"
    using ri unfolding reverse_inv_def by (simp add: D)
  have 5: "justified ?g E Z"
    unfolding justified_def
  proof (intro allI impI)
    fix v assume "v < length (vertices ?g)" and h: "is_determined ?g v \<and> v \<notin> Z"
    then have v: "v < length (vertices g)" and hv: "is_determined g v" "v \<notin> Z"
      by (simp_all add: D)
    show "just_ok ?g E v"
      by (rule just_ok_mono [OF justifiedD [OF ju v hv]]) (simp_all add: D W O Fz)
  qed
  have 6: "s < length (vertices ?g) \<and> is_determined ?g s \<and> win ?g s = w \<and> s \<notin> T \<and>
      (\<forall>t\<in>T. win ?g t = w)"
    using s tw by (auto simp: D W)
  have 7: "\<forall>q\<in>set ps. q < length (vertices ?g) \<and> (\<not> is_determined ?g q \<longrightarrow> (q, s) \<in> set E)"
    using qs by (auto simp: D)
  show ?thesis unfolding preds_inv_def using 1 2 3 4 5 6 7 by blast
qed


lemma counter_dec: "0 < (c::nat) \<Longrightarrow> c < 2 ^ 32 \<Longrightarrow> (c + 2 ^ 32 - 1) mod 2 ^ 32 = c - 1"
proof -
  assume c: "0 < c" "c < 2 ^ 32"
  obtain k where k: "c = Suc k" using c(1) by (cases c) auto
  have "c + 2 ^ 32 - 1 = k + 2 ^ 32" using k by simp
  then have "(c + 2 ^ 32 - 1) mod 2 ^ 32 = (k + 2 ^ 32) mod 2 ^ 32" by (rule arg_cong)
  also have "\<dots> = k mod 2 ^ 32" by (rule mod_add_self2)
  also have "\<dots> = k" using c(2) k by (intro mod_less) simp
  finally show ?thesis using k by simp
qed

lemma set_winner_preds_return:
  "set_winner_preds w s ps g todo r = Inr (Return_true g') \<Longrightarrow> stop_asap_m g'"
proof (induction ps arbitrary: g todo r)
  case Nil
  then show ?case by simp
next
  case (Cons p ps)
  have "stop_asap_m g'" if "set_winner_preds w s ps g1 t1 r1 = Inr (Return_true g')" for g1 t1 r1
    using Cons.IH [OF that] .
  with Cons.prems show ?case
    by (auto simp: Let_def split: if_splits)
qed



lemma set_winner_preds_inv:
  assumes "preds_inv g E Z (set todo) w s ps" "distinct todo"
    "set_winner_preds w s ps g todo r = Inr (Continue g' todo' r')"
  shows "preds_inv g' E Z (set todo') w s [] \<and> distinct todo'"
  using assms
proof (induction ps arbitrary: g todo r)
  case Nil
  then show ?case by simp
next
  case (Cons p ps)
  note inv = Cons.prems(1)
  from inv have sh: "shape_inv g E Z (set todo)" and ci: "counter_inv g E (set todo) (p # ps)"
    and p: "p < length (vertices g)"
    unfolding preds_inv_def by simp_all
  then have ig: "in_graph g p" by (simp add: in_graph_def shape_inv_def)
  let ?prev = "vertices g ! p"
  show ?case
  proof (cases "determined ?prev")
    case True
    then have d: "is_determined g p" by (simp add: is_determined_def)
    from Cons.prems(3) ig True
    have rec: "set_winner_preds w s ps g todo r = Inr (Continue g' todo' r')"
      by (simp add: Let_def)
    show ?thesis by (rule Cons.IH [OF preds_inv_skip [OF inv d] Cons.prems(2) rec])
  next
    case False
    then have u: "\<not> is_determined g p" by (simp add: is_determined_def)
    from counter_invD [OF ci p u]
    have c1: "cnt g p = pend g (set todo) E p + Suc (count_list ps p)" and c2: "cnt g p < 2 ^ 32"
      by (simp_all add: counter_ok_def)
    then have dec: "(counter ?prev + 2 ^ 32 - 1) mod 2 ^ 32 = cnt g p - 1"
      using counter_dec [of "cnt g p"] by (simp add: cnt_def)
    have pT: "p \<notin> set todo" using sh u unfolding shape_inv_def by auto
    have p1: "(if owner (vertices g ! p) = w then vertices g ! p
               else (vertices g ! p)\<lparr>counter := (counter (vertices g ! p) + 2 ^ 32 - 1) mod 2 ^ 32\<rparr>) =
              (vertices g ! p)\<lparr>counter := cnt g p - 1\<rparr>" if "owner (vertices g ! p) \<noteq> w"
    proof -
      have "(if owner (vertices g ! p) = w then vertices g ! p
               else (vertices g ! p)\<lparr>counter := (counter (vertices g ! p) + 2 ^ 32 - 1) mod 2 ^ 32\<rparr>) =
            (vertices g ! p)\<lparr>counter := (counter (vertices g ! p) + 2 ^ 32 - 1) mod 2 ^ 32\<rparr>"
        using that by (rule if_not_P)
      then show ?thesis by (simp only: dec)
    qed
    let ?prev1 = "if owner ?prev = w then ?prev
                  else ?prev\<lparr>counter := (counter ?prev + 2 ^ 32 - 1) mod 2 ^ 32\<rparr>"
    show ?thesis
    proof (cases "owner ?prev = w \<or> (counter ?prev1 = 0 \<and> frozen ?prev1)")
      case det: True
      let ?prev2 = "?prev1\<lparr>determined := True, winner := w,
                      choice := (if owner ?prev = w then s else choice ?prev1)\<rparr>"
      let ?g2 = "g\<lparr>vertices := (vertices g)[p := ?prev2]\<rparr>"
      from Cons.prems(3) ig False det obtain r1 where
        rec: "set_winner_preds w s ps ?g2 (todo @ [p]) r1 = Inr (Continue g' todo' r')"
        by (auto simp: Let_def split: if_splits)
      have why: "own g p = w \<or> (is_frozen g p \<and> pend g (set todo) E p = 0)"
      proof (cases "owner ?prev = w")
        case True
        then show ?thesis by (simp add: own_def)
      next
        case False
        with det have "counter ?prev1 = 0 \<and> frozen ?prev1" by blast
        then have "cnt g p - 1 = 0" "frozen ?prev" unfolding p1 [OF False] by simp_all
        then show ?thesis using c1 by (simp add: is_frozen_def)
      qed
      have "preds_inv (upd g p ?prev2) E Z (insert p (set todo)) w s ps"
        by (rule preds_inv_determine [OF inv u _ _ _ _ why]) (simp_all add: own_def is_frozen_def)
      then have i2: "preds_inv ?g2 E Z (set (todo @ [p])) w s ps" by (simp add: upd_def)
      have d2: "distinct (todo @ [p])" using Cons.prems(2) pT by simp
      show ?thesis by (rule Cons.IH [OF i2 d2 rec])
    next
      case nodet: False
      let ?g1 = "g\<lparr>vertices := (vertices g)[p := ?prev1]\<rparr>"
      from Cons.prems(3) ig False nodet have
        rec: "set_winner_preds w s ps ?g1 todo r = Inr (Continue g' todo' r')"
        by (auto simp: Let_def split: if_splits)
      from nodet have ow: "own g p \<noteq> w" by (simp add: own_def)
      then have owp: "owner ?prev \<noteq> w" by (simp add: own_def)
      from nodet have "\<not> (counter ?prev1 = 0 \<and> frozen ?prev1)" by blast
      then have nz: "\<not> (cnt g p - 1 = 0 \<and> is_frozen g p)"
        unfolding p1 [OF owp] by (simp add: is_frozen_def)
      have "preds_inv (upd g p ?prev1) E Z (set todo) w s ps"
        by (rule preds_inv_decrement [OF inv u ow p1 [OF owp] nz])
      then have i1: "preds_inv ?g1 E Z (set todo) w s ps" by (simp add: upd_def)
      show ?thesis by (rule Cons.IH [OF i1 Cons.prems(2) rec])
    qed
  qed
qed

lemma shape_inv_edge:
  "shape_inv g E Z T \<Longrightarrow> e \<in> set E \<Longrightarrow>
   fst e < length (vertices g) \<and> snd e < length (vertices g)"
  unfolding shape_inv_def by simp

lemma shape_inv_reverse:
  "shape_inv g E Z T \<Longrightarrow> d < length (vertices g) \<Longrightarrow> p \<in> set (reverse_m g ! d) \<Longrightarrow>
   p < length (vertices g)"
  unfolding shape_inv_def by simp

lemma shape_inv_queue:
  "shape_inv g E Z T \<Longrightarrow> t \<in> T \<Longrightarrow> t < length (vertices g) \<and> is_determined g t"
  unfolding shape_inv_def by simp

lemma shape_inv_subset:
  "shape_inv g E Z T \<Longrightarrow> T' \<subseteq> T \<Longrightarrow> shape_inv g E Z T'"
  unfolding shape_inv_def by (simp add: subset_iff)

lemma edge_invD':
  "edge_inv g E T s ps \<Longrightarrow> e \<in> set E \<Longrightarrow> \<not> is_determined g (fst e) \<Longrightarrow>
   is_determined g (snd e) \<Longrightarrow> snd e \<notin> T \<Longrightarrow>
   win g (snd e) \<noteq> own g (fst e) \<or> (snd e = s \<and> fst e \<in> set ps)"
  unfolding edge_inv_def by simp

lemma queue_inv_preds:
  assumes q: "queue_inv g E Z (s # todo) w"
  shows "preds_inv g E Z (set todo) w s (reverse_m g ! s)"
proof -
  let ?T = "set (s # todo)" and ?ps = "reverse_m g ! s"
  from q have sh: "shape_inv g E Z ?T" and ci: "counter_inv g E ?T []"
    and ei: "edge_inv g E ?T 0 []" and ri: "reverse_inv g E ?T" and ju: "justified g E Z"
    and di: "distinct (s # todo)" and tw: "\<forall>t\<in>?T. win g t = w"
    unfolding queue_inv_def by simp_all
  from shape_inv_queue [OF sh, of s] have s: "s < length (vertices g)" "is_determined g s"
    by simp_all
  from di have sT: "s \<notin> set todo" by simp
  then have Tm: "?T - {s} = set todo" by auto
  have rv: "count_list ?ps v = count_list E (v, s)"
    if "v < length (vertices g)" "\<not> is_determined g v" for v
  proof -
    from ri have "\<forall>v<length (vertices g). \<forall>d<length (vertices g).
        \<not> is_determined g v \<and> (\<not> is_determined g d \<or> d \<in> ?T) \<longrightarrow>
        count_list (reverse_m g ! d) v = count_list E (v, d)" unfolding reverse_inv_def .
    then have "\<not> is_determined g v \<and> (\<not> is_determined g s \<or> s \<in> ?T) \<longrightarrow>
        count_list (reverse_m g ! s) v = count_list E (v, s)" using that(1) s(1) by blast
    then show ?thesis using that(2) by simp
  qed
  have 1: "shape_inv g E Z (set todo)"
    by (rule shape_inv_subset [OF sh]) auto
  have 2: "counter_inv g E (set todo) ?ps"
    unfolding counter_inv_def
  proof (intro allI impI)
    fix v assume v: "v < length (vertices g)" and nd: "\<not> is_determined g v"
    have "pend g ?T E v = pend g (?T - {s}) E v + count_list E (v, s)"
      by (rule pend_split [OF s(2)]) simp
    then have "pend g ?T E v = pend g (set todo) E v + count_list ?ps v"
      using rv [OF v nd] Tm by simp
    then show "counter_ok g E (set todo) ?ps v"
      using counter_invD [OF ci v nd] by (auto simp: counter_ok_def)
  qed
  have 3: "edge_inv g E (set todo) s ?ps"
    unfolding edge_inv_def
  proof (intro ballI impI)
    fix e assume e: "e \<in> set E"
      and h: "\<not> is_determined g (fst e) \<and> is_determined g (snd e) \<and> snd e \<notin> set todo"
    show "win g (snd e) \<noteq> own g (fst e) \<or> (snd e = s \<and> fst e \<in> set ?ps)"
    proof (cases "snd e = s")
      case True
      from shape_inv_edge [OF sh e] have fe: "fst e < length (vertices g)" by simp
      from e True have "(fst e, s) \<in> set E" by (cases e) auto
      then have "count_list E (fst e, s) \<noteq> 0" by (simp add: count_list_0_iff)
      then have "count_list ?ps (fst e) \<noteq> 0" using rv [OF fe] h by simp
      then show ?thesis using True by (simp add: count_list_0_iff)
    next
      case False
      with h have "snd e \<notin> ?T" by simp
      from edge_invD' [OF ei e _ _ this] h show ?thesis by simp
    qed
  qed
  have 4: "reverse_inv g E (set todo)"
    using ri unfolding reverse_inv_def by simp
  have 7: "\<forall>q\<in>set ?ps. q < length (vertices g) \<and> (\<not> is_determined g q \<longrightarrow> (q, s) \<in> set E)"
  proof
    fix q assume qm: "q \<in> set ?ps"
    from shape_inv_reverse [OF sh s(1) qm] have ql: "q < length (vertices g)" .
    have "(q, s) \<in> set E" if "\<not> is_determined g q"
    proof -
      from qm have "count_list ?ps q \<noteq> 0" by (simp add: count_list_0_iff)
      then have "count_list E (q, s) \<noteq> 0" using rv [OF ql that] by simp
      then show ?thesis by (simp add: count_list_0_iff)
    qed
    with ql show "q < length (vertices g) \<and> (\<not> is_determined g q \<longrightarrow> (q, s) \<in> set E)"
      by blast
  qed
  from tw have 5: "win g s = w" and 6: "\<forall>t\<in>set todo. win g t = w" by simp_all
  show ?thesis unfolding preds_inv_def by (intro conjI) (fact 1 2 3 4 ju s 5 sT 6 7)+
qed
lemma preds_inv_queue:
  assumes "preds_inv g E Z (set todo) w s []" "distinct todo"
  shows "queue_inv g E Z todo w"
  using assms unfolding preds_inv_def queue_inv_def edge_inv_def by simp

lemma set_winner_loop_inv:
  assumes "queue_inv g E Z todo w" "set_winner_loop w todo r g = Inr (r', g')"
  shows "arena_inv g' E Z \<or> (r' \<and> stop_asap_m g')"
  using assms
proof (induction w todo r g rule: set_winner_loop.induct)
  case (1 w result g)
  then show ?case by (simp add: arena_inv_def queue_inv_def)
next
  case (2 w s todo result g)
  from "2.prems"(1) have sh: "shape_inv g E Z (set (s # todo))" unfolding queue_inv_def by simp
  then have ig: "in_graph g s" unfolding shape_inv_def in_graph_def by simp
  from "2.prems"(1) have di: "distinct todo" unfolding queue_inv_def by simp
  note pi = queue_inv_preds [OF "2.prems"(1)]
  show ?case
  proof (cases "set_winner_preds w s (reverse_m g ! s) g todo result")
    case (Inl e)
    with "2.prems"(2) ig show ?thesis by simp
  next
    case (Inr x)
    show ?thesis
    proof (cases x)
      case (Return_true g1)
      with Inr "2.prems"(2) ig have "r' = True" "g' = g1" by simp_all
      with set_winner_preds_return Inr Return_true show ?thesis by blast
    next
      case (Continue g1 todo1 r1)
      with Inr "2.prems"(2) ig have rec: "set_winner_loop w todo1 r1 g1 = Inr (r', g')" by simp
      from Inr Continue have sw:
        "set_winner_preds w s (reverse_m g ! s) g todo result = Inr (Continue g1 todo1 r1)" by simp
      note pq = set_winner_preds_inv [OF pi di sw]
      have q1: "queue_inv g1 E Z todo1 w"
        by (rule preds_inv_queue [OF conjunct1 [OF pq] conjunct2 [OF pq]])
      from ig have nig: "\<not> \<not> in_graph g s" by simp
      show ?thesis by (rule "2.IH" [OF nig Inr Continue q1 rec])
    qed
  qed
qed



lemma pend_append: "pend g T (E @ es) v = pend g T E v + pend g T es v"
  by (simp add: pend_def)

lemma pend_other: "\<forall>e\<in>set es. fst e \<noteq> v \<Longrightarrow> pend g T es v = 0"
  by (auto simp: pend_def filter_empty_conv)

lemma count_list_other: "\<forall>e\<in>set es. fst e \<noteq> v \<Longrightarrow> count_list es (v, d) = 0"
  by (auto simp: count_list_0_iff)

lemma arena_inv_iff:
  "arena_inv g E Z =
     (shape_inv g E Z {} \<and> counter_inv g E {} [] \<and> edge_inv g E {} 0 [] \<and>
      reverse_inv g E {} \<and> justified g E Z)"
  by (simp add: arena_inv_def queue_inv_def)

lemma reverse_invD:
  "reverse_inv g E T \<Longrightarrow> v < length (vertices g) \<Longrightarrow> d < length (vertices g) \<Longrightarrow>
   \<not> is_determined g v \<Longrightarrow> \<not> is_determined g d \<or> d \<in> T \<Longrightarrow>
   count_list (reverse_m g ! d) v = count_list E (v, d)"
  unfolding reverse_inv_def by simp

lemma upd_id: "state < length (vertices g) \<Longrightarrow> upd g state (vertices g ! state) = g"
  by (simp add: upd_def)

lemma upd_upd [simp]: "upd (upd g p y) p x = upd g p x"
  by (simp add: upd_def)

lemma set_winner_entry:
  assumes inv: "arena_inv g E Z"
    and st: "state < length (vertices g)" "\<not> is_determined g state"
    and x: "determined x" "winner x = w" "owner x = own g state" "is_frozen g state \<longrightarrow> frozen x"
    and es: "\<forall>e\<in>set es. fst e = state \<and> snd e < length (vertices g)"
    and Z': "Z \<subseteq> Z'" "Z' \<subseteq> insert state Z"
    and j: "state \<notin> Z' \<Longrightarrow> just_ok (upd g state x) (E @ es) state"
  shows "queue_inv (upd g state x) (E @ es) Z' [state] w"
proof -
  let ?g = "upd g state x" and ?E = "E @ es"
  from inv have sh: "shape_inv g E Z {}" and ci: "counter_inv g E {} []"
    and ei: "edge_inv g E {} 0 []" and ri: "reverse_inv g E {}" and ju: "justified g E Z"
    by (simp_all add: arena_inv_iff)
  have D: "is_determined ?g v = (v = state \<or> is_determined g v)" for v
    using st x(1) by (cases "v = state") (simp_all add: is_determined_def)
  have W: "win ?g v = (if v = state then w else win g v)" for v
    using st x(2) by (cases "v = state") (simp_all add: win_def)
  have O: "own ?g v = own g v" for v
    using st x(3) by (cases "v = state") (simp_all add: own_def)
  have Fz: "v \<noteq> state \<Longrightarrow> is_frozen ?g v = is_frozen g v" for v
    by (simp add: is_frozen_def)
  have C: "v \<noteq> state \<Longrightarrow> cnt ?g v = cnt g v" for v
    by (simp add: cnt_def)
  have eso: "\<forall>e\<in>set es. fst e \<noteq> v" if "v \<noteq> state" for v
    using es that by auto
  have 1: "shape_inv ?g ?E Z' {state}"
    unfolding shape_inv_def
  proof (intro conjI)
    show "length (reverse_m ?g) = length (vertices ?g)" using sh by (simp add: shape_inv_def)
    show "\<forall>e\<in>set ?E. fst e < length (vertices ?g) \<and> snd e < length (vertices ?g)"
      using shape_inv_edge [OF sh] es st(1) by auto
    show "\<forall>d<length (vertices ?g). \<forall>p\<in>set (reverse_m ?g ! d). p < length (vertices ?g)"
      using shape_inv_reverse [OF sh] by simp
    show "\<forall>x\<in>Z'. x < length (vertices ?g) \<and> is_determined ?g x"
    proof
      fix z assume "z \<in> Z'"
      then have "z = state \<or> z \<in> Z" using Z'(2) by auto
      then show "z < length (vertices ?g) \<and> is_determined ?g z"
        using st(1) sh by (auto simp: D shape_inv_def)
    qed
    show "\<forall>t\<in>{state}. t < length (vertices ?g) \<and> is_determined ?g t"
      using st(1) by (simp add: D)
  qed
  have 2: "counter_inv ?g ?E {state} []"
    unfolding counter_inv_def
  proof (intro allI impI)
    fix v assume "v < length (vertices ?g)" and nd: "\<not> is_determined ?g v"
    then have v: "v < length (vertices g)" and vs: "v \<noteq> state" and ndg: "\<not> is_determined g v"
      by (simp_all add: D)
    have "pend ?g {state} E v = pend g {} E v"
      by (rule pend_cong) (use st(2) in \<open>auto simp: D\<close>)
    then have P: "pend ?g {state} ?E v = pend g {} E v"
      by (simp add: pend_append pend_other [OF eso [OF vs]])
    show "counter_ok ?g ?E {state} [] v"
      by (rule counter_ok_cong [OF counter_invD [OF ci v ndg] C [OF vs] P refl Fz [OF vs]])
  qed
  have 3: "edge_inv ?g ?E {state} 0 []"
    unfolding edge_inv_def
  proof (intro ballI impI)
    fix e assume e: "e \<in> set ?E"
      and h: "\<not> is_determined ?g (fst e) \<and> is_determined ?g (snd e) \<and> snd e \<notin> {state}"
    then have a: "fst e \<noteq> state" "\<not> is_determined g (fst e)" "snd e \<noteq> state"
      "is_determined g (snd e)" by (auto simp: D)
    with e es have eE: "e \<in> set E" by auto
    from edge_invD' [OF ei eE a(2) a(4)] have "win g (snd e) \<noteq> own g (fst e)" by simp
    then show "win ?g (snd e) \<noteq> own ?g (fst e) \<or> (snd e = 0 \<and> fst e \<in> set [])"
      using a by (simp add: W O)
  qed
  have 4: "reverse_inv ?g ?E {state}"
    unfolding reverse_inv_def
  proof (intro allI impI)
    fix v d assume "v < length (vertices ?g)" "d < length (vertices ?g)"
      and h: "\<not> is_determined ?g v \<and> (\<not> is_determined ?g d \<or> d \<in> {state})"
    then have v: "v < length (vertices g)" and d: "d < length (vertices g)"
      and vs: "v \<noteq> state" and ndv: "\<not> is_determined g v" and ndd: "\<not> is_determined g d"
      using st(2) by (auto simp: D)
    from reverse_invD [OF ri v d ndv] ndd
    have "count_list (reverse_m g ! d) v = count_list E (v, d)" by simp
    then show "count_list (reverse_m ?g ! d) v = count_list ?E (v, d)"
      by (simp add: count_list_other [OF eso [OF vs]])
  qed
  have 5: "justified ?g ?E Z'"
    unfolding justified_def
  proof (intro allI impI)
    fix v assume "v < length (vertices ?g)" and h: "is_determined ?g v \<and> v \<notin> Z'"
    then have v: "v < length (vertices g)" by simp
    show "just_ok ?g ?E v"
    proof (cases "v = state")
      case True
      with h j show ?thesis by simp
    next
      case False
      with h Z'(1) have hv: "is_determined g v" "v \<notin> Z" by (auto simp: D)
      show ?thesis
      proof (rule just_ok_mono [OF justifiedD [OF ju v hv]])
        fix d assume "(v, d) \<in> set E" "is_determined g d"
        then show "is_determined ?g d \<and> win ?g d = win g d" using st(2) by (auto simp: D W)
      next
        fix d show "((v, d) \<in> set ?E) = ((v, d) \<in> set E)" using eso [OF False] by auto
      qed (use False in \<open>simp_all add: W O Fz\<close>)
    qed
  qed
  have 6: "distinct [state]" by simp
  have 7: "\<forall>t\<in>set [state]. win ?g t = w" by (simp add: W)
  have "shape_inv ?g ?E Z' (set [state])" "counter_inv ?g ?E (set [state]) []"
    "edge_inv ?g ?E (set [state]) 0 []" "reverse_inv ?g ?E (set [state])"
    using 1 2 3 4 by simp_all
  then show ?thesis unfolding queue_inv_def using 5 6 7 by (intro conjI)
qed

lemma set_winner_inv:
  assumes inv: "arena_inv g E Z"
    and st: "state < length (vertices g)" "\<not> is_determined g state"
    and y: "owner y = own g state" "\<not> determined y" "is_frozen g state \<longrightarrow> frozen y"
    and es: "\<forall>e\<in>set es. fst e = state \<and> snd e < length (vertices g)"
    and Z': "Z \<subseteq> Z'" "Z' \<subseteq> insert state Z"
    and j: "state \<notin> Z' \<Longrightarrow>
       just_ok (upd g state (y\<lparr>determined := True, winner := w, choice := c\<rparr>)) (E @ es) state"
    and run: "set_winner state w c (upd g state y) = Inr (r, g')"
  shows "arena_inv g' (E @ es) Z' \<or> (r \<and> stop_asap_m g')"
proof -
  let ?x = "y\<lparr>determined := True, winner := w, choice := c\<rparr>"
  have "queue_inv (upd g state ?x) (E @ es) Z' [state] w"
    by (rule set_winner_entry [OF inv st _ _ _ _ es Z' j]) (use y in simp_all)
  moreover from run st(1) have "set_winner_loop w [state] False (upd g state ?x) = Inr (r, g')"
    by (simp add: set_winner_def upd_def split: if_splits)
  ultimately show ?thesis by (rule set_winner_loop_inv)
qed


lemma just_ok_add_edge:
  assumes j: "just_ok g E v" and nf: "v = src \<Longrightarrow> \<not> is_frozen g v"
  shows "just_ok g (E @ [(src, dst)]) v"
proof (cases "win g v = own g v")
  case True
  with j show ?thesis by (auto simp: just_ok_def)
next
  case False
  with j have "is_frozen g v" by (simp add: just_ok_def)
  with nf have "v \<noteq> src" by auto
  with j False show ?thesis by (auto simp: just_ok_def)
qed

lemma arena_inv_add_edge_ignored:
  assumes inv: "arena_inv g E Z"
    and b: "src < length (vertices g)" "dst < length (vertices g)"
    and c: "(is_determined g src \<and> \<not> is_frozen g src) \<or>
            (\<not> is_determined g src \<and> \<not> is_frozen g src \<and> is_determined g dst \<and>
             win g dst \<noteq> own g src)"
  shows "arena_inv g (E @ [(src, dst)]) Z"
proof -
  let ?E = "E @ [(src, dst)]"
  from inv have sh: "shape_inv g E Z {}" and ci: "counter_inv g E {} []"
    and ei: "edge_inv g E {} 0 []" and ri: "reverse_inv g E {}" and ju: "justified g E Z"
    by (simp_all add: arena_inv_iff)
  have 1: "shape_inv g ?E Z {}"
    using sh b unfolding shape_inv_def by simp
  have 2: "counter_inv g ?E {} []"
    unfolding counter_inv_def
  proof (intro allI impI)
    fix v assume v: "v < length (vertices g)" and nd: "\<not> is_determined g v"
    have "pend g {} [(src, dst)] v = 0" using c nd by (auto simp: pend_def)
    then have P: "pend g {} ?E v = pend g {} E v" by (simp add: pend_append)
    show "counter_ok g ?E {} [] v"
      by (rule counter_ok_cong [OF counter_invD [OF ci v nd] refl P refl refl])
  qed
  have 3: "edge_inv g ?E {} 0 []"
    unfolding edge_inv_def
  proof (intro ballI impI)
    fix e assume e: "e \<in> set ?E"
      and h: "\<not> is_determined g (fst e) \<and> is_determined g (snd e) \<and> snd e \<notin> {}"
    show "win g (snd e) \<noteq> own g (fst e) \<or> (snd e = 0 \<and> fst e \<in> set [])"
    proof (cases "e \<in> set E")
      case True
      from edge_invD' [OF ei True] h show ?thesis by simp
    next
      case False
      with e have "e = (src, dst)" by simp
      with c h show ?thesis by auto
    qed
  qed
  have 4: "reverse_inv g ?E {}"
    unfolding reverse_inv_def
  proof (intro allI impI)
    fix v d assume v: "v < length (vertices g)" and d: "d < length (vertices g)"
      and h: "\<not> is_determined g v \<and> (\<not> is_determined g d \<or> d \<in> {})"
    from reverse_invD [OF ri v d] h
    have "count_list (reverse_m g ! d) v = count_list E (v, d)" by simp
    moreover have "(src, dst) \<noteq> (v, d)" using c h by auto
    ultimately show "count_list (reverse_m g ! d) v = count_list ?E (v, d)" by simp
  qed
  have 5: "justified g ?E Z"
    unfolding justified_def
  proof (intro allI impI)
    fix v assume v: "v < length (vertices g)" and h: "is_determined g v \<and> v \<notin> Z"
    then have hv: "is_determined g v" "v \<notin> Z" by simp_all
    show "just_ok g ?E v"
      by (rule just_ok_add_edge [OF justifiedD [OF ju v hv]]) (use c in auto)
  qed
  show ?thesis unfolding arena_inv_iff using 1 2 3 4 5 by (intro conjI)
qed

lemma arena_inv_add_edge_declared:
  assumes inv: "arena_inv g E Z"
    and b: "src < length (vertices g)" "dst < length (vertices g)"
    and c: "\<not> is_determined g src" "\<not> is_frozen g src" "\<not> is_determined g dst"
    and len: "Suc (length E) < 2 ^ 32"
  shows "arena_inv
     (g\<lparr>reverse_m := (reverse_m g)[dst := reverse_m g ! dst @ [src]],
        vertices := (vertices g)[src := (vertices g ! src)
           \<lparr>counter := (counter (vertices g ! src) + 1) mod 2 ^ 32\<rparr>]\<rparr>)
     (E @ [(src, dst)]) Z"
proof -
  let ?E = "E @ [(src, dst)]"
  define g' where "g' = g\<lparr>reverse_m := (reverse_m g)[dst := reverse_m g ! dst @ [src]],
        vertices := (vertices g)[src := (vertices g ! src)
           \<lparr>counter := (counter (vertices g ! src) + 1) mod 2 ^ 32\<rparr>]\<rparr>"
  from inv have sh: "shape_inv g E Z {}" and ci: "counter_inv g E {} []"
    and ei: "edge_inv g E {} 0 []" and ri: "reverse_inv g E {}" and ju: "justified g E Z"
    by (simp_all add: arena_inv_iff)
  from sh have lr: "length (reverse_m g) = length (vertices g)" by (simp add: shape_inv_def)
  have L: "length (vertices g') = length (vertices g)" by (simp add: g'_def)
  have D: "is_determined g' v = is_determined g v" for v
    using b(1) by (cases "v = src") (simp_all add: g'_def is_determined_def)
  have W: "win g' v = win g v" for v
    using b(1) by (cases "v = src") (simp_all add: g'_def win_def)
  have O: "own g' v = own g v" for v
    using b(1) by (cases "v = src") (simp_all add: g'_def own_def)
  have Fz: "is_frozen g' v = is_frozen g v" for v
    using b(1) by (cases "v = src") (simp_all add: g'_def is_frozen_def)
  from counter_invD [OF ci b(1) c(1)] have "cnt g src = pend g {} E src"
    by (simp add: counter_ok_def)
  with pend_le [of g "{}" E src] len have "cnt g src + 1 < 2 ^ 32" by simp
  then have "(counter (vertices g ! src) + 1) mod 2 ^ 32 = cnt g src + 1"
    by (simp add: cnt_def)
  then have C: "cnt g' v = (if v = src then cnt g src + 1 else cnt g v)" for v
    using b(1) by (cases "v = src") (simp_all add: g'_def cnt_def)
  have R: "reverse_m g' ! d = (if d = dst then reverse_m g ! dst @ [src] else reverse_m g ! d)" for d
    using b(2) lr by (cases "d = dst") (simp_all add: g'_def)
  have 1: "shape_inv g' ?E Z {}"
    unfolding shape_inv_def
  proof (intro conjI)
    show "length (reverse_m g') = length (vertices g')" using lr by (simp add: g'_def)
    show "\<forall>e\<in>set ?E. fst e < length (vertices g') \<and> snd e < length (vertices g')"
      using shape_inv_edge [OF sh] b unfolding L by auto
    show "\<forall>d<length (vertices g'). \<forall>p\<in>set (reverse_m g' ! d). p < length (vertices g')"
      using shape_inv_reverse [OF sh] b unfolding L R by auto
    show "\<forall>x\<in>Z. x < length (vertices g') \<and> is_determined g' x"
      using sh unfolding L D shape_inv_def by simp
    show "\<forall>t\<in>{}. t < length (vertices g') \<and> is_determined g' t" by simp
  qed
  have 2: "counter_inv g' ?E {} []"
    unfolding counter_inv_def L D
  proof (intro allI impI)
    fix v assume v: "v < length (vertices g)" and nd: "\<not> is_determined g v"
    have "pend g' {} ?E v = pend g {} ?E v"
      by (rule pend_cong) (simp add: D)
    also have "\<dots> = pend g {} E v + (if v = src then 1 else 0)"
      using c(3) by (simp add: pend_append) (simp add: pend_def)
    finally have P: "pend g' {} ?E v = pend g {} E v + (if v = src then 1 else 0)" .
    from counter_invD [OF ci v nd] have "cnt g v = pend g {} E v \<and> cnt g v < 2 ^ 32 \<and>
       (is_frozen g v \<longrightarrow> cnt g v \<noteq> 0)" by (auto simp: counter_ok_def)
    moreover have "cnt g src + 1 < 2 ^ 32" by fact
    ultimately show "counter_ok g' ?E {} [] v"
      unfolding counter_ok_def C P Fz using c(2) by auto
  qed
  have 3: "edge_inv g' ?E {} 0 []"
    unfolding edge_inv_def D W O
  proof (intro ballI impI)
    fix e assume e: "e \<in> set ?E"
      and h: "\<not> is_determined g (fst e) \<and> is_determined g (snd e) \<and> snd e \<notin> {}"
    with c(3) have "e \<noteq> (src, dst)" by auto
    with e have eE: "e \<in> set E" by simp
    from edge_invD' [OF ei eE] h
    show "win g (snd e) \<noteq> own g (fst e) \<or> (snd e = 0 \<and> fst e \<in> set [])" by simp
  qed
  have 4: "reverse_inv g' ?E {}"
    unfolding reverse_inv_def L D
  proof (intro allI impI)
    fix v d assume v: "v < length (vertices g)" and d: "d < length (vertices g)"
      and h: "\<not> is_determined g v \<and> (\<not> is_determined g d \<or> d \<in> {})"
    from reverse_invD [OF ri v d] h
    have "count_list (reverse_m g ! d) v = count_list E (v, d)" by simp
    then show "count_list (reverse_m g' ! d) v = count_list ?E (v, d)"
      unfolding R by auto
  qed
  have 5: "justified g' ?E Z"
    unfolding justified_def L D
  proof (intro allI impI)
    fix v assume v: "v < length (vertices g)" and h: "is_determined g v \<and> v \<notin> Z"
    then have hv: "is_determined g v" "v \<notin> Z" by simp_all
    then have vs: "v \<noteq> src" using c(1) by auto
    show "just_ok g' ?E v"
      by (rule just_ok_mono [OF justifiedD [OF ju v hv]]) (use vs in \<open>simp_all add: D W O Fz\<close>)
  qed
  have "arena_inv g' ?E Z" unfolding arena_inv_iff using 1 2 3 4 5 by (intro conjI)
  then show ?thesis unfolding g'_def .
qed


lemma arena_inv_freeze:
  assumes inv: "arena_inv g E Z" and st: "state < length (vertices g)"
    and c: "is_determined g state \<or> cnt g state \<noteq> 0"
  shows "arena_inv (upd g state ((vertices g ! state)\<lparr>frozen := True\<rparr>)) E Z"
proof -
  let ?g = "upd g state ((vertices g ! state)\<lparr>frozen := True\<rparr>)"
  from inv have sh: "shape_inv g E Z {}" and ci: "counter_inv g E {} []"
    and ei: "edge_inv g E {} 0 []" and ri: "reverse_inv g E {}" and ju: "justified g E Z"
    by (simp_all add: arena_inv_iff)
  have D: "is_determined ?g v = is_determined g v" for v
    using st by (cases "v = state") (simp_all add: is_determined_def)
  have W: "win ?g v = win g v" for v
    using st by (cases "v = state") (simp_all add: win_def)
  have O: "own ?g v = own g v" for v
    using st by (cases "v = state") (simp_all add: own_def)
  have Fz: "is_frozen ?g v = (v = state \<or> is_frozen g v)" for v
    using st by (cases "v = state") (simp_all add: is_frozen_def)
  have C: "cnt ?g v = cnt g v" for v
    using st by (cases "v = state") (simp_all add: cnt_def)
  have P: "pend ?g {} E v = pend g {} E v" for v
    by (rule pend_cong) (simp add: D)
  have 1: "shape_inv ?g E Z {}"
    using sh unfolding shape_inv_def by (simp add: D)
  have 2: "counter_inv ?g E {} []"
    unfolding counter_inv_def
  proof (intro allI impI)
    fix v assume "v < length (vertices ?g)" and nd: "\<not> is_determined ?g v"
    then have v: "v < length (vertices g)" and ndg: "\<not> is_determined g v" by (simp_all add: D)
    from counter_invD [OF ci v ndg] show "counter_ok ?g E {} [] v"
      using c ndg by (auto simp: counter_ok_def C P Fz)
  qed
  have 3: "edge_inv ?g E {} 0 []"
    using ei unfolding edge_inv_def by (simp add: D W O)
  have 4: "reverse_inv ?g E {}"
    using ri unfolding reverse_inv_def by (simp add: D)
  have 5: "justified ?g E Z"
    unfolding justified_def
  proof (intro allI impI)
    fix v assume "v < length (vertices ?g)" and h: "is_determined ?g v \<and> v \<notin> Z"
    then have v: "v < length (vertices g)" and hv: "is_determined g v" "v \<notin> Z"
      by (simp_all add: D)
    show "just_ok ?g E v"
      by (rule just_ok_mono [OF justifiedD [OF ju v hv]]) (simp_all add: D W O Fz)
  qed
  show ?thesis unfolding arena_inv_iff using 1 2 3 4 5 by (intro conjI)
qed

lemma arena_inv_new_state:
  assumes inv: "arena_inv g E Z"
  shows "arena_inv (snd (new_state b g)) E Z"
proof -
  define n where "n = length (vertices g)"
  define g' where "g' = snd (new_state b g)"
  from inv have sh: "shape_inv g E Z {}" and ci: "counter_inv g E {} []"
    and ei: "edge_inv g E {} 0 []" and ri: "reverse_inv g E {}" and ju: "justified g E Z"
    by (simp_all add: arena_inv_iff)
  from sh have lr: "length (reverse_m g) = n" by (simp add: shape_inv_def n_def)
  have L: "length (vertices g') = Suc n" by (simp add: g'_def new_state_def n_def)
  have LR: "length (reverse_m g') = Suc n" using lr by (simp add: g'_def new_state_def)
  have D: "is_determined g' v = (v \<noteq> n \<and> is_determined g v)" if "v \<le> n" for v
    using that by (cases "v = n") (simp_all add: g'_def new_state_def n_def is_determined_def nth_append)
  have W: "v < n \<Longrightarrow> win g' v = win g v" for v
    by (simp add: g'_def new_state_def n_def win_def nth_append)
  have O: "v < n \<Longrightarrow> own g' v = own g v" for v
    by (simp add: g'_def new_state_def n_def own_def nth_append)
  have Fz: "is_frozen g' v = (v \<noteq> n \<and> is_frozen g v)" if "v \<le> n" for v
    using that by (cases "v = n") (simp_all add: g'_def new_state_def n_def is_frozen_def nth_append)
  have C: "cnt g' v = (if v = n then 0 else cnt g v)" if "v \<le> n" for v
    using that by (cases "v = n") (simp_all add: g'_def new_state_def n_def cnt_def nth_append)
  have R: "reverse_m g' ! d = (if d = n then [] else reverse_m g ! d)" if "d \<le> n" for d
    using that lr by (cases "d = n") (simp_all add: g'_def new_state_def nth_append)
  have eb: "fst e < n \<and> snd e < n" if "e \<in> set E" for e
    using shape_inv_edge [OF sh that] by (simp add: n_def)
  have rb: "p < n" if "d < n" "p \<in> set (reverse_m g ! d)" for d p
    using shape_inv_reverse [OF sh _ that(2)] that(1) by (simp add: n_def)
  have P: "pend g' {} E v = (if v = n then 0 else pend g {} E v)" for v
  proof (cases "v = n")
    case True
    have "pend g' {} E n = 0" by (rule pend_other) (use eb in auto)
    with True show ?thesis by simp
  next
    case False
    have "pend g' {} E v = pend g {} E v"
    proof (rule pend_cong)
      fix e assume "e \<in> set E"
      from eb [OF this] have "snd e \<le> n" "snd e \<noteq> n" by simp_all
      then show "(\<not> is_determined g' (snd e) \<or> snd e \<in> {}) =
         (\<not> is_determined g (snd e) \<or> snd e \<in> {})" by (simp add: D)
    qed
    with False show ?thesis by simp
  qed
  have 1: "shape_inv g' E Z {}"
    unfolding shape_inv_def L LR
  proof (intro conjI)
    show "Suc n = Suc n" by simp
    show "\<forall>e\<in>set E. fst e < Suc n \<and> snd e < Suc n"
    proof
      fix e assume "e \<in> set E"
      from eb [OF this] show "fst e < Suc n \<and> snd e < Suc n" by simp
    qed
    show "\<forall>d<Suc n. \<forall>p\<in>set (reverse_m g' ! d). p < Suc n"
    proof (intro allI impI ballI)
      fix d p assume d: "d < Suc n" and p: "p \<in> set (reverse_m g' ! d)"
      from d p have dn: "d < n" by (cases "d = n") (simp_all add: R)
      with p have "p \<in> set (reverse_m g ! d)" by (simp add: R)
      from rb [OF dn this] show "p < Suc n" by simp
    qed
    show "\<forall>x\<in>Z. x < Suc n \<and> is_determined g' x"
    proof
      fix z assume "z \<in> Z"
      with sh have "z < n" "is_determined g z" by (simp_all add: shape_inv_def n_def)
      then show "z < Suc n \<and> is_determined g' z" by (simp add: D)
    qed
    show "\<forall>t\<in>{}. t < Suc n \<and> is_determined g' t" by simp
  qed
  have 2: "counter_inv g' E {} []"
    unfolding counter_inv_def L
  proof (intro allI impI)
    fix v assume v: "v < Suc n" and nd: "\<not> is_determined g' v"
    show "counter_ok g' E {} [] v"
    proof (cases "v = n")
      case True
      then show ?thesis by (simp add: counter_ok_def C P Fz)
    next
      case False
      with v nd have vn: "v < length (vertices g)" and ndg: "\<not> is_determined g v"
        by (simp_all add: D n_def)
      show ?thesis
        by (rule counter_ok_cong [OF counter_invD [OF ci vn ndg]])
          (use False v in \<open>simp_all add: C P Fz\<close>)
    qed
  qed
  have 3: "edge_inv g' E {} 0 []"
    unfolding edge_inv_def
  proof (intro ballI impI)
    fix e assume e: "e \<in> set E"
      and h: "\<not> is_determined g' (fst e) \<and> is_determined g' (snd e) \<and> snd e \<notin> {}"
    from eb [OF e] have b: "fst e < n" "snd e < n" by simp_all
    with h have "\<not> is_determined g (fst e)" "is_determined g (snd e)" by (simp_all add: D)
    from edge_invD' [OF ei e this] b
    show "win g' (snd e) \<noteq> own g' (fst e) \<or> (snd e = 0 \<and> fst e \<in> set [])"
      by (simp add: W O)
  qed
  have 4: "reverse_inv g' E {}"
    unfolding reverse_inv_def L
  proof (intro allI impI)
    fix v d assume v: "v < Suc n" and d: "d < Suc n"
      and h: "\<not> is_determined g' v \<and> (\<not> is_determined g' d \<or> d \<in> {})"
    show "count_list (reverse_m g' ! d) v = count_list E (v, d)"
    proof (cases "v = n \<or> d = n")
      case True
      then have "(v, d) \<notin> set E" using eb by force
      then have z: "count_list E (v, d) = 0" by (simp add: count_list_0_iff)
      have "v \<notin> set (reverse_m g' ! d)"
      proof (cases "d = n")
        case True
        then show ?thesis by (simp add: R)
      next
        case False
        with True d have "v = n" "d < n" by simp_all
        then show ?thesis using rb [of d v] by (auto simp: R)
      qed
      with z show ?thesis by (simp add: count_list_0_iff)
    next
      case False
      with v d have vn: "v < length (vertices g)" "d < length (vertices g)" by (simp_all add: n_def)
      from False h v d have "\<not> is_determined g v" "\<not> is_determined g d" by (simp_all add: D)
      from reverse_invD [OF ri vn this(1)] this(2) False d show ?thesis by (simp add: R)
    qed
  qed
  have 5: "justified g' E Z"
    unfolding justified_def L
  proof (intro allI impI)
    fix v assume v: "v < Suc n" and h: "is_determined g' v \<and> v \<notin> Z"
    then have vn: "v < n" and hv: "is_determined g v" "v \<notin> Z" by (auto simp: D less_Suc_eq)
    then have vl: "v < length (vertices g)" by (simp add: n_def)
    show "just_ok g' E v"
    proof (rule just_ok_mono [OF justifiedD [OF ju vl hv]])
      fix d assume "(v, d) \<in> set E" "is_determined g d"
      with eb [of "(v, d)"] show "is_determined g' d \<and> win g' d = win g d" by (simp add: D W)
    qed (use vn in \<open>simp_all add: W O Fz\<close>)
  qed
  have "arena_inv g' E Z" unfolding arena_inv_iff using 1 2 3 4 5 by (intro conjI)
  then show ?thesis unfolding g'_def .
qed


lemma arena_inv_in_graph:
  "arena_inv g E Z \<Longrightarrow> in_graph g v = (v < length (vertices g))"
  by (auto simp: arena_inv_iff shape_inv_def in_graph_def)

lemma new_edge_inv:
  assumes inv: "arena_inv g E Z" and dst: "dst < length (vertices g)"
    and len: "Suc (length E) < 2 ^ 32"
    and run: "new_edge src dst g = Inr (r, g')"
  shows "arena_inv g' (E @ [(src, dst)]) Z \<or> (r \<and> stop_asap_m g')"
proof -
  note ig = arena_inv_in_graph [OF inv]
  from run have src: "src < length (vertices g)"
    by (auto simp: new_edge_def ig split: if_splits)
  from run src have nf: "\<not> is_frozen g src"
    by (auto simp: new_edge_def ig is_frozen_def Let_def split: if_splits)
  then have nf': "\<not> frozen (vertices g ! src)" by (simp add: is_frozen_def)
  show ?thesis
  proof (cases "is_determined g src")
    case True
    with run src nf' have "g' = g" by (simp add: new_edge_def ig is_determined_def Let_def)
    moreover have "arena_inv g (E @ [(src, dst)]) Z"
      by (rule arena_inv_add_edge_ignored [OF inv src dst]) (use True nf in simp)
    ultimately show ?thesis by simp
  next
    case False
    then have nd': "\<not> determined (vertices g ! src)" by (simp add: is_determined_def)
    show ?thesis
    proof (cases "is_determined g dst")
      case dd: False
      then have "\<not> determined (vertices g ! dst)" by (simp add: is_determined_def)
      with run src dst nf' nd' have "g' =
         g\<lparr>reverse_m := (reverse_m g)[dst := reverse_m g ! dst @ [src]],
           vertices := (vertices g)[src := (vertices g ! src)
             \<lparr>counter := (counter (vertices g ! src) + 1) mod 2 ^ 32\<rparr>]\<rparr>"
        by (simp add: new_edge_def ig Let_def)
      with arena_inv_add_edge_declared [OF inv src dst False nf dd len] show ?thesis by simp
    next
      case dd: True
      then have dd': "determined (vertices g ! dst)" by (simp add: is_determined_def)
      show ?thesis
      proof (cases "own g src = win g dst")
        case True
        then have "owner (vertices g ! src) = winner (vertices g ! dst)"
          by (simp add: own_def win_def)
        with run src dst nf' nd' dd'
        have "set_winner src (own g src) dst g = Inr (r, g')"
          by (simp add: new_edge_def ig Let_def own_def)
        then have sw: "set_winner src (own g src) dst (upd g src (vertices g ! src)) = Inr (r, g')"
          by (simp add: upd_id [OF src])
        let ?x = "(vertices g ! src)\<lparr>determined := True, winner := own g src, choice := dst\<rparr>"
        have sd: "src \<noteq> dst" using False dd by auto
        have j: "just_ok (upd g src ?x) (E @ [(src, dst)]) src"
        proof -
          have "win (upd g src ?x) src = own (upd g src ?x) src"
            using src by (simp add: win_def own_def)
          moreover have "(src, dst) \<in> set (E @ [(src, dst)]) \<and> is_determined (upd g src ?x) dst \<and>
             win (upd g src ?x) dst = own (upd g src ?x) src"
            using src sd dd True by (simp add: win_def own_def is_determined_def)
          ultimately show ?thesis unfolding just_ok_def by auto
        qed
        show ?thesis
          by (rule set_winner_inv [OF inv src False _ _ _ _ _ _ j sw])
            (use dst nd' in \<open>auto simp: own_def is_determined_def is_frozen_def\<close>)
      next
        case ow: False
        then have "owner (vertices g ! src) \<noteq> winner (vertices g ! dst)"
          by (simp add: own_def win_def)
        with run src dst nf' nd' dd' have "g' = g" by (simp add: new_edge_def ig Let_def)
        moreover have "arena_inv g (E @ [(src, dst)]) Z"
          by (rule arena_inv_add_edge_ignored [OF inv src dst]) (use False nf dd ow in auto)
        ultimately show ?thesis by simp
      qed
    qed
  qed
qed

lemma freeze_state_inv:
  assumes inv: "arena_inv g E Z" and run: "freeze_state state g = Inr (r, g')"
  shows "arena_inv g' E Z \<or> (r \<and> stop_asap_m g')"
proof -
  note ig = arena_inv_in_graph [OF inv]
  from run have st: "state < length (vertices g)"
    by (auto simp: freeze_state_def ig split: if_splits)
  let ?y = "(vertices g ! state)\<lparr>frozen := True\<rparr>"
  have g1: "g\<lparr>vertices := (vertices g)[state := ?y]\<rparr> = upd g state ?y" by (simp add: upd_def)
  show ?thesis
  proof (cases "\<not> is_determined g state \<and> cnt g state = 0")
    case True
    then have u: "\<not> is_determined g state" and z: "cnt g state = 0" by simp_all
    from run st True have
      sw: "set_winner state (\<not> own g state) 0 (upd g state ?y) = Inr (r, g')"
      unfolding freeze_state_def g1
      by (simp add: ig Let_def is_determined_def cnt_def own_def)
    let ?x = "?y\<lparr>determined := True, winner := \<not> own g state, choice := 0\<rparr>"
    from inv have ci: "counter_inv g E {} []" and ei: "edge_inv g E {} 0 []"
      by (simp_all add: arena_inv_iff)
    from counter_invD [OF ci st u] z have pz: "pend g {} E state = 0"
      by (simp add: counter_ok_def)
    have j: "just_ok (upd g state ?x) (E @ []) state"
    proof -
      have a: "win (upd g state ?x) state \<noteq> own (upd g state ?x) state"
        using st by (simp add: win_def own_def)
      have b: "is_frozen (upd g state ?x) state" using st by (simp add: is_frozen_def)
      have c: "is_determined (upd g state ?x) d \<and> win (upd g state ?x) d \<noteq> own (upd g state ?x) state"
        if d: "(state, d) \<in> set E" for d
      proof -
        from pend_zero [OF pz d] have dd: "is_determined g d" by simp
        then have ds: "d \<noteq> state" using u by auto
        from edge_invD [OF ei d u dd] have "win g d \<noteq> own g state" by simp
        then show ?thesis using dd ds st by (simp add: win_def own_def is_determined_def)
      qed
      show ?thesis unfolding just_ok_def using a b c by simp
    qed
    have "arena_inv g' (E @ []) Z \<or> (r \<and> stop_asap_m g')"
      by (rule set_winner_inv [OF inv st u _ _ _ _ _ _ j sw])
        (use u in \<open>auto simp: own_def is_determined_def\<close>)
    then show ?thesis by simp
  next
    case False
    with run st have "g' = upd g state ?y"
      unfolding freeze_state_def g1
      by (auto simp: ig Let_def is_determined_def cnt_def)
    moreover have "arena_inv (upd g state ?y) E Z"
      by (rule arena_inv_freeze [OF inv st]) (use False in auto)
    ultimately show ?thesis by simp
  qed
qed

lemma set_winner_seed_inv:
  assumes inv: "arena_inv g E Z" and run: "set_winner state w c g = Inr (r, g')"
  shows "arena_inv g' E (insert state Z) \<or> (r \<and> stop_asap_m g')"
proof -
  note ig = arena_inv_in_graph [OF inv]
  from run have st: "state < length (vertices g)"
    by (auto simp: set_winner_def ig split: if_splits)
  from run st have u: "\<not> is_determined g state"
    by (auto simp: set_winner_def ig is_determined_def split: if_splits)
  from run have sw: "set_winner state w c (upd g state (vertices g ! state)) = Inr (r, g')"
    by (simp add: upd_id [OF st])
  have "arena_inv g' (E @ []) (insert state Z) \<or> (r \<and> stop_asap_m g')"
    by (rule set_winner_inv [OF inv st u _ _ _ _ _ _ _ sw])
      (use u in \<open>auto simp: own_def is_determined_def is_frozen_def\<close>)
  then show ?thesis by simp
qed

lemma arena_inv_empty: "arena_inv (new_backprop_graph b) [] {}"
  by (simp add: arena_inv_iff shape_inv_def counter_inv_def edge_inv_def reverse_inv_def
      justified_def new_backprop_graph_def)


section \<open>Determination of the vertices of the arena\<close>

text \<open>
  The graphs that the operations of the class build.  \<open>arena g E Z\<close> holds when \<open>g\<close> is
  the result of a sequence of calls of \<open>new_state\<close>, \<open>new_edge\<close>, \<open>freeze_state\<close> and
  \<open>set_winner\<close> on the empty graph, none of which raised, and none of which returned true
  in a graph created with \<open>stop_asap\<close>; \<open>E\<close> lists the edges \<open>(src, dst)\<close> given to
  \<open>new_edge\<close>, and \<open>Z\<close> holds the vertices that the caller determined with \<open>set_winner\<close>.
\<close>

inductive arena :: "backprop_graph \<Rightarrow> (nat \<times> nat) list \<Rightarrow> nat set \<Rightarrow> bool" where
  arena_empty: "arena (new_backprop_graph stop_asap) [] {}"
| arena_state: "arena g E Z \<Longrightarrow> arena (snd (new_state b g)) E Z"
| arena_edge:
    "arena g E Z \<Longrightarrow> dst < length (vertices g) \<Longrightarrow> new_edge src dst g = Inr (r, g') \<Longrightarrow>
     \<not> (r \<and> stop_asap_m g') \<Longrightarrow> arena g' (E @ [(src, dst)]) Z"
| arena_freeze:
    "arena g E Z \<Longrightarrow> freeze_state v g = Inr (r, g') \<Longrightarrow> \<not> (r \<and> stop_asap_m g') \<Longrightarrow>
     arena g' E Z"
| arena_winner:
    "arena g E Z \<Longrightarrow> set_winner v w c g = Inr (r, g') \<Longrightarrow> \<not> (r \<and> stop_asap_m g') \<Longrightarrow>
     arena g' E (insert v Z)"

text \<open>A run without \<open>stop_asap\<close>: two vertices, the edge from 0 to 1, and vertex 1 given
  to the owner of vertex 0.\<close>

definition arena_example :: backprop_graph where
  "arena_example =
     \<lparr>vertices =
        [\<lparr>owner = True, frozen = False, determined = True, winner = True, choice = 1, counter = 1\<rparr>,
         \<lparr>owner = False, frozen = False, determined = True, winner = True, choice = 0, counter = 0\<rparr>],
      reverse_m = [[], [0]], stop_asap_m = False\<rparr>"

text \<open>A run with \<open>stop_asap\<close>: four vertices of the same owner, the edges from 1, 0 and 3
  to 2, in this order, and vertex 2 given to their owner.\<close>

definition backprop_early_stop :: "error + bool \<times> backprop_graph" where
  "backprop_early_stop =
     (let g0 = new_backprop_graph True;
          g1 = snd (new_state False g0);
          g2 = snd (new_state False g1);
          g3 = snd (new_state False g2);
          g4 = snd (new_state False g3)
      in case new_edge 1 2 g4 of
           Inl e \<Rightarrow> Inl e
         | Inr (r5, g5) \<Rightarrow>
             (case new_edge 0 2 g5 of
                Inl e \<Rightarrow> Inl e
              | Inr (r6, g6) \<Rightarrow>
                  (case new_edge 3 2 g6 of
                     Inl e \<Rightarrow> Inl e
                   | Inr (r7, g7) \<Rightarrow> set_winner 2 False 0 g7)))"

lemma arena_invariant:
  "arena g E Z \<Longrightarrow> length E < 2 ^ 32 \<Longrightarrow> arena_inv g E Z"
proof (induction rule: arena.induct)
  case (arena_empty stop_asap)
  show ?case by (rule arena_inv_empty)
next
  case (arena_state g E Z b)
  then show ?case by (simp add: arena_inv_new_state)
next
  case (arena_edge g E Z dst src r g')
  from arena_edge.prems have len: "Suc (length E) < 2 ^ 32" by simp
  then have "arena_inv g E Z" using arena_edge.IH by simp
  from new_edge_inv [OF this arena_edge.hyps(2) len arena_edge.hyps(3)] arena_edge.hyps(4)
  show ?case by blast
next
  case (arena_freeze g E Z v r g')
  then have "arena_inv g E Z" by simp
  from freeze_state_inv [OF this arena_freeze.hyps(2)] arena_freeze.hyps(3)
  show ?case by blast
next
  case (arena_winner g E Z v w c r g')
  then have "arena_inv g E Z" by simp
  from set_winner_seed_inv [OF this arena_winner.hyps(2)] arena_winner.hyps(3)
  show ?case by blast
qed

lemma arena_inv_winning:
  assumes inv: "arena_inv g E Z" and v: "v < length (vertices g)" "v \<notin> Z"
  shows "(is_determined g v \<and> win g v = own g v) =
         (\<exists>d. (v, d) \<in> set E \<and> is_determined g d \<and> win g d = own g v)"
proof
  assume "is_determined g v \<and> win g v = own g v"
  then have d: "is_determined g v" and w: "win g v = own g v" by simp_all
  from inv have "justified g E Z" by (simp add: arena_inv_iff)
  from justifiedD [OF this v(1) d v(2)] w
  show "\<exists>d. (v, d) \<in> set E \<and> is_determined g d \<and> win g d = own g v"
    by (simp add: just_ok_def)
next
  assume "\<exists>d. (v, d) \<in> set E \<and> is_determined g d \<and> win g d = own g v"
  then obtain d where d: "(v, d) \<in> set E" "is_determined g d" "win g d = own g v" by blast
  from inv have ei: "edge_inv g E {} 0 []" and ju: "justified g E Z"
    by (simp_all add: arena_inv_iff)
  have dv: "is_determined g v"
  proof (rule ccontr)
    assume "\<not> is_determined g v"
    from edge_invD [OF ei d(1) this d(2)] d(3) show False by simp
  qed
  have "win g v = own g v"
  proof (rule ccontr)
    assume "win g v \<noteq> own g v"
    with justifiedD [OF ju v(1) dv v(2)] d show False by (auto simp: just_ok_def)
  qed
  with dv show "is_determined g v \<and> win g v = own g v" by simp
qed

lemma arena_inv_losing:
  assumes inv: "arena_inv g E Z" and v: "v < length (vertices g)" "v \<notin> Z"
  shows "(is_determined g v \<and> win g v \<noteq> own g v) =
         (is_frozen g v \<and> (\<forall>d. (v, d) \<in> set E \<longrightarrow> is_determined g d \<and> win g d \<noteq> own g v))"
proof
  assume "is_determined g v \<and> win g v \<noteq> own g v"
  then have d: "is_determined g v" and w: "win g v \<noteq> own g v" by simp_all
  from inv have "justified g E Z" by (simp add: arena_inv_iff)
  from justifiedD [OF this v(1) d v(2)] w
  show "is_frozen g v \<and> (\<forall>d. (v, d) \<in> set E \<longrightarrow> is_determined g d \<and> win g d \<noteq> own g v)"
    by (simp add: just_ok_def)
next
  assume a: "is_frozen g v \<and> (\<forall>d. (v, d) \<in> set E \<longrightarrow> is_determined g d \<and> win g d \<noteq> own g v)"
  from inv have ci: "counter_inv g E {} []" and ju: "justified g E Z"
    by (simp_all add: arena_inv_iff)
  have dv: "is_determined g v"
  proof (rule ccontr)
    assume nd: "\<not> is_determined g v"
    have "pend g {} E v = 0" using a by (auto simp: pend_def filter_empty_conv)
    with counter_invD [OF ci v(1) nd] a show False by (auto simp: counter_ok_def)
  qed
  have "win g v \<noteq> own g v"
  proof
    assume "win g v = own g v"
    with justifiedD [OF ju v(1) dv v(2)] a show False by (auto simp: just_ok_def)
  qed
  with dv show "is_determined g v \<and> win g v \<noteq> own g v" by simp
qed

lemma arena_example_reached: "arena arena_example [(0, 1)] {1}"
proof -
  let ?v0 = "\<lparr>owner = True, frozen = False, determined = False, winner = False, choice = 0,
       counter = 0\<rparr>"
  let ?v1 = "\<lparr>owner = False, frozen = False, determined = False, winner = False, choice = 0,
       counter = 0\<rparr>"
  let ?g2 = "\<lparr>vertices = [?v0, ?v1], reverse_m = [[], []], stop_asap_m = False\<rparr>"
  let ?g3 = "\<lparr>vertices = [?v0\<lparr>counter := 1\<rparr>, ?v1], reverse_m = [[], [0]], stop_asap_m = False\<rparr>"
  have "arena (snd (new_state False (snd (new_state True (new_backprop_graph False))))) [] {}"
    by (intro arena_state arena_empty)
  then have a2: "arena ?g2 [] {}"
    by (simp add: new_state_def new_backprop_graph_def)
  have e: "new_edge 0 1 ?g2 = Inr (False, ?g3)"
    by (simp add: new_edge_def in_graph_def)
  have a3: "arena ?g3 ([] @ [(0, 1)]) {}"
    by (rule arena_edge [OF a2 _ e]) simp_all
  have w: "set_winner 1 True 0 ?g3 = Inr (True, arena_example)"
    by (simp add: set_winner_def in_graph_def arena_example_def)
  have "arena arena_example ([] @ [(0, 1)]) (insert 1 {})"
    by (rule arena_winner [OF a3 w]) (simp add: arena_example_def)
  then show ?thesis by simp
qed

text \<open>
  Claim C6, as the code has it.  In a graph built by the operations of the class, with fewer
  than \<open>2 ^ 32\<close> edges given to \<open>new_edge\<close>, as long as no operation has returned true in
  \<open>stop_asap\<close> mode, and for every vertex \<open>v\<close> that the caller did not determine itself with
  \<open>set_winner\<close>: \<open>v\<close> is determined as winning for its owner exactly when one of its edges
  leads to a vertex determined as winning for that owner, and \<open>v\<close> is determined as losing
  for its owner exactly when \<open>v\<close> is frozen and all its edges lead to vertices determined as
  losing for that owner.
\<close>

theorem backprop_determination:
  assumes "arena g E Z" and "length E < 2 ^ 32" and "v < length (vertices g)" and "v \<notin> Z"
  shows "((is_determined g v \<and> win g v = own g v) =
            (\<exists>d. (v, d) \<in> set E \<and> is_determined g d \<and> win g d = own g v)) \<and>
         ((is_determined g v \<and> win g v \<noteq> own g v) =
            (is_frozen g v \<and>
             (\<forall>d. (v, d) \<in> set E \<longrightarrow> is_determined g d \<and> win g d \<noteq> own g v)))"
proof -
  from assms(1,2) have inv: "arena_inv g E Z" by (rule arena_invariant)
  show ?thesis
    using arena_inv_winning [OF inv assms(3,4)] arena_inv_losing [OF inv assms(3,4)]
    by (rule conjI)
qed

theorem backprop_determination_witness:
  "arena arena_example [(0, 1)] {1} \<and> length [(0::nat, 1::nat)] < 2 ^ 32 \<and>
   0 < length (vertices arena_example) \<and> (0::nat) \<notin> {1} \<and>
   (is_determined arena_example 0 \<and> win arena_example 0 = own arena_example 0) \<and>
   (\<exists>d. (0, d) \<in> set [(0::nat, 1::nat)] \<and> is_determined arena_example d \<and>
        win arena_example d = own arena_example 0) \<and>
   \<not> is_frozen arena_example 0"
proof -
  have a: "arena arena_example [(0, 1)] {1}" by (rule arena_example_reached)
  have l: "length [(0::nat, 1::nat)] < 2 ^ 32" by simp
  have v: "0 < length (vertices arena_example)" by (simp add: arena_example_def)
  have z: "(0::nat) \<notin> {1}" by simp
  have d: "is_determined arena_example 0 \<and> win arena_example 0 = own arena_example 0"
    by (simp add: arena_example_def is_determined_def win_def own_def)
  have f: "\<not> is_frozen arena_example 0" by (simp add: arena_example_def is_frozen_def)
  from conjunct1 [OF backprop_determination [OF a l v z]] d
  have "\<exists>d. (0, d) \<in> set [(0::nat, 1::nat)] \<and> is_determined arena_example d \<and>
        win arena_example d = own arena_example 0" by simp
  with a l v z d f show ?thesis by blast
qed

text \<open>
  With \<open>stop_asap\<close>, \<open>set_winner\<close> returns as soon as vertex 0 is determined: the
  predecessors that remain are not visited.  Here vertex 3 has an edge to vertex 2, which is
  determined as winning for the owner of vertex 3, and vertex 3 is left undetermined.
\<close>

theorem backprop_early_stop_counterexample:
  "\<exists>g. backprop_early_stop = Inr (True, g) \<and> stop_asap_m g \<and>
       is_determined g 2 \<and> win g 2 = own g 3 \<and> is_determined g 1 \<and> \<not> is_determined g 3"
  by (simp add: backprop_early_stop_def new_backprop_graph_def new_state_def new_edge_def
      set_winner_def in_graph_def Let_def is_determined_def win_def own_def)


section \<open>The product of two automata\<close>

text \<open>
  A state of the product is a pair of states, each an \<open>unsigned\<close> of 32 bits.  The two
  largest values stand for the two constants: \<open>-1U\<close> is the state of the constant true and
  \<open>-2U\<close> the state of the constant false.
\<close>

type_synonym product_state = "nat \<times> nat"

definition state_true :: nat where
  "state_true = 2 ^ 32 - 1"

definition state_false :: nat where
  "state_false = 2 ^ 32 - 2"

text \<open>
  \<open>product_data\<close>.  The table of the sources maps every pair of states to an array of two
  \<open>int\<close>: the slot of index \<open>may_stop\<close> holds the BDD node of the terminal
  \<open>2 * value + may_stop\<close> once that terminal has been asked for, and until then the
  complement \<open>~value\<close> of the number of the pair, which is told from a node by its sign.
  A node is modelled by the terminal itself.  The model keeps the number of each pair, in
  the order of their creation (\<open>pair_to_terminal_map\<close>), the slots that hold a node
  (\<open>terminal_nodes\<close>), and the queue of the pairs to process.
\<close>

record product_data =
  pair_to_terminal_map :: "(product_state \<times> nat) list"
  terminal_nodes :: "(product_state \<times> bool) list"
  pd_todo :: "product_state list"

text \<open>\<open>leaf_to_state\<close>: the state and the accepting bit that a leaf denotes.  The
  quotient \<open>v / 2\<close> of the value of a terminal, an \<open>int\<close>, is converted to \<open>unsigned\<close>.\<close>

definition leaf_to_state :: "bdd \<Rightarrow> nat \<times> bool" where
  "leaf_to_state b =
     (if b = bddfalse then (state_false, False)
      else if b = bddtrue then (state_true, True)
      else (nat ((bdd_get_terminal b sdiv 2) mod 2 ^ 32), bdd_get_terminal b AND 1 \<noteq> 0))"

text \<open>\<open>pair_to_terminal\<close>.  The number of a new pair is the size of the table, an
  \<open>unsigned\<close>; the value of the terminal is an \<open>int\<close>.  For a pair of the table whose slot
  holds no node yet, the slot holds \<open>~value\<close>, which is negative as an \<open>int\<close> when the number
  is below \<open>2 ^ 31\<close>; otherwise the sources take the content of the slot for a node, which
  is the error \<open>Out_of_range\<close> of the model.\<close>

definition pair_to_terminal ::
  "nat \<Rightarrow> nat \<Rightarrow> bool \<Rightarrow> product_data \<Rightarrow> error + bdd \<times> product_data" where
  "pair_to_terminal left right may_stop pd =
     (case map_of (pair_to_terminal_map pd) (left, right) of
        Some v \<Rightarrow>
          (if ((left, right), may_stop) \<in> set (terminal_nodes pd)
           then Inr (bdd_terminal (int32 (2 * int v + (if may_stop then 1 else 0))), pd)
           else if v < 2 ^ 31
           then Inr (bdd_terminal (int32 (2 * int v + (if may_stop then 1 else 0))),
                     pd\<lparr>terminal_nodes := ((left, right), may_stop) # terminal_nodes pd\<rparr>)
           else Inl Out_of_range)
      | None \<Rightarrow>
         (let v = length (pair_to_terminal_map pd) mod 2 ^ 32
          in Inr (bdd_terminal (int32 (2 * int v + (if may_stop then 1 else 0))),
                  pd\<lparr>pair_to_terminal_map := pair_to_terminal_map pd @ [((left, right), v)],
                     terminal_nodes := ((left, right), may_stop) # terminal_nodes pd,
                     pd_todo := pd_todo pd @ [(left, right)]\<rparr>)))"

definition pair_to_terminal_bdd ::
  "nat \<Rightarrow> nat \<Rightarrow> bool \<Rightarrow> product_data \<Rightarrow> error + bdd \<times> product_data" where
  "pair_to_terminal_bdd left right may_stop pd =
     (if left = state_false \<and> right = state_false \<and> \<not> may_stop then Inr (bddfalse, pd)
      else if left = state_true \<and> right = state_true \<and> may_stop then Inr (bddtrue, pd)
      else pair_to_terminal left right may_stop pd)"

definition leaf_combine_and :: "bdd \<Rightarrow> bdd \<Rightarrow> product_data \<Rightarrow> error + bdd \<times> product_data" where
  "leaf_combine_and left right pd =
     (if left = bddfalse \<or> right = bddfalse then Inr (bddfalse, pd)
      else
        (case leaf_to_state left of
           (ls, lb) \<Rightarrow>
             (case leaf_to_state right of
                (rs, rb) \<Rightarrow> pair_to_terminal_bdd ls rs (lb \<and> rb) pd)))"

definition leaf_combine_or :: "bdd \<Rightarrow> bdd \<Rightarrow> product_data \<Rightarrow> error + bdd \<times> product_data" where
  "leaf_combine_or left right pd =
     (if left = bddtrue \<or> right = bddtrue then Inr (bddtrue, pd)
      else
        (case leaf_to_state left of
           (ls, lb) \<Rightarrow>
             (case leaf_to_state right of
                (rs, rb) \<Rightarrow> pair_to_terminal_bdd ls rs (lb \<or> rb) pd)))"

definition leaf_combine_implies ::
  "bdd \<Rightarrow> bdd \<Rightarrow> product_data \<Rightarrow> error + bdd \<times> product_data" where
  "leaf_combine_implies left right pd =
     (if left = bddfalse \<or> right = bddtrue then Inr (bddtrue, pd)
      else
        (case leaf_to_state left of
           (ls, lb) \<Rightarrow>
             (case leaf_to_state right of
                (rs, rb) \<Rightarrow> pair_to_terminal_bdd ls rs (\<not> lb \<or> rb) pd)))"

text \<open>The two tests of \<open>leaf_combine_equiv\<close> and \<open>leaf_combine_xor\<close> on the identifiers of
  the nodes: the left leaf is a constant and the right leaf is the same constant, or the
  other constant.\<close>

definition leaf_combine_equiv ::
  "bdd \<Rightarrow> bdd \<Rightarrow> product_data \<Rightarrow> error + bdd \<times> product_data" where
  "leaf_combine_equiv left right pd =
     (if (left = bddfalse \<or> left = bddtrue) \<and> left = right then Inr (bddtrue, pd)
      else if (left = bddfalse \<and> right = bddtrue) \<or> (left = bddtrue \<and> right = bddfalse)
      then Inr (bddfalse, pd)
      else
        (case leaf_to_state left of
           (ls, lb) \<Rightarrow>
             (case leaf_to_state right of
                (rs, rb) \<Rightarrow> pair_to_terminal_bdd ls rs (lb = rb) pd)))"

definition leaf_combine_xor ::
  "bdd \<Rightarrow> bdd \<Rightarrow> product_data \<Rightarrow> error + bdd \<times> product_data" where
  "leaf_combine_xor left right pd =
     (if (left = bddfalse \<or> left = bddtrue) \<and> left = right then Inr (bddfalse, pd)
      else if (left = bddfalse \<and> right = bddtrue) \<or> (left = bddtrue \<and> right = bddfalse)
      then Inr (bddtrue, pd)
      else
        (case leaf_to_state left of
           (ls, lb) \<Rightarrow>
             (case leaf_to_state right of
                (rs, rb) \<Rightarrow> pair_to_terminal_bdd ls rs (lb \<noteq> rb) pd)))"

text \<open>The root and the name of a state of an operand; a read of the vector of states
  outside its bounds is the error \<open>Out_of_range\<close>.\<close>

definition bdd_and_formula_from_state :: "nat \<Rightarrow> mtdfa \<Rightarrow> error + bdd \<times> formula option" where
  "bdd_and_formula_from_state s dfa =
     (if s = state_false then Inr (bddfalse, Some ff)
      else if s = state_true then Inr (bddtrue, Some tt)
      else if \<not> s < length (states dfa) then Inl Out_of_range
      else if s \<ge> length (names dfa) then Inr (states dfa ! s, None)
      else Inr (states dfa ! s, Some (names dfa ! s)))"

text \<open>The operators that \<open>product_mtdfa_aux\<close> receives.\<close>

datatype product_op = Op_And | Op_Or | Op_Implies | Op_Equiv | Op_Xor | Op_Not

definition product_combine ::
  "product_op \<Rightarrow> (bdd \<Rightarrow> bdd \<Rightarrow> product_data \<Rightarrow> error + bdd \<times> product_data) \<times> bddop" where
  "product_combine o' =
     (case o' of
        Op_And \<Rightarrow> (leaf_combine_and, bddop_and_zero)
      | Op_Or \<Rightarrow> (leaf_combine_or, bddop_or_one)
      | Op_Implies \<Rightarrow> (leaf_combine_implies, bddop_imp_one)
      | Op_Equiv \<Rightarrow> (leaf_combine_equiv, bddop_none)
      | _ \<Rightarrow> (leaf_combine_xor, bddop_none))"

definition product_name :: "product_op \<Rightarrow> formula \<Rightarrow> formula \<Rightarrow> formula" where
  "product_name o' l r =
     (case o' of
        Op_And \<Rightarrow> formula_And [l, r]
      | Op_Or \<Rightarrow> formula_Or [l, r]
      | Op_Implies \<Rightarrow> formula_Implies l r
      | Op_Equiv \<Rightarrow> formula_Equiv l r
      | _ \<Rightarrow> formula_Xor l r)"

text \<open>The loop of \<open>product_mtdfa_aux\<close> over the queue: one state of the result per pair.
  The loop ends when the queue is empty; the model gives no result if it does not end.\<close>

partial_function (option) product_loop ::
  "mtdfa \<Rightarrow> mtdfa \<Rightarrow> product_op \<Rightarrow> product_data \<Rightarrow> bdd list \<Rightarrow> formula list \<Rightarrow>
   (error + bdd list \<times> formula list) option"
where
  "product_loop dfa1 dfa2 o' pd sts nms =
     (case pd_todo pd of
        [] \<Rightarrow> Some (Inr (sts, nms))
      | s # rest \<Rightarrow>
         (case bdd_and_formula_from_state (fst s) dfa1 of
            Inl e \<Rightarrow> Some (Inl e)
          | Inr (left, left_f) \<Rightarrow>
             (case bdd_and_formula_from_state (snd s) dfa2 of
                Inl e \<Rightarrow> Some (Inl e)
              | Inr (right, right_f) \<Rightarrow>
                 (case bdd_mt_apply2_leaves left right (fst (product_combine o'))
                         (snd (product_combine o')) (pd\<lparr>pd_todo := rest\<rparr>) of
                    Inl e \<Rightarrow> Some (Inl e)
                  | Inr (b, pd1) \<Rightarrow>
                      product_loop dfa1 dfa2 o' pd1 (sts @ [b])
                        (case (left_f, right_f) of
                           (Some l, Some r) \<Rightarrow> nms @ [product_name o' l r]
                         | _ \<Rightarrow> nms)))))"

text \<open>Modelled from the spec: the union of two sorted lists of atomic propositions, in
  the order \<open>lt\<close> of the formula library.\<close>

fun set_union :: "(formula \<Rightarrow> formula \<Rightarrow> bool) \<Rightarrow> formula list \<Rightarrow> formula list \<Rightarrow> formula list" where
  "set_union lt [] ys = ys"
| "set_union lt xs [] = xs"
| "set_union lt (x # xs) (y # ys) =
     (if lt x y then x # set_union lt xs (y # ys)
      else if lt y x then y # set_union lt (x # xs) ys
      else x # set_union lt xs ys)"

text \<open>\<open>product_mtdfa_aux\<close>.  The two automata come with their dictionaries, which must be
  the same one; the order \<open>lt\<close> of the formula library is a parameter.\<close>

definition product_mtdfa_aux ::
  "(formula \<Rightarrow> formula \<Rightarrow> bool) \<Rightarrow> bdd_dict \<times> mtdfa \<Rightarrow> bdd_dict \<times> mtdfa \<Rightarrow> product_op \<Rightarrow>
   (error + mtdfa) option" where
  "product_mtdfa_aux lt dfa1 dfa2 o' =
     (if fst dfa1 \<noteq> fst dfa2 then Some (Inl Different_dictionaries)
      else if o' = Op_Not then Some (Inl Unsupported_operator)
      else
        (case pair_to_terminal 0 0 False
                \<lparr>pair_to_terminal_map = [], terminal_nodes = [], pd_todo = []\<rparr> of
           Inl e \<Rightarrow> Some (Inl e)
         | Inr (initial, pd) \<Rightarrow>
            (case product_loop (snd dfa1) (snd dfa2) o' pd [] [] of
               None \<Rightarrow> None
             | Some (Inl e) \<Rightarrow> Some (Inl e)
             | Some (Inr (sts, nms)) \<Rightarrow>
                 Some (Inr \<lparr>states = sts, names = nms,
                            aps = set_union lt (aps (snd dfa1)) (aps (snd dfa2)),
                            controllable_variables = bddtrue\<rparr>))))"

definition product :: "(formula \<Rightarrow> formula \<Rightarrow> bool) \<Rightarrow> bdd_dict \<times> mtdfa \<Rightarrow> bdd_dict \<times> mtdfa \<Rightarrow> (error + mtdfa) option" where
  "product lt dfa1 dfa2 = product_mtdfa_aux lt dfa1 dfa2 Op_And"

definition product_or :: "(formula \<Rightarrow> formula \<Rightarrow> bool) \<Rightarrow> bdd_dict \<times> mtdfa \<Rightarrow> bdd_dict \<times> mtdfa \<Rightarrow> (error + mtdfa) option" where
  "product_or lt dfa1 dfa2 = product_mtdfa_aux lt dfa1 dfa2 Op_Or"

definition product_xnor :: "(formula \<Rightarrow> formula \<Rightarrow> bool) \<Rightarrow> bdd_dict \<times> mtdfa \<Rightarrow> bdd_dict \<times> mtdfa \<Rightarrow> (error + mtdfa) option" where
  "product_xnor lt dfa1 dfa2 = product_mtdfa_aux lt dfa1 dfa2 Op_Equiv"

definition product_xor :: "(formula \<Rightarrow> formula \<Rightarrow> bool) \<Rightarrow> bdd_dict \<times> mtdfa \<Rightarrow> bdd_dict \<times> mtdfa \<Rightarrow> (error + mtdfa) option" where
  "product_xor lt dfa1 dfa2 = product_mtdfa_aux lt dfa1 dfa2 Op_Xor"

definition product_implies :: "(formula \<Rightarrow> formula \<Rightarrow> bool) \<Rightarrow> bdd_dict \<times> mtdfa \<Rightarrow> bdd_dict \<times> mtdfa \<Rightarrow> (error + mtdfa) option" where
  "product_implies lt dfa1 dfa2 = product_mtdfa_aux lt dfa1 dfa2 Op_Implies"


section \<open>The language of a product\<close>

subsection \<open>The binary apply, leaf by leaf, for any state\<close>

lemma bdd_mt_apply2_leaves_leafwise:
  assumes le_trans: "\<And>s s1 s2. ext s s1 \<Longrightarrow> ext s1 s2 \<Longrightarrow> ext s s2"
    and stable: "\<And>s s' x y z. S s x y z \<Longrightarrow> ext s s' \<Longrightarrow> S s' x y z"
    and comb: "\<And>x y s z s'. J s \<Longrightarrow> comb x y s = Inr (z, s') \<Longrightarrow>
       J s' \<and> ext s s' \<and> bdd_is_leaf z \<and> (ok s' \<longrightarrow> S s' x y z)"
    and guard: "\<And>s s'. ext s s' \<Longrightarrow> ok s' \<Longrightarrow> ok s"
    and short: "\<And>l r c s a. apply_shortcut opr l r = Some c \<Longrightarrow>
       S s (bdd_eval l a) (bdd_eval r a) (bdd_eval c a)"
    and ext_refl: "\<And>s. ext s s"
    and inv: "J s"
    and run: "bdd_mt_apply2_leaves l r comb opr s = Inr (b, s')"
  shows "J s' \<and> ext s s' \<and>
     (ok s' \<longrightarrow> (\<forall>a. S s' (bdd_eval l a) (bdd_eval r a) (bdd_eval b a)))"
  using comb short inv run
proof (induction l r comb opr s arbitrary: b s' rule: bdd_mt_apply2_leaves.induct)
  case (1 l r cmb opr s)
  note cmb = "1.prems"(1) and short = "1.prems"(2) and inv = "1.prems"(3) and res = "1.prems"(4)
  show ?case
  proof (cases "apply_shortcut opr l r")
    case (Some c)
    with res have "b = c" "s' = s" by (simp_all add: bdd_mt_apply2_leaves.simps)
    with inv short [OF Some] ext_refl show ?thesis by simp
  next
    case None
    show ?thesis
    proof (cases "bdd_is_leaf l \<and> bdd_is_leaf r")
      case True
      with None res have c: "cmb l r s = Inr (b, s')"
        by (simp add: bdd_mt_apply2_leaves.simps)
      from cmb [OF inv c] True show ?thesis by (simp add: bdd_eval_is_leaf)
    next
      case False
      let ?x = "bdd_top l r"
      from None False res obtain lo s1 hi where
        lo: "bdd_mt_apply2_leaves (bdd_low_at ?x l) (bdd_low_at ?x r) cmb opr s = Inr (lo, s1)"
        and hi: "bdd_mt_apply2_leaves (bdd_high_at ?x l) (bdd_high_at ?x r) cmb opr s1 = Inr (hi, s')"
        and b: "b = bdd_makenode ?x lo hi"
        by (subst (asm) bdd_mt_apply2_leaves.simps) (auto split: sum.splits)
      note L = "1.IH"(1) [OF None False cmb short inv lo]
      then have i1: "J s1" and le1: "ext s s1" by simp_all
      note H = "1.IH"(2) [OF None False lo refl cmb short i1 hi]
      then have i2: "J s'" and le2: "ext s1 s'" by simp_all
      have "S s' (bdd_eval l a) (bdd_eval r a) (bdd_eval b a)" if bd: "ok s'" for a
      proof (cases "a ?x")
        case True
        from H bd have "S s' (bdd_eval (bdd_high_at ?x l) a) (bdd_eval (bdd_high_at ?x r) a)
            (bdd_eval hi a)" by blast
        with True show ?thesis by (simp add: b bdd_eval_makenode bdd_eval_high_at)
      next
        case na: False
        from guard [OF le2 bd] have bd1: "ok s1" .
        from L bd1 have "S s1 (bdd_eval (bdd_low_at ?x l) a) (bdd_eval (bdd_low_at ?x r) a)
            (bdd_eval lo a)" by blast
        with na have "S s1 (bdd_eval l a) (bdd_eval r a) (bdd_eval lo a)"
          by (simp add: bdd_eval_low_at)
        from stable [OF this le2] na show ?thesis by (simp add: b bdd_eval_makenode)
      qed
      with i2 le_trans [OF le1 le2] show ?thesis by blast
    qed
  qed
qed

subsection \<open>The table of the pairs\<close>

text \<open>The Boolean operation of an operator, and the leaves that a combiner decides
  without looking at the states.\<close>

fun op_bits :: "product_op \<Rightarrow> bool \<Rightarrow> bool \<Rightarrow> bool" where
  "op_bits Op_And l r = (l \<and> r)"
| "op_bits Op_Or l r = (l \<or> r)"
| "op_bits Op_Implies l r = (\<not> l \<or> r)"
| "op_bits Op_Equiv l r = (l = r)"
| "op_bits Op_Xor l r = (l \<noteq> r)"
| "op_bits Op_Not l r = (l \<noteq> r)"

definition op_const :: "product_op \<Rightarrow> bdd \<Rightarrow> bdd \<Rightarrow> bdd option" where
  "op_const o' x y =
     (case o' of
        Op_And \<Rightarrow> (if x = bddfalse \<or> y = bddfalse then Some bddfalse else None)
      | Op_Or \<Rightarrow> (if x = bddtrue \<or> y = bddtrue then Some bddtrue else None)
      | Op_Implies \<Rightarrow> (if x = bddfalse \<or> y = bddtrue then Some bddtrue else None)
      | Op_Equiv \<Rightarrow>
          (if (x = bddfalse \<or> x = bddtrue) \<and> x = y then Some bddtrue
           else if (x = bddfalse \<and> y = bddtrue) \<or> (x = bddtrue \<and> y = bddfalse)
           then Some bddfalse else None)
      | _ \<Rightarrow>
          (if (x = bddfalse \<or> x = bddtrue) \<and> x = y then Some bddfalse
           else if (x = bddfalse \<and> y = bddtrue) \<or> (x = bddtrue \<and> y = bddfalse)
           then Some bddtrue else None))"

lemma product_combine_eq:
  "fst (product_combine o') x y pd =
     (case op_const o' x y of
        Some c \<Rightarrow> Inr (c, pd)
      | None \<Rightarrow>
          pair_to_terminal_bdd (fst (leaf_to_state x)) (fst (leaf_to_state y))
            (op_bits o' (snd (leaf_to_state x)) (snd (leaf_to_state y))) pd)"
  by (cases o')
     (auto simp: product_combine_def op_const_def leaf_combine_and_def leaf_combine_or_def
        leaf_combine_implies_def leaf_combine_equiv_def leaf_combine_xor_def
        split: prod.splits)

definition pd_bounded :: "product_data \<Rightarrow> bool" where
  "pd_bounded pd = (length (pair_to_terminal_map pd) \<le> 2 ^ 30)"

text \<open>The invariant of the table and of the queue, \<open>c\<close> pairs having left the queue: the
  pairs of the table are distinct, the queue holds the pairs of the table but the first
  \<open>c\<close> ones, and (as long as the numbers fit) the number of a pair is its rank.\<close>

definition pd_inv :: "nat \<Rightarrow> product_data \<Rightarrow> bool" where
  "pd_inv c pd =
     (distinct (map fst (pair_to_terminal_map pd)) \<and>
      pd_todo pd = drop c (map fst (pair_to_terminal_map pd)) \<and>
      c \<le> length (pair_to_terminal_map pd) \<and>
      (pd_bounded pd \<longrightarrow>
         map snd (pair_to_terminal_map pd) = [0..<length (pair_to_terminal_map pd)]))"

definition pd_le :: "product_data \<Rightarrow> product_data \<Rightarrow> bool" where
  "pd_le pd pd' = (\<exists>xs. pair_to_terminal_map pd' = pair_to_terminal_map pd @ xs)"

lemma pd_le_refl: "pd_le pd pd"
  by (simp add: pd_le_def)

lemma pd_le_trans: "pd_le a b \<Longrightarrow> pd_le b c \<Longrightarrow> pd_le a c"
  by (auto simp: pd_le_def)

lemma pd_le_bounded: "pd_le pd pd' \<Longrightarrow> pd_bounded pd' \<Longrightarrow> pd_bounded pd"
  by (auto simp: pd_le_def pd_bounded_def)

lemma pd_le_map_of:
  "pd_le pd pd' \<Longrightarrow> map_of (pair_to_terminal_map pd) k = Some v \<Longrightarrow>
   map_of (pair_to_terminal_map pd') k = Some v"
  by (auto simp: pd_le_def)

lemma pd_inv_value:
  assumes "pd_inv c pd" "pd_bounded pd" "map_of (pair_to_terminal_map pd) k = Some v"
  shows "v < length (pair_to_terminal_map pd) \<and> fst (pair_to_terminal_map pd ! v) = k"
proof -
  let ?m = "pair_to_terminal_map pd"
  from assms(3) have "(k, v) \<in> set ?m" by (rule map_of_SomeD)
  then obtain i where i: "i < length ?m" "?m ! i = (k, v)" by (auto simp: in_set_conv_nth)
  from assms(1,2) have "map snd ?m = [0..<length ?m]" by (simp add: pd_inv_def)
  then have "map snd ?m ! i = [0..<length ?m] ! i" by simp
  with i have "v = i" by simp
  with i show ?thesis by simp
qed

lemma pair_to_terminal_spec:
  assumes inv: "pd_inv c pd" and r: "pair_to_terminal l r b pd = Inr (z, pd')"
  shows "pd_inv c pd' \<and> pd_le pd pd' \<and> bdd_is_leaf z \<and>
     (pd_bounded pd' \<longrightarrow>
        (\<exists>v. map_of (pair_to_terminal_map pd') (l, r) = Some v \<and>
             z = bdd_terminal (2 * int v + (if b then 1 else 0))))"
proof (cases "map_of (pair_to_terminal_map pd) (l, r)")
  case (Some v)
  with r have e: "pair_to_terminal_map pd' = pair_to_terminal_map pd" "pd_todo pd' = pd_todo pd"
    "z = bdd_terminal (int32 (2 * int v + (if b then 1 else 0)))"
    by (auto simp: pair_to_terminal_def split: if_splits)
  have "z = bdd_terminal (2 * int v + (if b then 1 else 0))" if bd: "pd_bounded pd"
  proof -
    from pd_inv_value [OF inv bd Some] bd have "int v < 2 ^ 30" by (simp add: pd_bounded_def)
    from int32_terminal [OF _ this, of b] show ?thesis by (simp add: e mult.commute)
  qed
  with inv Some e show ?thesis by (simp add: pd_le_def pd_inv_def pd_bounded_def)
next
  case None
  let ?m = "pair_to_terminal_map pd" and ?n = "length (pair_to_terminal_map pd)"
  from r None have pd': "pair_to_terminal_map pd' = ?m @ [((l, r), ?n mod 2 ^ 32)]"
      "pd_todo pd' = pd_todo pd @ [(l, r)]"
    and z: "z = bdd_terminal (int32 (2 * int (?n mod 2 ^ 32) + (if b then 1 else 0)))"
    by (auto simp: pair_to_terminal_def Let_def)
  from None have nk: "(l, r) \<notin> set (map fst ?m)" by (simp add: map_of_eq_None_iff)
  from inv have d: "distinct (map fst ?m)" and t: "pd_todo pd = drop c (map fst ?m)"
    and c: "c \<le> ?n" by (simp_all add: pd_inv_def)
  have le: "pd_le pd pd'" by (simp add: pd_le_def pd')
  have g: "map snd (pair_to_terminal_map pd') = [0..<length (pair_to_terminal_map pd')] \<and>
      z = bdd_terminal (2 * int ?n + (if b then 1 else 0))" if bd: "pd_bounded pd'"
  proof -
    from bd have n: "?n < 2 ^ 30" by (simp add: pd_bounded_def pd')
    then have m: "?n mod 2 ^ 32 = ?n" by simp
    from n have "pd_bounded pd" by (simp add: pd_bounded_def)
    with inv have "map snd ?m = [0..<?n]" by (simp add: pd_inv_def)
    then have a: "map snd (pair_to_terminal_map pd') = [0..<length (pair_to_terminal_map pd')]"
      using m by (simp add: pd')
    from n have "int ?n < 2 ^ 30" by simp
    from int32_terminal [OF _ this, of b] have "z = bdd_terminal (2 * int ?n + (if b then 1 else 0))"
      using m by (simp add: z mult.commute)
    with a show ?thesis by simp
  qed
  have i': "pd_inv c pd'"
    unfolding pd_inv_def using d nk t c g by (auto simp: pd')
  have "map_of (pair_to_terminal_map pd') (l, r) = Some (?n mod 2 ^ 32)"
    using None by (simp add: pd' map_add_def)
  moreover have "?n mod 2 ^ 32 = ?n" if "pd_bounded pd'"
    using that by (simp add: pd_bounded_def pd')
  ultimately have "pd_bounded pd' \<longrightarrow>
        (\<exists>v. map_of (pair_to_terminal_map pd') (l, r) = Some v \<and>
             z = bdd_terminal (2 * int v + (if b then 1 else 0)))"
    using g by auto
  with i' le z show ?thesis by simp
qed

text \<open>The leaf that the combiner of an operator gives for two leaves, in a table that
  holds the pair of their states.\<close>

definition product_leaf_ok :: "product_op \<Rightarrow> product_data \<Rightarrow> bdd \<Rightarrow> bdd \<Rightarrow> bdd \<Rightarrow> bool" where
  "product_leaf_ok o' pd x y z =
     (case op_const o' x y of
        Some c \<Rightarrow> z = c
      | None \<Rightarrow>
         (let ls = fst (leaf_to_state x); rs = fst (leaf_to_state y);
              may_stop = op_bits o' (snd (leaf_to_state x)) (snd (leaf_to_state y))
          in if ls = state_false \<and> rs = state_false \<and> \<not> may_stop then z = bddfalse
             else if ls = state_true \<and> rs = state_true \<and> may_stop then z = bddtrue
             else \<exists>v. map_of (pair_to_terminal_map pd) (ls, rs) = Some v \<and>
                    z = bdd_terminal (2 * int v + (if may_stop then 1 else 0))))"

lemma product_leaf_ok_stable:
  "product_leaf_ok o' pd x y z \<Longrightarrow> pd_le pd pd' \<Longrightarrow> product_leaf_ok o' pd' x y z"
  unfolding product_leaf_ok_def Let_def
  by (auto split: option.splits if_splits dest: pd_le_map_of)

lemma op_const_leaf: "op_const o' x y = Some c \<Longrightarrow> c = bddfalse \<or> c = bddtrue"
  by (cases o') (auto simp: op_const_def split: if_splits)

lemma product_combine_spec:
  assumes inv: "pd_inv c pd" and r: "fst (product_combine o') x y pd = Inr (z, pd')"
  shows "pd_inv c pd' \<and> pd_le pd pd' \<and> bdd_is_leaf z \<and>
     (pd_bounded pd' \<longrightarrow> product_leaf_ok o' pd' x y z)"
proof (cases "op_const o' x y")
  case (Some k)
  with r have "z = k" "pd' = pd" by (simp_all add: product_combine_eq)
  with inv Some op_const_leaf [OF Some] show ?thesis
    by (auto simp: pd_le_refl product_leaf_ok_def)
next
  case None
  let ?ls = "fst (leaf_to_state x)" and ?rs = "fst (leaf_to_state y)"
  let ?b = "op_bits o' (snd (leaf_to_state x)) (snd (leaf_to_state y))"
  from r None have p: "pair_to_terminal_bdd ?ls ?rs ?b pd = Inr (z, pd')"
    by (simp add: product_combine_eq)
  show ?thesis
  proof (cases "(?ls = state_false \<and> ?rs = state_false \<and> \<not> ?b) \<or>
                (?ls = state_true \<and> ?rs = state_true \<and> ?b)")
    case True
    with p have "pd' = pd" "z = (if ?b then bddtrue else bddfalse)"
      by (auto simp: pair_to_terminal_bdd_def split: if_splits)
    with inv None True show ?thesis
      by (auto simp: pd_le_refl product_leaf_ok_def Let_def)
  next
    case False
    with p have "pair_to_terminal ?ls ?rs ?b pd = Inr (z, pd')"
      by (auto simp: pair_to_terminal_bdd_def split: if_splits)
    from pair_to_terminal_spec [OF inv this] None False show ?thesis
      by (auto simp: product_leaf_ok_def Let_def)
  qed
qed

lemma product_shortcut:
  assumes "apply_shortcut (snd (product_combine o')) l r = Some k"
  shows "product_leaf_ok o' pd (bdd_eval l a) (bdd_eval r a) (bdd_eval k a)"
  using assms
  by (cases o') (auto simp: product_combine_def product_leaf_ok_def op_const_def split: if_splits)

lemma product_apply_spec:
  assumes inv: "pd_inv c pd"
    and r: "bdd_mt_apply2_leaves l r (fst (product_combine o')) (snd (product_combine o')) pd =
            Inr (b, pd')"
  shows "pd_inv c pd' \<and> pd_le pd pd' \<and>
     (pd_bounded pd' \<longrightarrow>
        (\<forall>a. product_leaf_ok o' pd' (bdd_eval l a) (bdd_eval r a) (bdd_eval b a)))"
proof (rule bdd_mt_apply2_leaves_leafwise
    [where S = "product_leaf_ok o'" and J = "pd_inv c" and ext = pd_le and ok = pd_bounded,
       OF _ _ _ _ _ _ inv r])
  show "\<And>s s1 s2. pd_le s s1 \<Longrightarrow> pd_le s1 s2 \<Longrightarrow> pd_le s s2" by (rule pd_le_trans)
  show "\<And>s s' x y z. product_leaf_ok o' s x y z \<Longrightarrow> pd_le s s' \<Longrightarrow> product_leaf_ok o' s' x y z"
    by (rule product_leaf_ok_stable)
  show "\<And>x y s z s'. pd_inv c s \<Longrightarrow> fst (product_combine o') x y s = Inr (z, s') \<Longrightarrow>
       pd_inv c s' \<and> pd_le s s' \<and> bdd_is_leaf z \<and> (pd_bounded s' \<longrightarrow> product_leaf_ok o' s' x y z)"
    by (rule product_combine_spec)
  show "\<And>s s'. pd_le s s' \<Longrightarrow> pd_bounded s' \<Longrightarrow> pd_bounded s" by (rule pd_le_bounded)
  show "\<And>l r c s a. apply_shortcut (snd (product_combine o')) l r = Some c \<Longrightarrow>
       product_leaf_ok o' s (bdd_eval l a) (bdd_eval r a) (bdd_eval c a)"
    by (rule product_shortcut)
  show "\<And>s. pd_le s s" by (rule pd_le_refl)
qed

subsection \<open>The states of the result\<close>

text \<open>The states that the loop has built: the state of rank \<open>k\<close> combines the roots of
  the two states of the pair of rank \<open>k\<close>, leaf by leaf.\<close>

definition product_done :: "mtdfa \<Rightarrow> mtdfa \<Rightarrow> product_op \<Rightarrow> product_data \<Rightarrow> bdd list \<Rightarrow> bool" where
  "product_done A B o' pd sts =
     (pd_bounded pd \<longrightarrow>
      (\<forall>k<length sts. \<exists>x fx y fy.
         bdd_and_formula_from_state (fst (fst (pair_to_terminal_map pd ! k))) A = Inr (x, fx) \<and>
         bdd_and_formula_from_state (snd (fst (pair_to_terminal_map pd ! k))) B = Inr (y, fy) \<and>
         (\<forall>a. product_leaf_ok o' pd (bdd_eval x a) (bdd_eval y a) (bdd_eval (sts ! k) a))))"

lemma pd_le_nth:
  "pd_le pd pd' \<Longrightarrow> k < length (pair_to_terminal_map pd) \<Longrightarrow>
   pair_to_terminal_map pd' ! k = pair_to_terminal_map pd ! k"
  by (auto simp: pd_le_def nth_append)

lemma product_done_stable:
  assumes d: "product_done A B o' pd sts" and le: "pd_le pd pd'"
    and n: "length sts \<le> length (pair_to_terminal_map pd)"
  shows "product_done A B o' pd' sts"
  unfolding product_done_def
proof (intro impI allI)
  fix k assume bd: "pd_bounded pd'" and k: "k < length sts"
  from pd_le_bounded [OF le bd] d k obtain x fx y fy where
    a: "bdd_and_formula_from_state (fst (fst (pair_to_terminal_map pd ! k))) A = Inr (x, fx)"
       "bdd_and_formula_from_state (snd (fst (pair_to_terminal_map pd ! k))) B = Inr (y, fy)"
       "\<forall>a. product_leaf_ok o' pd (bdd_eval x a) (bdd_eval y a) (bdd_eval (sts ! k) a)"
    unfolding product_done_def by blast
  from k n have "pair_to_terminal_map pd' ! k = pair_to_terminal_map pd ! k"
    by (intro pd_le_nth [OF le]) simp
  with a product_leaf_ok_stable [OF _ le]
  show "\<exists>x fx y fy.
         bdd_and_formula_from_state (fst (fst (pair_to_terminal_map pd' ! k))) A = Inr (x, fx) \<and>
         bdd_and_formula_from_state (snd (fst (pair_to_terminal_map pd' ! k))) B = Inr (y, fy) \<and>
         (\<forall>a. product_leaf_ok o' pd' (bdd_eval x a) (bdd_eval y a) (bdd_eval (sts ! k) a))"
    by auto
qed

lemma drop_eq_ConsD:
  "drop c xs = s # rest \<Longrightarrow> c < length xs \<and> xs ! c = s \<and> rest = drop (Suc c) xs"
proof -
  assume d: "drop c xs = s # rest"
  then have c: "c < length xs" by (cases "c < length xs") auto
  from Cons_nth_drop_Suc [OF c] d show ?thesis using c by simp
qed

lemma product_loop_spec_aux:
  assumes "product_loop A B o' pd sts nms = Some res"
  shows "\<forall>S N. res = Inr (S, N) \<longrightarrow> pd_inv (length sts) pd \<longrightarrow> product_done A B o' pd sts \<longrightarrow>
      (\<exists>pdf. pd_inv (length S) pdf \<and> pd_todo pdf = [] \<and> product_done A B o' pdf S \<and>
             pd_le pd pdf)"
  using assms
proof (induction rule: product_loop.raw_induct [rotated 1, consumes 1, case_names 1])
  case (1 loop A B o' pd sts nms res)
  show ?case
  proof (intro allI impI)
    fix S N assume res: "res = Inr (S, N)" and inv: "pd_inv (length sts) pd"
      and dn: "product_done A B o' pd sts"
    show "\<exists>pdf. pd_inv (length S) pdf \<and> pd_todo pdf = [] \<and> product_done A B o' pdf S \<and>
             pd_le pd pdf"
    proof (cases "pd_todo pd")
      case Nil
      with "1.hyps" res have "S = sts" by simp
      with inv dn Nil show ?thesis by (auto simp: pd_le_refl)
    next
      case (Cons s rest)
      let ?keys = "map fst (pair_to_terminal_map pd)" and ?c = "length sts"
      from inv Cons have "drop ?c ?keys = s # rest" by (simp add: pd_inv_def)
      from drop_eq_ConsD [OF this] have c: "?c < length ?keys" and s: "?keys ! ?c = s"
        and rest: "rest = drop (Suc ?c) ?keys" by simp_all
      from "1.hyps" Cons res obtain left left_f right right_f b pd1 nms1 where
        l: "bdd_and_formula_from_state (fst s) A = Inr (left, left_f)"
        and r: "bdd_and_formula_from_state (snd s) B = Inr (right, right_f)"
        and ap: "bdd_mt_apply2_leaves left right (fst (product_combine o'))
                   (snd (product_combine o')) (pd\<lparr>pd_todo := rest\<rparr>) = Inr (b, pd1)"
        and rec: "loop A B o' pd1 (sts @ [b]) nms1 = Some res"
        by (auto split: sum.splits prod.splits)
      have inv0: "pd_inv (Suc ?c) (pd\<lparr>pd_todo := rest\<rparr>)"
        using inv c rest by (simp add: pd_inv_def pd_bounded_def)
      note sp = product_apply_spec [OF inv0 ap]
      then have inv1: "pd_inv (length (sts @ [b])) pd1" and le0: "pd_le (pd\<lparr>pd_todo := rest\<rparr>) pd1"
        by simp_all
      from le0 have le1: "pd_le pd pd1" by (simp add: pd_le_def)
      have dn1: "product_done A B o' pd1 (sts @ [b])"
        unfolding product_done_def
      proof (intro impI allI)
        fix k assume bd: "pd_bounded pd1" and k: "k < length (sts @ [b])"
        show "\<exists>x fx y fy.
           bdd_and_formula_from_state (fst (fst (pair_to_terminal_map pd1 ! k))) A = Inr (x, fx) \<and>
           bdd_and_formula_from_state (snd (fst (pair_to_terminal_map pd1 ! k))) B = Inr (y, fy) \<and>
           (\<forall>a. product_leaf_ok o' pd1 (bdd_eval x a) (bdd_eval y a)
                  (bdd_eval ((sts @ [b]) ! k) a))"
        proof (cases "k < ?c")
          case True
          have "product_done A B o' pd1 sts"
            by (rule product_done_stable [OF dn le1]) (use c in simp)
          with bd True show ?thesis by (simp add: product_done_def nth_append)
        next
          case False
          with k have kc: "k = ?c" by simp
          from c have "pair_to_terminal_map pd1 ! ?c = pair_to_terminal_map pd ! ?c"
            by (intro pd_le_nth [OF le1]) simp
          with s c have "fst (pair_to_terminal_map pd1 ! ?c) = s" by simp
          with l r sp bd kc show ?thesis by auto
        qed
      qed
      from "1.IH" [OF rec] have
        "res = Inr (S, N) \<longrightarrow> pd_inv (length (sts @ [b])) pd1 \<longrightarrow>
         product_done A B o' pd1 (sts @ [b]) \<longrightarrow>
         (\<exists>pdf. pd_inv (length S) pdf \<and> pd_todo pdf = [] \<and> product_done A B o' pdf S \<and>
                pd_le pd1 pdf)"
        by (elim allE)
      with res inv1 dn1 obtain pdf where
        "pd_inv (length S) pdf" "pd_todo pdf = []" "product_done A B o' pdf S" "pd_le pd1 pdf"
        by auto
      with pd_le_trans [OF le1] show ?thesis by blast
    qed
  qed
qed

subsection \<open>The words of the result\<close>

text \<open>The acceptance of a word after a leaf, for the letters that remain, and the
  acceptance from a state of a pair, which may be one of the two constants.\<close>

fun leaf_accepts :: "bdd list \<Rightarrow> bdd \<Rightarrow> (nat \<Rightarrow> bool) list \<Rightarrow> bool" where
  "leaf_accepts sts bddfalse w = False"
| "leaf_accepts sts bddtrue w = True"
| "leaf_accepts sts (bdd_terminal v) w =
     (if w = [] then v AND 1 \<noteq> 0 else 0 \<le> v \<and> mtdfa_accepts_from sts (nat (v div 2)) w)"
| "leaf_accepts sts (bdd_node x l h) w = False"

definition pair_state_accepts :: "bdd list \<Rightarrow> nat \<Rightarrow> (nat \<Rightarrow> bool) list \<Rightarrow> bool" where
  "pair_state_accepts sts s w =
     (if s = state_false then False
      else if s = state_true then w \<noteq> []
      else mtdfa_accepts_from sts s w)"

lemma mtdfa_accepts_from_Cons:
  "mtdfa_accepts_from sts i (a # w) =
     (i < length sts \<and> leaf_accepts sts (bdd_eval (sts ! i) a) w)"
  by (simp split: bdd.splits)

lemma bdd_eval_leaf': "bdd_is_leaf (bdd_eval b a)"
  by (induction b) auto

lemma pair_state_accepts_root:
  assumes "bdd_and_formula_from_state s A = Inr (x, f)"
  shows "pair_state_accepts (states A) s (a # w) = leaf_accepts (states A) (bdd_eval x a) w"
  using assms
  by (auto simp: bdd_and_formula_from_state_def pair_state_accepts_def mtdfa_accepts_from_Cons
      simp del: mtdfa_accepts_from.simps split: if_splits)

lemma root_leaf_in_range:
  assumes wf: "mtdfa_wf A" and r: "bdd_and_formula_from_state s A = Inr (x, f)"
  shows "leaf_in_range (length (states A)) (bdd_eval x a)"
proof -
  from r consider "x = bddfalse" | "x = bddtrue" | "s < length (states A)" "x = states A ! s"
    by (auto simp: bdd_and_formula_from_state_def split: if_splits)
  then show ?thesis
  proof cases
    case 3
    have "bdd_eval x a \<in> set (leaves_of x)" by (rule bdd_eval_in_leaves)
    moreover from 3 have "x \<in> set (states A)" by simp
    ultimately show ?thesis using wf unfolding mtdfa_wf_def list_all_iff by blast
  qed (simp_all add: leaf_in_range_def)
qed

lemma leaf_accepts_last:
  "bdd_is_leaf x \<Longrightarrow> leaf_accepts sts x [] = snd (leaf_to_state x)"
  by (cases x) (simp_all add: leaf_to_state_def)

lemma leaf_to_state_terminal:
  assumes "0 \<le> v" "nat (v div 2) < n" "n \<le> 2 ^ 30"
  shows "fst (leaf_to_state (bdd_terminal v)) = nat (v div 2)"
proof -
  from assms have "v div 2 < 2 ^ 32" by simp
  moreover from assms have "0 \<le> v div 2" by simp
  ultimately have "(v div 2) mod 2 ^ 32 = v div 2" by simp
  with assms(1) show ?thesis by (simp add: leaf_to_state_def sdiv2_nonneg)
qed

lemma leaf_state_const:
  assumes "bdd_is_leaf x" "leaf_in_range n x" "n \<le> 2 ^ 30"
  shows "(fst (leaf_to_state x) = state_false \<longleftrightarrow> x = bddfalse) \<and>
         (fst (leaf_to_state x) = state_true \<longleftrightarrow> x = bddtrue)"
proof (cases x)
  case (bdd_terminal v)
  with assms have v: "0 \<le> v" "nat (v div 2) < n" by (simp_all add: leaf_in_range_def)
  from leaf_to_state_terminal [OF v assms(3)] v assms(3) bdd_terminal show ?thesis
    by (simp add: state_false_def state_true_def)
qed (use assms in \<open>simp_all add: leaf_to_state_def state_false_def state_true_def\<close>)

lemma leaf_accepts_state:
  assumes "bdd_is_leaf x" "leaf_in_range (length sts) x" "length sts \<le> 2 ^ 30" "w \<noteq> []"
  shows "leaf_accepts sts x w = pair_state_accepts sts (fst (leaf_to_state x)) w"
proof (cases x)
  case (bdd_terminal v)
  with assms have v: "0 \<le> v" "nat (v div 2) < length sts" by (simp_all add: leaf_in_range_def)
  from leaf_to_state_terminal [OF v assms(3)] v assms(3,4) bdd_terminal show ?thesis
    by (simp add: pair_state_accepts_def state_false_def state_true_def)
qed (use assms in \<open>simp_all add: leaf_to_state_def pair_state_accepts_def state_false_def state_true_def\<close>)

lemma op_const_accepts:
  assumes "op_const o' x y = Some z" "bdd_is_leaf x" "bdd_is_leaf y"
  shows "leaf_accepts S z w = op_bits o' (leaf_accepts sa x w) (leaf_accepts sb y w)"
  using assms by (cases o') (auto simp: op_const_def split: if_splits)

lemma product_leaf_accepts:
  assumes ok: "product_leaf_ok o' pd x y z"
    and x: "bdd_is_leaf x" "leaf_in_range (length sa) x" "length sa \<le> 2 ^ 30"
    and y: "bdd_is_leaf y" "leaf_in_range (length sb) y" "length sb \<le> 2 ^ 30"
    and tbl: "\<And>i j v. map_of (pair_to_terminal_map pd) (i, j) = Some v \<Longrightarrow> w \<noteq> [] \<Longrightarrow>
        mtdfa_accepts_from S v w =
          op_bits o' (pair_state_accepts sa i w) (pair_state_accepts sb j w)"
  shows "leaf_accepts S z w = op_bits o' (leaf_accepts sa x w) (leaf_accepts sb y w)"
proof (cases "op_const o' x y")
  case (Some k)
  with ok have "z = k" by (simp add: product_leaf_ok_def)
  with op_const_accepts [OF Some x(1) y(1)] show ?thesis by simp
next
  case None
  let ?ls = "fst (leaf_to_state x)" and ?rs = "fst (leaf_to_state y)"
  let ?b = "op_bits o' (snd (leaf_to_state x)) (snd (leaf_to_state y))"
  note cx = leaf_state_const [OF x] and cy = leaf_state_const [OF y]
  have last: "?b = op_bits o' (leaf_accepts sa x []) (leaf_accepts sb y [])"
    by (simp add: leaf_accepts_last x(1) y(1))
  consider (f) "?ls = state_false" "?rs = state_false" "\<not> ?b" "z = bddfalse"
    | (t) "?ls = state_true" "?rs = state_true" "?b" "z = bddtrue"
    | (p) v where "map_of (pair_to_terminal_map pd) (?ls, ?rs) = Some v"
        "z = bdd_terminal (2 * int v + (if ?b then 1 else 0))"
    using ok None by (auto simp: product_leaf_ok_def Let_def split: if_splits)
  then show ?thesis
  proof cases
    case f
    with cx cy have "x = bddfalse" "y = bddfalse" by simp_all
    with f show ?thesis by (simp add: leaf_to_state_def)
  next
    case t
    with cx cy have "x = bddtrue" "y = bddtrue" by simp_all
    with t show ?thesis by (simp add: leaf_to_state_def)
  next
    case p
    show ?thesis
    proof (cases "w = []")
      case True
      have "(2 * int v + (if ?b then 1 else 0)) AND 1 \<noteq> 0 \<longleftrightarrow> ?b"
        by (simp add: and_one_eq)
      with p True last show ?thesis by simp
    next
      case False
      have d: "nat ((2 * int v + (if ?b then 1 else 0)) div 2) = v" by simp
      have "leaf_accepts S z w = mtdfa_accepts_from S v w"
        using p False by (simp only: leaf_accepts.simps d) simp
      also have "\<dots> = op_bits o' (pair_state_accepts sa ?ls w) (pair_state_accepts sb ?rs w)"
        by (rule tbl [OF p(1) False])
      also have "\<dots> = op_bits o' (leaf_accepts sa x w) (leaf_accepts sb y w)"
        by (simp add: leaf_accepts_state [OF x False] leaf_accepts_state [OF y False])
      finally show ?thesis .
    qed
  qed
qed

lemma product_accepts_from:
  assumes wfA: "mtdfa_wf A" and wfB: "mtdfa_wf B"
    and nA: "length (states A) \<le> 2 ^ 30" and nB: "length (states B) \<le> 2 ^ 30"
    and inv: "pd_inv c pd" and bd: "pd_bounded pd"
    and len: "length S = length (pair_to_terminal_map pd)"
    and dn: "product_done A B o' pd S"
  shows "w \<noteq> [] \<Longrightarrow> k < length S \<Longrightarrow> fst (pair_to_terminal_map pd ! k) = (i, j) \<Longrightarrow>
     mtdfa_accepts_from S k w =
       op_bits o' (pair_state_accepts (states A) i w) (pair_state_accepts (states B) j w)"
proof (induction w arbitrary: k i j)
  case Nil
  then show ?case by simp
next
  case (Cons a w)
  from dn bd Cons.prems(2) obtain x fx y fy where
    rx: "bdd_and_formula_from_state (fst (fst (pair_to_terminal_map pd ! k))) A = Inr (x, fx)"
    and ry: "bdd_and_formula_from_state (snd (fst (pair_to_terminal_map pd ! k))) B = Inr (y, fy)"
    and ok: "\<forall>a. product_leaf_ok o' pd (bdd_eval x a) (bdd_eval y a) (bdd_eval (S ! k) a)"
    unfolding product_done_def by blast
  from rx ry Cons.prems(3) have rx': "bdd_and_formula_from_state i A = Inr (x, fx)"
    and ry': "bdd_and_formula_from_state j B = Inr (y, fy)" by simp_all
  from ok have ok': "product_leaf_ok o' pd (bdd_eval x a) (bdd_eval y a) (bdd_eval (S ! k) a)"
    by blast
  have "mtdfa_accepts_from S k (a # w) = leaf_accepts S (bdd_eval (S ! k) a) w"
    using Cons.prems(2) by (simp only: mtdfa_accepts_from_Cons) simp
  also have "\<dots> = op_bits o' (leaf_accepts (states A) (bdd_eval x a) w)
                       (leaf_accepts (states B) (bdd_eval y a) w)"
  proof (rule product_leaf_accepts [OF ok' bdd_eval_leaf' root_leaf_in_range [OF wfA rx'] nA
        bdd_eval_leaf' root_leaf_in_range [OF wfB ry'] nB])
    fix i' j' v
    assume m: "map_of (pair_to_terminal_map pd) (i', j') = Some v" and w: "w \<noteq> []"
    from pd_inv_value [OF inv bd m] len
    have "v < length S" "fst (pair_to_terminal_map pd ! v) = (i', j')" by simp_all
    with w show "mtdfa_accepts_from S v w =
        op_bits o' (pair_state_accepts (states A) i' w) (pair_state_accepts (states B) j' w)"
      by (rule Cons.IH)
  qed
  also have "\<dots> = op_bits o' (pair_state_accepts (states A) i (a # w))
                       (pair_state_accepts (states B) j (a # w))"
    by (simp only: pair_state_accepts_root [OF rx'] pair_state_accepts_root [OF ry'])
  finally show ?case .
qed

text \<open>The table with which \<open>product_mtdfa_aux\<close> starts: the pair of the two initial
  states has rank 0 and waits in the queue.\<close>

definition product_initial :: product_data where
  "product_initial =
     \<lparr>pair_to_terminal_map = [((0, 0), 0)], terminal_nodes = [((0, 0), False)],
      pd_todo = [(0, 0)]\<rparr>"

lemma pair_to_terminal_initial:
  "pair_to_terminal 0 0 False \<lparr>pair_to_terminal_map = [], terminal_nodes = [], pd_todo = []\<rparr> =
     Inr (bdd_terminal 0, product_initial)"
  by (simp add: pair_to_terminal_def product_initial_def int32_def)

lemma product_mtdfa_aux_language:
  assumes wfA: "mtdfa_wf A" and wfB: "mtdfa_wf B"
    and nA: "length (states A) \<le> 2 ^ 30" and nB: "length (states B) \<le> 2 ^ 30"
    and r: "product_mtdfa_aux lt (d, A) (d, B) o' = Some (Inr P)"
    and nP: "length (states P) \<le> 2 ^ 30"
  shows "mtdfa_accepts P w = (w \<noteq> [] \<and> op_bits o' (mtdfa_accepts A w) (mtdfa_accepts B w))"
proof (cases "w = []")
  case True
  then show ?thesis by (simp add: mtdfa_accepts_def)
next
  case False
  define pd0 where "pd0 = product_initial"
  from r obtain sts nms where loop: "product_loop A B o' pd0 [] [] = Some (Inr (sts, nms))"
    and P: "states P = sts"
    by (auto simp: product_mtdfa_aux_def pair_to_terminal_initial pd0_def
        split: if_splits option.splits sum.splits)
  have inv0: "pd_inv (length ([] :: bdd list)) pd0"
    by (simp add: pd_inv_def pd0_def product_initial_def)
  have dn0: "product_done A B o' pd0 []" by (simp add: product_done_def)
  from product_loop_spec_aux [OF loop] inv0 dn0 obtain pdf where
    inv: "pd_inv (length sts) pdf" and td: "pd_todo pdf = []"
    and dn: "product_done A B o' pdf sts" and le: "pd_le pd0 pdf"
    by blast
  from inv td have len: "length sts = length (pair_to_terminal_map pdf)"
    by (simp add: pd_inv_def)
  with nP P have bd: "pd_bounded pdf" by (simp add: pd_bounded_def)
  from le have k0: "0 < length sts" "fst (pair_to_terminal_map pdf ! 0) = (0, 0)"
    by (auto simp: pd_le_def pd0_def product_initial_def len)
  have z: "pair_state_accepts (states A) 0 w = mtdfa_accepts A w"
    "pair_state_accepts (states B) 0 w = mtdfa_accepts B w"
    by (simp_all add: pair_state_accepts_def mtdfa_accepts_def state_false_def state_true_def)
  from product_accepts_from [OF wfA wfB nA nB inv bd len dn False k0] z P False
  show ?thesis by (simp add: mtdfa_accepts_def)
qed

subsection \<open>The product returns an automaton\<close>

lemma leaves_of_low_at: "set (leaves_of (bdd_low_at x b)) \<subseteq> set (leaves_of b)"
  by (cases b) auto

lemma leaves_of_high_at: "set (leaves_of (bdd_high_at x b)) \<subseteq> set (leaves_of b)"
  by (cases b) auto

lemma leaves_of_leaf: "bdd_is_leaf b \<Longrightarrow> leaves_of b = [b]"
  by (cases b) auto

lemma bdd_mt_apply2_leaves_total:
  assumes comb: "\<And>x y s. Lx x \<Longrightarrow> Ly y \<Longrightarrow> Q s \<Longrightarrow> \<exists>z s'. comb x y s = Inr (z, s') \<and> Q s'"
    and l: "\<forall>x\<in>set (leaves_of l). Lx x" and r: "\<forall>y\<in>set (leaves_of r). Ly y"
    and q: "Q s"
  shows "\<exists>b s'. bdd_mt_apply2_leaves l r comb opr s = Inr (b, s') \<and> Q s'"
  using comb l r q
proof (induction l r comb opr s rule: bdd_mt_apply2_leaves.induct)
  case (1 l r cmb opr s)
  note cmb = "1.prems"(1) and l = "1.prems"(2) and r = "1.prems"(3) and q = "1.prems"(4)
  show ?case
  proof (cases "apply_shortcut opr l r")
    case (Some c)
    with q show ?thesis by (simp add: bdd_mt_apply2_leaves.simps)
  next
    case None
    show ?thesis
    proof (cases "bdd_is_leaf l \<and> bdd_is_leaf r")
      case True
      with l r have "Lx l" "Ly r" by (simp_all add: leaves_of_leaf)
      from cmb [OF this q] None True show ?thesis by (simp add: bdd_mt_apply2_leaves.simps)
    next
      case False
      let ?x = "bdd_top l r"
      from l leaves_of_low_at have ll: "\<forall>x\<in>set (leaves_of (bdd_low_at ?x l)). Lx x" by blast
      from r leaves_of_low_at have rl: "\<forall>x\<in>set (leaves_of (bdd_low_at ?x r)). Ly x" by blast
      from l leaves_of_high_at have lh: "\<forall>x\<in>set (leaves_of (bdd_high_at ?x l)). Lx x" by blast
      from r leaves_of_high_at have rh: "\<forall>x\<in>set (leaves_of (bdd_high_at ?x r)). Ly x" by blast
      from "1.IH"(1) [OF None False cmb ll rl q] obtain lo s1 where
        lo: "bdd_mt_apply2_leaves (bdd_low_at ?x l) (bdd_low_at ?x r) cmb opr s = Inr (lo, s1)"
        and q1: "Q s1" by blast
      from "1.IH"(2) [OF None False lo refl cmb lh rh q1] obtain hi s2 where
        hi: "bdd_mt_apply2_leaves (bdd_high_at ?x l) (bdd_high_at ?x r) cmb opr s1 = Inr (hi, s2)"
        and q2: "Q s2" by blast
      from False have nl: "(bdd_is_leaf l \<and> bdd_is_leaf r) = False" by simp
      from None lo hi q2 show ?thesis
        by (subst bdd_mt_apply2_leaves.simps) (simp add: nl)
    qed
  qed
qed

text \<open>The states of the pairs: a state of the operand or one of the two constants.\<close>

definition state_ok :: "mtdfa \<Rightarrow> nat \<Rightarrow> bool" where
  "state_ok A s = (s < length (states A) \<or> s = state_true \<or> s = state_false)"

definition pd_range :: "mtdfa \<Rightarrow> mtdfa \<Rightarrow> product_data \<Rightarrow> bool" where
  "pd_range A B pd =
     (set (map fst (pair_to_terminal_map pd)) \<subseteq> {s. state_ok A s} \<times> {s. state_ok B s})"

lemma card_state_ok: "finite {s. state_ok A s} \<and> card {s. state_ok A s} \<le> length (states A) + 2"
proof -
  have e: "{s. state_ok A s} = {..<length (states A)} \<union> {state_true, state_false}"
    by (auto simp: state_ok_def)
  have "card ({..<length (states A)} \<union> {state_true, state_false}) \<le>
      card {..<length (states A)} + card {state_true, state_false}" by (rule card_Un_le)
  also have "\<dots> \<le> length (states A) + 2" by (simp add: card_insert_if)
  finally show ?thesis by (simp add: e)
qed

lemma pd_range_length:
  assumes rg: "pd_range A B pd" and d: "distinct (map fst (pair_to_terminal_map pd))"
  shows "length (pair_to_terminal_map pd) \<le> (length (states A) + 2) * (length (states B) + 2)"
proof -
  let ?K = "{s. state_ok A s} \<times> {s. state_ok B s}"
  have f: "finite ?K" by (intro finite_cartesian_product) (simp_all add: card_state_ok)
  with rg have "card (set (map fst (pair_to_terminal_map pd))) \<le> card ?K"
    unfolding pd_range_def by (rule card_mono [rotated])
  moreover from distinct_card [OF d]
  have "card (set (map fst (pair_to_terminal_map pd))) = length (pair_to_terminal_map pd)"
    by simp
  moreover have "card ?K = card {s. state_ok A s} * card {s. state_ok B s}"
    by (rule card_cartesian_product)
  moreover have "card {s. state_ok A s} * card {s. state_ok B s} \<le>
      (length (states A) + 2) * (length (states B) + 2)"
    by (intro mult_le_mono) (use card_state_ok in blast)+
  ultimately show ?thesis by (simp only:)
qed

lemma leaf_to_state_ok:
  assumes "bdd_is_leaf x" "leaf_in_range (length (states A)) x" "length (states A) \<le> 2 ^ 30"
  shows "state_ok A (fst (leaf_to_state x))"
proof (cases x)
  case (bdd_terminal v)
  with assms have v: "0 \<le> v" "nat (v div 2) < length (states A)"
    by (simp_all add: leaf_in_range_def)
  from leaf_to_state_terminal [OF v assms(3)] v bdd_terminal show ?thesis
    by (simp add: state_ok_def)
qed (use assms in \<open>simp_all add: leaf_to_state_def state_ok_def\<close>)

lemma product_combine_total:
  assumes nA: "length (states A) \<le> 2 ^ 30" and nB: "length (states B) \<le> 2 ^ 30"
    and sz: "(length (states A) + 2) * (length (states B) + 2) \<le> 2 ^ 30"
    and x: "bdd_is_leaf x \<and> leaf_in_range (length (states A)) x"
    and y: "bdd_is_leaf y \<and> leaf_in_range (length (states B)) y"
    and q: "pd_inv c pd \<and> pd_range A B pd"
  shows "\<exists>z pd'. fst (product_combine o') x y pd = Inr (z, pd') \<and>
     pd_inv c pd' \<and> pd_range A B pd'"
proof -
  let ?ls = "fst (leaf_to_state x)" and ?rs = "fst (leaf_to_state y)"
  from x nA have ls: "state_ok A ?ls" by (simp add: leaf_to_state_ok)
  from y nB have rs: "state_ok B ?rs" by (simp add: leaf_to_state_ok)
  from q have inv: "pd_inv c pd" and rg: "pd_range A B pd" by simp_all
  from inv have "distinct (map fst (pair_to_terminal_map pd))" by (simp add: pd_inv_def)
  from pd_range_length [OF rg this] sz have bd: "pd_bounded pd" by (simp add: pd_bounded_def)
  have "\<exists>z pd'. pair_to_terminal ?ls ?rs b pd = Inr (z, pd') \<and> pd_range A B pd'" for b
  proof (cases "map_of (pair_to_terminal_map pd) (?ls, ?rs)")
    case None
    with rg ls rs show ?thesis
      by (auto simp: pair_to_terminal_def pd_range_def Let_def)
  next
    case (Some v)
    from pd_inv_value [OF inv bd Some] bd have "v < 2 ^ 31" by (simp add: pd_bounded_def)
    with rg Some show ?thesis by (auto simp: pair_to_terminal_def pd_range_def)
  qed
  with rg have "\<exists>z pd'. pair_to_terminal_bdd ?ls ?rs b pd = Inr (z, pd') \<and> pd_range A B pd'" for b
    by (auto simp: pair_to_terminal_bdd_def)
  with rg have "\<exists>z pd'. fst (product_combine o') x y pd = Inr (z, pd') \<and> pd_range A B pd'"
    by (cases "op_const o' x y") (auto simp: product_combine_eq)
  then obtain z pd' where r: "fst (product_combine o') x y pd = Inr (z, pd')"
    and rg': "pd_range A B pd'" by blast
  from product_combine_spec [OF inv r] rg' r show ?thesis by blast
qed

lemma root_leaves_in_range:
  assumes wf: "mtdfa_wf A" and s: "state_ok A s"
  shows "\<exists>x f. bdd_and_formula_from_state s A = Inr (x, f) \<and>
     (\<forall>l\<in>set (leaves_of x). bdd_is_leaf l \<and> leaf_in_range (length (states A)) l)"
proof -
  have lf: "bdd_is_leaf l" if "l \<in> set (leaves_of x)" for l x
    using that by (induction x) auto
  show ?thesis
  proof (cases "s = state_false \<or> s = state_true")
    case True
    then show ?thesis
      by (auto simp: bdd_and_formula_from_state_def leaf_in_range_def)
  next
    case False
    with s have n: "s < length (states A)" by (simp add: state_ok_def)
    then have "states A ! s \<in> set (states A)" by simp
    with wf have "\<forall>l\<in>set (leaves_of (states A ! s)). leaf_in_range (length (states A)) l"
      unfolding mtdfa_wf_def list_all_iff by blast
    with False n lf show ?thesis
      by (auto simp: bdd_and_formula_from_state_def)
  qed
qed

lemma product_loop_total:
  assumes wfA: "mtdfa_wf A" and wfB: "mtdfa_wf B"
    and nA: "length (states A) \<le> 2 ^ 30" and nB: "length (states B) \<le> 2 ^ 30"
    and sz: "(length (states A) + 2) * (length (states B) + 2) \<le> 2 ^ 30"
  shows "pd_inv (length sts) pd \<Longrightarrow> pd_range A B pd \<Longrightarrow>
     \<exists>S N. product_loop A B o' pd sts nms = Some (Inr (S, N)) \<and> length S \<le> 2 ^ 30"
proof (induction "(length (states A) + 2) * (length (states B) + 2) - length sts"
    arbitrary: pd sts nms rule: less_induct)
  case less
  let ?M = "(length (states A) + 2) * (length (states B) + 2)"
  let ?keys = "map fst (pair_to_terminal_map pd)" and ?c = "length sts"
  note inv = less.prems(1) and rg = less.prems(2)
  show ?case
  proof (cases "pd_todo pd")
    case Nil
    from inv have "distinct ?keys" "?c \<le> length (pair_to_terminal_map pd)"
      by (simp_all add: pd_inv_def)
    with pd_range_length [OF rg] sz have "?c \<le> 2 ^ 30" by simp
    with Nil show ?thesis by (subst product_loop.simps) simp
  next
    case (Cons s rest)
    from inv Cons have "drop ?c ?keys = s # rest" by (simp add: pd_inv_def)
    from drop_eq_ConsD [OF this] have c: "?c < length ?keys" and s: "?keys ! ?c = s"
      and rest: "rest = drop (Suc ?c) ?keys" by simp_all
    from c s have "s \<in> set ?keys" by (metis nth_mem)
    with rg have sk: "state_ok A (fst s)" "state_ok B (snd s)"
      by (auto simp: pd_range_def)
    from root_leaves_in_range [OF wfA sk(1)] obtain left left_f where
      l: "bdd_and_formula_from_state (fst s) A = Inr (left, left_f)"
      and ll: "\<forall>l\<in>set (leaves_of left). bdd_is_leaf l \<and> leaf_in_range (length (states A)) l"
      by blast
    from root_leaves_in_range [OF wfB sk(2)] obtain right right_f where
      r: "bdd_and_formula_from_state (snd s) B = Inr (right, right_f)"
      and rl: "\<forall>l\<in>set (leaves_of right). bdd_is_leaf l \<and> leaf_in_range (length (states B)) l"
      by blast
    have inv0: "pd_inv (Suc ?c) (pd\<lparr>pd_todo := rest\<rparr>)"
      using inv c rest by (simp add: pd_inv_def pd_bounded_def)
    from rg have rg0: "pd_range A B (pd\<lparr>pd_todo := rest\<rparr>)" by (simp add: pd_range_def)
    from inv0 rg0 have q0: "pd_inv (Suc ?c) (pd\<lparr>pd_todo := rest\<rparr>) \<and>
        pd_range A B (pd\<lparr>pd_todo := rest\<rparr>)" by simp
    from bdd_mt_apply2_leaves_total
      [where Q = "\<lambda>s. pd_inv (Suc ?c) s \<and> pd_range A B s"
         and comb = "fst (product_combine o')"
         and Lx = "\<lambda>x. bdd_is_leaf x \<and> leaf_in_range (length (states A)) x"
         and Ly = "\<lambda>x. bdd_is_leaf x \<and> leaf_in_range (length (states B)) x",
       OF product_combine_total [OF nA nB sz] ll rl q0]
    obtain b pd1 where
      ap: "bdd_mt_apply2_leaves left right (fst (product_combine o'))
             (snd (product_combine o')) (pd\<lparr>pd_todo := rest\<rparr>) = Inr (b, pd1)"
      and inv1': "pd_inv (Suc ?c) pd1" and rg1: "pd_range A B pd1" by blast
    from inv1' have inv1: "pd_inv (length (sts @ [b])) pd1" by simp
    then have d: "distinct (map fst (pair_to_terminal_map pd1))"
      and c1: "Suc ?c \<le> length (pair_to_terminal_map pd1)" by (simp_all add: pd_inv_def)
    from pd_range_length [OF rg1 d] c1 have m: "?M - length (sts @ [b]) < ?M - ?c" by simp
    from less.hyps [OF m inv1 rg1] obtain S N where
      "product_loop A B o' pd1 (sts @ [b])
         (case (left_f, right_f) of
            (Some l, Some r) \<Rightarrow> nms @ [product_name o' l r]
          | _ \<Rightarrow> nms) = Some (Inr (S, N))" "length S \<le> 2 ^ 30" by blast
    with Cons l r ap show ?thesis by (subst product_loop.simps) simp
  qed
qed

lemma product_mtdfa_aux_total:
  assumes wfA: "mtdfa_wf A" and wfB: "mtdfa_wf B"
    and nA: "length (states A) \<le> 2 ^ 30" and nB: "length (states B) \<le> 2 ^ 30"
    and sz: "(length (states A) + 2) * (length (states B) + 2) \<le> 2 ^ 30"
    and o': "o' \<noteq> Op_Not"
  shows "\<exists>P. product_mtdfa_aux lt (d, A) (d, B) o' = Some (Inr P) \<and>
     length (states P) \<le> 2 ^ 30"
proof -
  have inv0: "pd_inv (length ([] :: bdd list)) product_initial"
    by (simp add: pd_inv_def product_initial_def)
  from wfA wfB have "pd_range A B product_initial"
    by (simp add: pd_range_def state_ok_def mtdfa_wf_def product_initial_def)
  from product_loop_total [OF wfA wfB nA nB sz inv0 this] obtain S N where
    "product_loop A B o' product_initial [] [] = Some (Inr (S, N))" "length S \<le> 2 ^ 30"
    by blast
  with o' show ?thesis by (simp add: product_mtdfa_aux_def pair_to_terminal_initial)
qed


subsection \<open>The five products\<close>

text \<open>The automaton of \<open>F a\<close>, a dictionary for the proposition \<open>a\<close>, and the automaton
  that \<open>product_implies\<close> returns for the automata of \<open>G a\<close> and \<open>F a\<close>: its only state is
  the constant true.\<close>

definition dfa_F_a :: mtdfa where
  "dfa_F_a =
     \<lparr> states = [bdd_node 0 (bdd_terminal 0) bddtrue], names = [F (ap ''a'')],
       aps = [ap ''a''], controllable_variables = bddtrue \<rparr>"

definition dict_a :: bdd_dict where
  "dict_a = \<lparr>var_map = [ap ''a'' \<mapsto> 0], varnum = 1\<rparr>"

definition dfa_G_a_implies_F_a :: mtdfa where
  "dfa_G_a_implies_F_a =
     \<lparr> states = [bddtrue], names = [formula_Implies (G (ap ''a'')) (F (ap ''a''))],
       aps = [ap ''a''], controllable_variables = bddtrue \<rparr>"

lemmas product_eval =
  product_def product_or_def product_xor_def product_implies_def product_xnor_def
  product_mtdfa_aux_def product_loop.simps bdd_mt_apply2_leaves.simps
  product_combine_def leaf_combine_and_def leaf_combine_or_def leaf_combine_implies_def
  leaf_combine_equiv_def leaf_combine_xor_def leaf_to_state_def pair_to_terminal_bdd_def
  pair_to_terminal_def bdd_and_formula_from_state_def state_true_def state_false_def
  pair_to_terminal_initial product_initial_def
  dfa_G_a_def dfa_F_a_def bdd_makenode_def sdiv2_nonneg int32_def product_name_def

lemma product_G_a_F_a:
  "\<exists>P. product (\<lambda>x y. False) (dict_a, dfa_G_a) (dict_a, dfa_F_a) = Some (Inr P) \<and>
     states P = [bdd_node 0 bddfalse (bdd_terminal 3), bdd_node 0 bddfalse (bdd_terminal 3)]"
  by (simp add: product_eval)

lemma product_or_G_a_F_a:
  "\<exists>P. product_or (\<lambda>x y. False) (dict_a, dfa_G_a) (dict_a, dfa_F_a) = Some (Inr P) \<and>
     states P = [bdd_node 0 (bdd_terminal 2) bddtrue, bdd_node 0 (bdd_terminal 2) bddtrue]"
  by (simp add: product_eval)

lemma product_implies_G_a_F_a:
  "product_implies (\<lambda>x y. False) (dict_a, dfa_G_a) (dict_a, dfa_F_a) =
     Some (Inr dfa_G_a_implies_F_a)"
  by (simp add: product_eval dfa_G_a_implies_F_a_def)

lemma product_xnor_G_a_F_a:
  "\<exists>P. product_xnor (\<lambda>x y. False) (dict_a, dfa_G_a) (dict_a, dfa_F_a) = Some (Inr P) \<and>
     states P = [bdd_node 0 (bdd_terminal 3) (bdd_terminal 5),
                 bdd_node 0 (bdd_terminal 3) bddfalse, bdd_node 0 bddfalse (bdd_terminal 5)]"
  by (simp add: product_eval)

lemma product_xor_G_a_F_a:
  "\<exists>P. product_xor (\<lambda>x y. False) (dict_a, dfa_G_a) (dict_a, dfa_F_a) = Some (Inr P) \<and>
     states P = [bdd_node 0 (bdd_terminal 2) (bdd_terminal 4),
                 bdd_node 0 (bdd_terminal 2) bddtrue, bdd_node 0 bddtrue (bdd_terminal 4)]"
  by (simp add: product_eval)

lemma mtdfa_accepts_nonempty: "mtdfa_accepts A w \<Longrightarrow> w \<noteq> []"
  by (auto simp: mtdfa_accepts_def)

text \<open>
  Claim C1, as stated, fails at the empty word for the implication and for the
  equivalence.  The empty word is not in the language of the automaton of \<open>G a\<close>, so it
  belongs to the implication of the two languages; but \<open>product_implies\<close> returns
  an automaton, and no automaton accepts the empty word.
\<close>

theorem product_implies_empty_word_counterexample:
  "mtdfa_wf dfa_G_a \<and> mtdfa_wf dfa_F_a \<and>
   product_implies (\<lambda>x y. False) (dict_a, dfa_G_a) (dict_a, dfa_F_a) =
     Some (Inr dfa_G_a_implies_F_a) \<and>
   \<not> mtdfa_accepts dfa_G_a [] \<and> \<not> mtdfa_accepts dfa_G_a_implies_F_a []"
  by (simp add: product_implies_G_a_F_a)
     (simp add: mtdfa_wf_def dfa_G_a_def dfa_F_a_def leaf_in_range_def mtdfa_accepts_def)

text \<open>
  Claim C1, amended.  Take two automata over the same dictionary whose terminals denote
  states, with at most \<open>2 ^ 30\<close> states each (the terminal \<open>2 * state + bit\<close> is an \<open>int\<close>
  of 32 bits).  If a product returns an automaton of at most \<open>2 ^ 30\<close> states, so that
  the numbers of its pairs fit the terminals as well, then: the
  automaton of \<open>product\<close> accepts the words that both automata accept, the automaton of
  \<open>product_or\<close> the words that one of them accepts, the automaton of \<open>product_xor\<close> the
  words that exactly one of them accepts; the automaton of \<open>product_implies\<close> accepts the
  words of at least one letter that the second automaton accepts if the first one does,
  and the automaton of \<open>product_xnor\<close> the words of at least one letter that both
  automata accept or both reject.  And if there are at most \<open>2 ^ 30\<close> pairs of states,
  the two constants counted as states, each product does return such an automaton.
\<close>

theorem product_language:
  assumes wfA: "mtdfa_wf A" and wfB: "mtdfa_wf B"
    and nA: "length (states A) \<le> 2 ^ 30" and nB: "length (states B) \<le> 2 ^ 30"
  shows
    "(product lt (d, A) (d, B) = Some (Inr P) \<and> length (states P) \<le> 2 ^ 30 \<longrightarrow>
        mtdfa_accepts P w = (mtdfa_accepts A w \<and> mtdfa_accepts B w)) \<and>
     (product_or lt (d, A) (d, B) = Some (Inr P) \<and> length (states P) \<le> 2 ^ 30 \<longrightarrow>
        mtdfa_accepts P w = (mtdfa_accepts A w \<or> mtdfa_accepts B w)) \<and>
     (product_implies lt (d, A) (d, B) = Some (Inr P) \<and> length (states P) \<le> 2 ^ 30 \<longrightarrow>
        mtdfa_accepts P w = (w \<noteq> [] \<and> (mtdfa_accepts A w \<longrightarrow> mtdfa_accepts B w))) \<and>
     (product_xnor lt (d, A) (d, B) = Some (Inr P) \<and> length (states P) \<le> 2 ^ 30 \<longrightarrow>
        mtdfa_accepts P w = (w \<noteq> [] \<and> (mtdfa_accepts A w = mtdfa_accepts B w))) \<and>
     (product_xor lt (d, A) (d, B) = Some (Inr P) \<and> length (states P) \<le> 2 ^ 30 \<longrightarrow>
        mtdfa_accepts P w = (mtdfa_accepts A w \<noteq> mtdfa_accepts B w)) \<and>
     ((length (states A) + 2) * (length (states B) + 2) \<le> 2 ^ 30 \<longrightarrow>
        (\<exists>Q. product lt (d, A) (d, B) = Some (Inr Q) \<and> length (states Q) \<le> 2 ^ 30) \<and>
        (\<exists>Q. product_or lt (d, A) (d, B) = Some (Inr Q) \<and> length (states Q) \<le> 2 ^ 30) \<and>
        (\<exists>Q. product_implies lt (d, A) (d, B) = Some (Inr Q) \<and> length (states Q) \<le> 2 ^ 30) \<and>
        (\<exists>Q. product_xnor lt (d, A) (d, B) = Some (Inr Q) \<and> length (states Q) \<le> 2 ^ 30) \<and>
        (\<exists>Q. product_xor lt (d, A) (d, B) = Some (Inr Q) \<and> length (states Q) \<le> 2 ^ 30))"
proof -
  note L = product_mtdfa_aux_language [OF wfA wfB nA nB, of lt d _ P w]
  note T = product_mtdfa_aux_total [OF wfA wfB nA nB, of _ lt d]
  have ne: "mtdfa_accepts A w \<Longrightarrow> w \<noteq> []" "mtdfa_accepts B w \<Longrightarrow> w \<noteq> []"
    by (auto dest: mtdfa_accepts_nonempty)
  have "product lt (d, A) (d, B) = Some (Inr P) \<and> length (states P) \<le> 2 ^ 30 \<longrightarrow>
        mtdfa_accepts P w = (mtdfa_accepts A w \<and> mtdfa_accepts B w)"
    using L [of Op_And] ne by (auto simp: product_def)
  moreover have "product_or lt (d, A) (d, B) = Some (Inr P) \<and> length (states P) \<le> 2 ^ 30 \<longrightarrow>
        mtdfa_accepts P w = (mtdfa_accepts A w \<or> mtdfa_accepts B w)"
    using L [of Op_Or] ne by (auto simp: product_or_def)
  moreover have "product_implies lt (d, A) (d, B) = Some (Inr P) \<and> length (states P) \<le> 2 ^ 30 \<longrightarrow>
        mtdfa_accepts P w = (w \<noteq> [] \<and> (mtdfa_accepts A w \<longrightarrow> mtdfa_accepts B w))"
    using L [of Op_Implies] by (auto simp: product_implies_def)
  moreover have "product_xnor lt (d, A) (d, B) = Some (Inr P) \<and> length (states P) \<le> 2 ^ 30 \<longrightarrow>
        mtdfa_accepts P w = (w \<noteq> [] \<and> (mtdfa_accepts A w = mtdfa_accepts B w))"
    using L [of Op_Equiv] by (auto simp: product_xnor_def)
  moreover have "product_xor lt (d, A) (d, B) = Some (Inr P) \<and> length (states P) \<le> 2 ^ 30 \<longrightarrow>
        mtdfa_accepts P w = (mtdfa_accepts A w \<noteq> mtdfa_accepts B w)"
    using L [of Op_Xor] ne by (auto simp: product_xor_def)
  moreover have "(length (states A) + 2) * (length (states B) + 2) \<le> 2 ^ 30 \<longrightarrow>
        (\<exists>Q. product lt (d, A) (d, B) = Some (Inr Q) \<and> length (states Q) \<le> 2 ^ 30) \<and>
        (\<exists>Q. product_or lt (d, A) (d, B) = Some (Inr Q) \<and> length (states Q) \<le> 2 ^ 30) \<and>
        (\<exists>Q. product_implies lt (d, A) (d, B) = Some (Inr Q) \<and> length (states Q) \<le> 2 ^ 30) \<and>
        (\<exists>Q. product_xnor lt (d, A) (d, B) = Some (Inr Q) \<and> length (states Q) \<le> 2 ^ 30) \<and>
        (\<exists>Q. product_xor lt (d, A) (d, B) = Some (Inr Q) \<and> length (states Q) \<le> 2 ^ 30)"
    using T [of Op_And] T [of Op_Or] T [of Op_Implies] T [of Op_Equiv] T [of Op_Xor]
    by (simp add: product_def product_or_def product_implies_def product_xnor_def
        product_xor_def)
  ultimately show ?thesis by (intro conjI)
qed

theorem product_language_witness:
  "mtdfa_wf dfa_G_a \<and> mtdfa_wf dfa_F_a \<and>
   (\<exists>P. product (\<lambda>x y. False) (dict_a, dfa_G_a) (dict_a, dfa_F_a) = Some (Inr P) \<and>
      states P = [bdd_node 0 bddfalse (bdd_terminal 3), bdd_node 0 bddfalse (bdd_terminal 3)] \<and>
      (\<forall>w. mtdfa_accepts P w = (mtdfa_accepts dfa_G_a w \<and> mtdfa_accepts dfa_F_a w))) \<and>
   (\<exists>P. product_or (\<lambda>x y. False) (dict_a, dfa_G_a) (dict_a, dfa_F_a) = Some (Inr P) \<and>
      states P = [bdd_node 0 (bdd_terminal 2) bddtrue, bdd_node 0 (bdd_terminal 2) bddtrue] \<and>
      (\<forall>w. mtdfa_accepts P w = (mtdfa_accepts dfa_G_a w \<or> mtdfa_accepts dfa_F_a w))) \<and>
   product_implies (\<lambda>x y. False) (dict_a, dfa_G_a) (dict_a, dfa_F_a) =
     Some (Inr dfa_G_a_implies_F_a) \<and>
   (\<forall>w. mtdfa_accepts dfa_G_a_implies_F_a w =
      (w \<noteq> [] \<and> (mtdfa_accepts dfa_G_a w \<longrightarrow> mtdfa_accepts dfa_F_a w))) \<and>
   (\<exists>P. product_xnor (\<lambda>x y. False) (dict_a, dfa_G_a) (dict_a, dfa_F_a) = Some (Inr P) \<and>
      states P = [bdd_node 0 (bdd_terminal 3) (bdd_terminal 5),
                  bdd_node 0 (bdd_terminal 3) bddfalse, bdd_node 0 bddfalse (bdd_terminal 5)] \<and>
      (\<forall>w. mtdfa_accepts P w =
         (w \<noteq> [] \<and> (mtdfa_accepts dfa_G_a w = mtdfa_accepts dfa_F_a w)))) \<and>
   (\<exists>P. product_xor (\<lambda>x y. False) (dict_a, dfa_G_a) (dict_a, dfa_F_a) = Some (Inr P) \<and>
      states P = [bdd_node 0 (bdd_terminal 2) (bdd_terminal 4),
                  bdd_node 0 (bdd_terminal 2) bddtrue, bdd_node 0 bddtrue (bdd_terminal 4)] \<and>
      (\<forall>w. mtdfa_accepts P w = (mtdfa_accepts dfa_G_a w \<noteq> mtdfa_accepts dfa_F_a w))) \<and>
   (\<exists>Q. product_xor (\<lambda>x y. False) (dict_a, dfa_G_a) (dict_a, dfa_G_a) = Some (Inr Q) \<and>
      length (states Q) \<le> 2 ^ 30)"
proof -
  have wfG: "mtdfa_wf dfa_G_a" and wfF: "mtdfa_wf dfa_F_a"
    by (simp_all add: mtdfa_wf_def dfa_G_a_def dfa_F_a_def leaf_in_range_def)
  have nG: "length (states dfa_G_a) \<le> 2 ^ 30" and nF: "length (states dfa_F_a) \<le> 2 ^ 30"
    by (simp_all add: dfa_G_a_def dfa_F_a_def)
  note T = product_language [OF wfG wfF nG nF, of "\<lambda>x y. False" dict_a]
  have c1: "\<exists>P. product (\<lambda>x y. False) (dict_a, dfa_G_a) (dict_a, dfa_F_a) = Some (Inr P) \<and>
      states P = [bdd_node 0 bddfalse (bdd_terminal 3), bdd_node 0 bddfalse (bdd_terminal 3)] \<and>
      (\<forall>w. mtdfa_accepts P w = (mtdfa_accepts dfa_G_a w \<and> mtdfa_accepts dfa_F_a w))"
  proof -
    from product_G_a_F_a obtain P where
      P: "product (\<lambda>x y. False) (dict_a, dfa_G_a) (dict_a, dfa_F_a) = Some (Inr P)"
      "states P = [bdd_node 0 bddfalse (bdd_terminal 3), bdd_node 0 bddfalse (bdd_terminal 3)]"
      by blast
    then have "length (states P) \<le> 2 ^ 30" by simp
    with T [of P] P show ?thesis by blast
  qed
  have c2: "\<exists>P. product_or (\<lambda>x y. False) (dict_a, dfa_G_a) (dict_a, dfa_F_a) = Some (Inr P) \<and>
      states P = [bdd_node 0 (bdd_terminal 2) bddtrue, bdd_node 0 (bdd_terminal 2) bddtrue] \<and>
      (\<forall>w. mtdfa_accepts P w = (mtdfa_accepts dfa_G_a w \<or> mtdfa_accepts dfa_F_a w))"
  proof -
    from product_or_G_a_F_a obtain P where
      P: "product_or (\<lambda>x y. False) (dict_a, dfa_G_a) (dict_a, dfa_F_a) = Some (Inr P)"
      "states P = [bdd_node 0 (bdd_terminal 2) bddtrue, bdd_node 0 (bdd_terminal 2) bddtrue]"
      by blast
    then have "length (states P) \<le> 2 ^ 30" by simp
    with T [of P] P show ?thesis by blast
  qed
  have c3: "\<forall>w. mtdfa_accepts dfa_G_a_implies_F_a w =
      (w \<noteq> [] \<and> (mtdfa_accepts dfa_G_a w \<longrightarrow> mtdfa_accepts dfa_F_a w))"
  proof -
    have "length (states dfa_G_a_implies_F_a) \<le> 2 ^ 30" by (simp add: dfa_G_a_implies_F_a_def)
    with T [of dfa_G_a_implies_F_a] product_implies_G_a_F_a show ?thesis by blast
  qed
  have c4: "\<exists>P. product_xnor (\<lambda>x y. False) (dict_a, dfa_G_a) (dict_a, dfa_F_a) = Some (Inr P) \<and>
      states P = [bdd_node 0 (bdd_terminal 3) (bdd_terminal 5),
                  bdd_node 0 (bdd_terminal 3) bddfalse, bdd_node 0 bddfalse (bdd_terminal 5)] \<and>
      (\<forall>w. mtdfa_accepts P w =
         (w \<noteq> [] \<and> (mtdfa_accepts dfa_G_a w = mtdfa_accepts dfa_F_a w)))"
  proof -
    from product_xnor_G_a_F_a obtain P where
      P: "product_xnor (\<lambda>x y. False) (dict_a, dfa_G_a) (dict_a, dfa_F_a) = Some (Inr P)"
      "states P = [bdd_node 0 (bdd_terminal 3) (bdd_terminal 5),
                  bdd_node 0 (bdd_terminal 3) bddfalse, bdd_node 0 bddfalse (bdd_terminal 5)]"
      by blast
    then have "length (states P) \<le> 2 ^ 30" by simp
    with T [of P] P show ?thesis by blast
  qed
  have c5: "\<exists>P. product_xor (\<lambda>x y. False) (dict_a, dfa_G_a) (dict_a, dfa_F_a) = Some (Inr P) \<and>
      states P = [bdd_node 0 (bdd_terminal 2) (bdd_terminal 4),
                  bdd_node 0 (bdd_terminal 2) bddtrue, bdd_node 0 bddtrue (bdd_terminal 4)] \<and>
      (\<forall>w. mtdfa_accepts P w = (mtdfa_accepts dfa_G_a w \<noteq> mtdfa_accepts dfa_F_a w))"
  proof -
    from product_xor_G_a_F_a obtain P where
      P: "product_xor (\<lambda>x y. False) (dict_a, dfa_G_a) (dict_a, dfa_F_a) = Some (Inr P)"
      "states P = [bdd_node 0 (bdd_terminal 2) (bdd_terminal 4),
                  bdd_node 0 (bdd_terminal 2) bddtrue, bdd_node 0 bddtrue (bdd_terminal 4)]"
      by blast
    then have "length (states P) \<le> 2 ^ 30" by simp
    with T [of P] P show ?thesis by blast
  qed
  have "(length (states dfa_G_a) + 2) * (length (states dfa_G_a) + 2) \<le> 2 ^ 30"
    by (simp add: dfa_G_a_def)
  with product_language [OF wfG wfG nG nG, of "\<lambda>x y. False" dict_a]
  have c6: "\<exists>Q. product_xor (\<lambda>x y. False) (dict_a, dfa_G_a) (dict_a, dfa_G_a) = Some (Inr Q) \<and>
      length (states Q) \<le> 2 ^ 30" by blast
  from wfG wfF c1 c2 product_implies_G_a_F_a c3 c4 c5 c6 show ?thesis by (intro conjI)
qed

end
